(* ===== verification/Prelude.thy ===== *)
theory Prelude
  imports Main "HOL-Library.Word"
begin

text \<open>
  Shared vocabulary of the development: machine bytes and 32-bit words, the faults a C or C++
  operation can end in, the sequencing of fallible operations, bounded memory buffers with
  checked reads and writes, bounded \<open>for\<close> loops, and the byte-order arithmetic that the
  packet builders and parsers share.
\<close>

unbundle bit_operations_syntax

type_synonym u8 = "8 word"
type_synonym u32 = "32 word"

named_theorems run_simps "symbolic execution of the fallible model code"

section \<open>Faults and sequencing\<close>

text \<open>
  What the C++ code can run into besides returning: an access outside an allocation, a value that
  was never initialised, a null pointer, an exception of the standard library, an undefined conversion, the call of
  \<open>std::terminate\<close> (assigning over a joinable \<open>std::thread\<close>), a process exit,
  and a loop that never returns.
\<close>

datatype fault =
    OutOfBounds | Uninitialised | NullDeref | OutOfRange | ParseError | TypeError | DivByZero
  | Undefined | Terminate | Exit int | Diverges

type_synonym 'a result = "fault + 'a"

fun rbind :: "'a result \<Rightarrow> ('a \<Rightarrow> 'b result) \<Rightarrow> 'b result" where
  "rbind (Inl e) f = Inl e"
| "rbind (Inr x) f = f x"

declare rbind.simps [run_simps]

definition check :: "bool \<Rightarrow> fault \<Rightarrow> unit result" where
  "check b e = (if b then Inr () else Inl e)"

lemma check_simps [simp, run_simps]:
  "check True e = Inr ()" "check False e = Inl e"
  by (simp_all add: check_def)

lemma rbind_Inr_iff: "rbind m f = Inr y \<longleftrightarrow> (\<exists>x. m = Inr x \<and> f x = Inr y)"
  by (cases m) auto

lemma rbind_Inl_iff:
  "rbind m f = Inl e \<longleftrightarrow> m = Inl e \<or> (\<exists>x. m = Inr x \<and> f x = Inl e)"
  by (cases m) auto

lemma check_Inr_iff [simp]: "check b e = Inr u \<longleftrightarrow> b"
  by (cases u) (simp add: check_def)

lemma check_Inl_iff [simp]: "check b e = Inl e' \<longleftrightarrow> \<not> b \<and> e = e'"
  by (auto simp: check_def)

lemma rbind_assoc: "rbind (rbind m f) g = rbind m (\<lambda>x. rbind (f x) g)"
  by (cases m) auto

lemma rbind_cong [fundef_cong]:
  "m = m' \<Longrightarrow> (\<And>x. m' = Inr x \<Longrightarrow> f x = f' x) \<Longrightarrow> rbind m f = rbind m' f'"
  by (cases m') auto

section \<open>Bounded loops\<close>

text \<open>\<open>for (i = a; i < a + n; ++i)\<close> over a state, stopping at the first fault.\<close>

fun for_range :: "nat \<Rightarrow> nat \<Rightarrow> (nat \<Rightarrow> 's \<Rightarrow> 's result) \<Rightarrow> 's \<Rightarrow> 's result" where
  "for_range a 0 f s = Inr s"
| "for_range a (Suc n) f s = rbind (f a s) (for_range (Suc a) n f)"

lemma for_range_inv:
  assumes "P a s"
    and "\<And>k s. a \<le> k \<Longrightarrow> k < a + n \<Longrightarrow> P k s \<Longrightarrow> \<exists>s'. f k s = Inr s' \<and> P (Suc k) s'"
  shows "\<exists>s'. for_range a n f s = Inr s' \<and> P (a + n) s'"
  using assms
proof (induction n arbitrary: a s)
  case 0
  then show ?case by simp
next
  case (Suc n)
  from Suc.prems(2) [of a s] Suc.prems(1) obtain s1 where
    s1: "f a s = Inr s1" and P1: "P (Suc a) s1" by auto
  have "\<exists>s'. for_range (Suc a) n f s1 = Inr s' \<and> P (Suc a + n) s'"
    using P1 Suc.prems(2) by (intro Suc.IH) auto
  with s1 show ?case by auto
qed

section \<open>Memory buffers\<close>

text \<open>
  An allocation of \<open>buf_cap\<close> bytes. The contents are a total function, so that the bytes
  of a fresh allocation are arbitrary but fixed; an access at or past \<open>buf_cap\<close> is a fault.
\<close>

record buffer =
  buf_cap :: nat
  buf_at :: "nat \<Rightarrow> u8"

lemma buf_eqI:
  "buf_cap a = buf_cap b \<Longrightarrow> (\<And>i. buf_at a i = buf_at b i) \<Longrightarrow> a = (b :: buffer)"
  by (intro buffer.equality) auto

definition buf_of :: "u8 list \<Rightarrow> buffer" where
  "buf_of bs = \<lparr>buf_cap = length bs, buf_at = (\<lambda>i. if i < length bs then bs ! i else 0)\<rparr>"

definition rd :: "buffer \<Rightarrow> nat \<Rightarrow> u8 result" where
  "rd b i = (if i < buf_cap b then Inr (buf_at b i) else Inl OutOfBounds)"

definition rd_slice :: "buffer \<Rightarrow> nat \<Rightarrow> nat \<Rightarrow> u8 list result" where
  "rd_slice b off n =
     (if off + n \<le> buf_cap b then Inr (map (buf_at b) [off..<off + n]) else Inl OutOfBounds)"

definition wr :: "buffer \<Rightarrow> nat \<Rightarrow> u8 list \<Rightarrow> buffer result" where
  "wr b off bs =
     (if off + length bs \<le> buf_cap b
      then Inr (b\<lparr>buf_at := (\<lambda>i. if off \<le> i \<and> i < off + length bs then bs ! (i - off)
                                else buf_at b i)\<rparr>)
      else Inl OutOfBounds)"

text \<open>The bytes \<open>bs\<close> lie in the buffer from \<open>off\<close> on.\<close>

definition buf_holds :: "buffer \<Rightarrow> nat \<Rightarrow> u8 list \<Rightarrow> bool" where
  "buf_holds b off bs \<longleftrightarrow>
     off + length bs \<le> buf_cap b \<and> (\<forall>i < length bs. buf_at b (off + i) = bs ! i)"

lemma buf_cap_buf_of [simp]: "buf_cap (buf_of bs) = length bs"
  by (simp add: buf_of_def)

lemma buf_holds_buf_of [simp]: "buf_holds (buf_of bs) 0 bs"
  by (simp add: buf_holds_def buf_of_def)

lemma buf_holds_Nil: "buf_holds b off [] \<longleftrightarrow> off \<le> buf_cap b"
  by (simp add: buf_holds_def)

lemma buf_holds_Cons:
  "buf_holds b off (x # xs) \<longleftrightarrow> off < buf_cap b \<and> buf_at b off = x \<and> buf_holds b (Suc off) xs"
  (is "?L \<longleftrightarrow> ?R")
proof
  assume ?L
  then have "off + length (x # xs) \<le> buf_cap b"
    and at: "\<And>i. i < length (x # xs) \<Longrightarrow> buf_at b (off + i) = (x # xs) ! i"
    by (auto simp: buf_holds_def)
  then show ?R using at [of 0] at [of "Suc i" for i] by (auto simp: buf_holds_def)
next
  assume ?R
  then show ?L by (auto simp: buf_holds_def nth_Cons' less_Suc_eq_0_disj)
qed

lemma buf_holds_append:
  "buf_holds b off (xs @ ys) \<longleftrightarrow> buf_holds b off xs \<and> buf_holds b (off + length xs) ys"
  by (induction xs arbitrary: off) (auto simp: buf_holds_Nil buf_holds_Cons,
      auto simp: buf_holds_def)

lemma rd_holds [run_simps]: "buf_holds b off (x # xs) \<Longrightarrow> rd b off = Inr x"
  by (simp add: buf_holds_Cons rd_def)

lemma rd_slice_holds:
  assumes "buf_holds b off bs"
  shows "rd_slice b off (length bs) = Inr bs"
proof -
  have "map (buf_at b) [off..<off + length bs] = bs"
    using assms by (intro nth_equalityI) (auto simp: buf_holds_def)
  with assms show ?thesis by (simp add: rd_slice_def buf_holds_def)
qed

lemma rd_slice_Inr:
  "rd_slice b off n = Inr bs \<longleftrightarrow> length bs = n \<and> buf_holds b off bs"
proof
  assume "rd_slice b off n = Inr bs"
  then show "length bs = n \<and> buf_holds b off bs"
    by (auto simp: rd_slice_def buf_holds_def split: if_splits)
next
  assume "length bs = n \<and> buf_holds b off bs"
  then show "rd_slice b off n = Inr bs" using rd_slice_holds by blast
qed

lemma wr_cap: "wr b off bs = Inr b' \<Longrightarrow> buf_cap b' = buf_cap b"
  by (auto simp: wr_def split: if_splits)

lemma wr_holds: "wr b off bs = Inr b' \<Longrightarrow> buf_holds b' off bs"
  by (auto simp: wr_def buf_holds_def split: if_splits)

lemma wr_ok: "off + length bs \<le> buf_cap b \<Longrightarrow> \<exists>b'. wr b off bs = Inr b'"
  by (simp add: wr_def)

lemma wr_keeps:
  assumes "wr b off bs = Inr b'" and "buf_holds b o' cs"
    and "o' + length cs \<le> off \<or> off + length bs \<le> o'"
  shows "buf_holds b' o' cs"
  using assms by (auto simp: wr_def buf_holds_def split: if_splits)

lemma wr_at:
  "wr b off bs = Inr b' \<Longrightarrow>
     buf_at b' i = (if off \<le> i \<and> i < off + length bs then bs ! (i - off) else buf_at b i)"
  by (auto simp: wr_def split: if_splits)

section \<open>Byte order\<close>

text \<open>\<open>(n >> k) & 0xFF\<close> of a C \<open>int\<close>, stored in a byte.\<close>

definition byte_of :: "nat \<Rightarrow> int \<Rightarrow> u8" where
  "byte_of k n = word_of_int (drop_bit k n AND 0xFF)"

text \<open>\<open>(n0 << 8) | n1\<close> and its 3- and 4-byte companions, on \<open>UINT32\<close>.\<close>

definition get_be16 :: "u8 \<Rightarrow> u8 \<Rightarrow> u32" where
  "get_be16 a b = (push_bit 8 (ucast a) OR ucast b)"

definition get_be24 :: "u8 \<Rightarrow> u8 \<Rightarrow> u8 \<Rightarrow> u32" where
  "get_be24 a b c = ((push_bit 16 (ucast a) OR push_bit 8 (ucast b)) OR ucast c) AND 0x00FFFFFF"

definition get_be32 :: "u8 \<Rightarrow> u8 \<Rightarrow> u8 \<Rightarrow> u8 \<Rightarrow> u32" where
  "get_be32 a b c d =
     ((push_bit 24 (ucast a) OR push_bit 16 (ucast b)) OR push_bit 8 (ucast c)) OR ucast d"

lemma bit_byte_of: "bit (byte_of k n) i \<longleftrightarrow> i < 8 \<and> bit n (k + i)"
proof -
  have "drop_bit k n AND 0xFF = take_bit 8 (drop_bit k n)"
    by (simp add: take_bit_eq_mask mask_eq_exp_minus_1)
  then show ?thesis by (auto simp: byte_of_def bit_simps)
qed

lemma get_be16_byte_of: "get_be16 (byte_of 8 n) (byte_of 0 n) = word_of_int (take_bit 16 n)"
  by (rule bit_word_eqI) (auto simp: get_be16_def bit_simps bit_byte_of)

lemma get_be24_byte_of:
  "get_be24 (byte_of 16 n) (byte_of 8 n) (byte_of 0 n) = word_of_int (take_bit 24 n)"
proof (rule bit_word_eqI)
  fix i :: nat
  have mask: "(0x00FFFFFF :: u32) = mask 24" by (simp add: mask_eq_exp_minus_1)
  consider "i < 8" | "8 \<le> i" "i < 16" | "16 \<le> i" by linarith
  then show "bit (get_be24 (byte_of 16 n) (byte_of 8 n) (byte_of 0 n)) i =
      bit (word_of_int (take_bit 24 n) :: u32) i"
    unfolding get_be24_def mask by cases (auto simp: bit_simps bit_byte_of)
qed

lemma get_be32_byte_of:
  "get_be32 (byte_of 24 n) (byte_of 16 n) (byte_of 8 n) (byte_of 0 n) = word_of_int n"
proof (rule bit_word_eqI)
  fix i :: nat
  consider "i < 8" | "8 \<le> i" "i < 16" | "16 \<le> i" "i < 24" | "24 \<le> i" by linarith
  then show "bit (get_be32 (byte_of 24 n) (byte_of 16 n) (byte_of 8 n) (byte_of 0 n)) i =
      bit (word_of_int n :: u32) i"
    unfolding get_be32_def by cases (auto simp: bit_simps bit_byte_of)
qed

lemma unat_get_be16: "0 \<le> n \<Longrightarrow> n < 2 ^ 16 \<Longrightarrow>
    unat (get_be16 (byte_of 8 n) (byte_of 0 n)) = nat n"
  by (simp add: get_be16_byte_of take_bit_int_eq_self unsigned_of_int)

lemma unat_get_be24: "0 \<le> n \<Longrightarrow> n < 2 ^ 24 \<Longrightarrow>
    unat (get_be24 (byte_of 16 n) (byte_of 8 n) (byte_of 0 n)) = nat n"
  by (simp add: get_be24_byte_of take_bit_int_eq_self unsigned_of_int)

lemma unat_get_be32: "0 \<le> n \<Longrightarrow> n < 2 ^ 32 \<Longrightarrow>
    unat (get_be32 (byte_of 24 n) (byte_of 16 n) (byte_of 8 n) (byte_of 0 n)) = nat n"
  by (simp add: get_be32_byte_of take_bit_int_eq_self unsigned_of_int)

text \<open>Conversions between \<open>int\<close> and 32-bit words inside the range.\<close>

lemma sint_u32: "- (2 ^ 31) \<le> x \<Longrightarrow> x < 2 ^ 31 \<Longrightarrow> sint (word_of_int x :: u32) = x"
  by (simp add: signed_of_int signed_take_bit_int_eq_self)

lemma uint_u32: "0 \<le> x \<Longrightarrow> x < 2 ^ 32 \<Longrightarrow> uint (word_of_int x :: u32) = x"
  by (simp add: unsigned_of_int take_bit_int_eq_self)

lemma unat_u32: "0 \<le> x \<Longrightarrow> x < 2 ^ 32 \<Longrightarrow> unat (word_of_int x :: u32) = nat x"
  by (simp add: unsigned_of_int take_bit_int_eq_self)

lemma u32_eq_0: "0 \<le> x \<Longrightarrow> x < 2 ^ 32 \<Longrightarrow> (word_of_int x :: u32) = 0 \<longleftrightarrow> x = 0"
  using uint_u32 [of x] by auto

lemma and_all_ones: "x AND 0xFFFFFFFF = (x :: u32)"
proof -
  have "(0xFFFFFFFF :: u32) = mask 32" by (simp add: mask_eq_exp_minus_1)
  then have "x AND 0xFFFFFFFF = take_bit 32 x" by (simp only: take_bit_eq_mask)
  then show ?thesis by (simp add: take_bit_word_eq_self)
qed

end
