(* ===== verification/Crypto.thy ===== *)
theory Crypto
  imports Prelude
begin

text \<open>
  \<^verbatim>\<open>src/include/Crypto.hpp\<close>: the repeating-key XOR that both viewers apply to the
  I-frames of an encrypted device. \<open>xor_unit\<close> is the inner loop over one key length,
  \<open>crypt\<close> the outer \<open>while\<close> over the buffer, with its 32-bit counters. The outer loop
  makes no progress on an empty key, so it is a partial function: \<open>None\<close> is a call that
  never returns. The buffer argument \<open>buf + len\<close> of the source is a buffer and an offset.
\<close>

definition xor_unit :: "buffer \<Rightarrow> u32 \<Rightarrow> buffer \<Rightarrow> nat \<Rightarrow> u32 \<Rightarrow> buffer result" where
  "xor_unit key key_len buf off buf_len =
     for_range 0 (unat (min key_len buf_len))
       (\<lambda>i b. rbind (rd b (off + i)) (\<lambda>x. rbind (rd key i) (\<lambda>k. wr b (off + i) [x XOR k])))
       buf"

partial_function (option) crypt_loop ::
    "buffer \<Rightarrow> u32 \<Rightarrow> buffer \<Rightarrow> nat \<Rightarrow> u32 \<Rightarrow> u32 \<Rightarrow> buffer result option" where
  "crypt_loop key key_len buf off buf_len len =
     (if len < buf_len then
        (let n = (if key_len < buf_len - len then key_len else buf_len - len) in
         case xor_unit key key_len buf (off + unat len) n of
           Inl e \<Rightarrow> Some (Inl e)
         | Inr buf' \<Rightarrow> crypt_loop key key_len buf' off buf_len (len + n))
      else Some (Inr buf))"

definition crypt :: "buffer \<Rightarrow> u32 \<Rightarrow> buffer \<Rightarrow> nat \<Rightarrow> u32 \<Rightarrow> buffer result option" where
  "crypt key key_len buf off buf_len = crypt_loop key key_len buf off buf_len 0"

definition encrypt :: "buffer \<Rightarrow> u32 \<Rightarrow> buffer \<Rightarrow> nat \<Rightarrow> u32 \<Rightarrow> buffer result option" where
  "encrypt key key_len buf off buf_len = crypt key key_len buf off buf_len"

definition decrypt :: "buffer \<Rightarrow> u32 \<Rightarrow> buffer \<Rightarrow> nat \<Rightarrow> u32 \<Rightarrow> buffer result option" where
  "decrypt key key_len buf off buf_len = crypt key key_len buf off buf_len"

section \<open>The reference cipher\<close>

text \<open>Byte \<open>i\<close> of the region is XORed with byte \<open>i mod key_len\<close> of the key.\<close>

definition xor_region :: "buffer \<Rightarrow> nat \<Rightarrow> nat \<Rightarrow> nat \<Rightarrow> nat \<Rightarrow> buffer \<Rightarrow> buffer" where
  "xor_region key k off lo hi b =
     b\<lparr>buf_at := (\<lambda>j. if off + lo \<le> j \<and> j < off + hi
                      then buf_at b j XOR buf_at key ((j - off) mod k) else buf_at b j)\<rparr>"

lemma xor_region_cap [simp]: "buf_cap (xor_region key k off lo hi b) = buf_cap b"
  by (simp add: xor_region_def)

lemma xor_region_at:
  "buf_at (xor_region key k off lo hi b) j =
     (if off + lo \<le> j \<and> j < off + hi then buf_at b j XOR buf_at key ((j - off) mod k)
      else buf_at b j)"
  by (simp add: xor_region_def)

lemma xor_region_empty [simp]: "xor_region key k off lo lo b = b"
  by (rule buf_eqI) (auto simp: xor_region_at)

lemma xor_region_join:
  "lo \<le> mid \<Longrightarrow> mid \<le> hi \<Longrightarrow>
     xor_region key k off mid hi (xor_region key k off lo mid b) = xor_region key k off lo hi b"
  by (rule buf_eqI) (auto simp: xor_region_at)

lemma xor_region_twice: "xor_region key k off lo hi (xor_region key k off lo hi b) = b"
proof -
  have "\<And>x y :: u8. (x XOR y) XOR y = x" by (simp add: xor.assoc)
  then show ?thesis by (intro buf_eqI) (auto simp: xor_region_at)
qed

section \<open>The loops compute it\<close>

lemma xor_unit_region:
  assumes off: "off + unat n \<le> buf_cap b" and n: "n \<le> key_len"
    and key: "unat key_len \<le> buf_cap key" and start: "off = base + p" "p mod unat key_len = 0"
    and pos: "key_len \<noteq> 0"
  shows "xor_unit key key_len b off n =
    Inr (xor_region key (unat key_len) base p (p + unat n) b)"
proof -
  let ?k = "unat key_len"
  let ?P = "\<lambda>i b'. b' = xor_region key ?k base p (p + i) b"
  have len: "unat (min key_len n) = unat n" using n by (simp add: min_def)
  have "\<exists>s'. for_range 0 (unat n)
        (\<lambda>i b. rbind (rd b (off + i)) (\<lambda>x. rbind (rd key i) (\<lambda>k. wr b (off + i) [x XOR k]))) b
      = Inr s' \<and> ?P (0 + unat n) s'"
  proof (rule for_range_inv)
    show "?P 0 b" by simp
  next
    fix i s
    assume i: "i < 0 + unat n" and s: "?P i s"
    have ik: "i < ?k" using i n by (simp add: word_le_nat_alt)
    have m: "(p + i) mod ?k = i" using start(2) ik by (simp add: mod_add_eq [symmetric])
    have r1: "rd s (off + i) = Inr (buf_at b (off + i))"
      using i off start by (simp add: s rd_def) (simp add: xor_region_def)
    have r2: "rd key i = Inr (buf_at key i)" using ik key by (simp add: rd_def)
    obtain s' where w: "wr s (off + i) [buf_at b (off + i) XOR buf_at key i] = Inr s'"
      using wr_ok [of "off + i" "[buf_at b (off + i) XOR buf_at key i]" s] i off
      by (auto simp: s)
    have "s' = xor_region key ?k base p (p + Suc i) b"
    proof (rule buf_eqI)
      show "buf_cap s' = buf_cap (xor_region key ?k base p (p + Suc i) b)"
        using wr_cap [OF w] by (simp add: s)
      show "buf_at s' j = buf_at (xor_region key ?k base p (p + Suc i) b) j" for j
        using m start by (cases "j = off + i") (auto simp: wr_at [OF w] s xor_region_at)
    qed
    note w = w [unfolded this]
    show "\<exists>s'. rbind (rd s (off + i)) (\<lambda>x. rbind (rd key i) (\<lambda>k. wr s (off + i) [x XOR k])) =
        Inr s' \<and> ?P (Suc i) s'"
      by (simp add: r1 r2 w)
  qed
  then show ?thesis by (auto simp: xor_unit_def len)
qed

lemma crypt_loop_region:
  assumes "off + unat buf_len \<le> buf_cap b" and "unat key_len \<le> buf_cap key" and "key_len \<noteq> 0"
    and "len \<le> buf_len" and "unat len mod unat key_len = 0 \<or> len = buf_len"
  shows "crypt_loop key key_len b off buf_len len =
    Some (Inr (xor_region key (unat key_len) off (unat len) (unat buf_len) b))"
  using assms
proof (induction "unat buf_len - unat len" arbitrary: len b rule: less_induct)
  case less
  show ?case
  proof (cases "len < buf_len")
    case False
    with less.prems(4) have "len = buf_len" by simp
    then show ?thesis by (subst crypt_loop.simps) simp
  next
    case True
    define n where "n = (if key_len < buf_len - len then key_len else buf_len - len)"
    have sub: "unat (buf_len - len) = unat buf_len - unat len"
      using True by (simp add: unat_sub less_imp_le)
    have lt: "unat len < unat buf_len" using True by (simp add: word_less_nat_alt)
    have n_le: "unat n \<le> unat buf_len - unat len" "n \<le> key_len"
      by (auto simp: n_def sub word_le_nat_alt word_less_nat_alt not_less)
    have n_pos: "0 < unat n"
      using less.prems(3) lt by (auto simp: n_def sub unat_gt_0)
    have add: "unat (len + n) = unat len + unat n"
    proof -
      have "unat len + unat n < 2 ^ 32" using n_le(1) lt unsigned_less [of buf_len, where ?'a = nat] by simp
      then show ?thesis by (simp add: unat_add_lem [THEN iffD1])
    qed
    have md: "unat len mod unat key_len = 0" using less.prems(5) True by auto
    have unit: "xor_unit key key_len b (off + unat len) n =
        Inr (xor_region key (unat key_len) off (unat len) (unat len + unat n) b)"
      using less.prems n_le lt md by (intro xor_unit_region) auto
    have next_ok: "unat (len + n) mod unat key_len = 0 \<or> len + n = buf_len"
    proof (cases "key_len < buf_len - len")
      case True
      then have "n = key_len" by (simp add: n_def)
      then show ?thesis using md add by simp
    next
      case False
      then show ?thesis by (simp add: n_def)
    qed
    have "crypt_loop key key_len b off buf_len len =
        crypt_loop key key_len (xor_region key (unat key_len) off (unat len) (unat len + unat n) b)
          off buf_len (len + n)"
      using True by (subst crypt_loop.simps) (simp add: unit Let_def flip: n_def)
    also have "\<dots> = Some (Inr (xor_region key (unat key_len) off (unat (len + n)) (unat buf_len)
          (xor_region key (unat key_len) off (unat len) (unat len + unat n) b)))"
      using less.prems next_ok n_pos n_le lt
      by (intro less.hyps) (auto simp: add word_le_nat_alt)
    also have "\<dots> = Some (Inr (xor_region key (unat key_len) off (unat len) (unat buf_len) b))"
      using n_le lt by (simp add: add xor_region_join)
    finally show ?thesis .
  qed
qed

lemma crypt_region:
  assumes "off + unat buf_len \<le> buf_cap b" and "unat key_len \<le> buf_cap key" and "key_len \<noteq> 0"
  shows "crypt key key_len b off buf_len =
    Some (Inr (xor_region key (unat key_len) off 0 (unat buf_len) b))"
  using assms by (simp add: crypt_def crypt_loop_region)

section \<open>The properties\<close>

text \<open>C19: \<open>encrypt\<close> with a non-empty key that is there in full computes the repeating-key XOR of
  the region, byte by byte, touches no byte outside it and does not fault, whatever the two lengths:
  the chunked loops and their 32-bit counters implement the reference cipher.\<close>

theorem encrypt_repeating_xor:
  assumes "off + unat buf_len \<le> buf_cap b" and "unat key_len \<le> buf_cap key" and "key_len \<noteq> 0"
  shows "\<exists>b'. encrypt key key_len b off buf_len = Some (Inr b') \<and> buf_cap b' = buf_cap b
    \<and> (\<forall>j. buf_at b' j = (if off \<le> j \<and> j < off + unat buf_len
                            then buf_at b j XOR buf_at key ((j - off) mod unat key_len)
                            else buf_at b j))"
  using crypt_region [OF assms]
  by (intro exI [of _ "xor_region key (unat key_len) off 0 (unat buf_len) b"])
    (simp add: encrypt_def xor_region_at)

theorem encrypt_repeating_xor_witness:
  "\<exists>b'. encrypt (buf_of [1, 2]) 2 (buf_of [9, 10, 20, 30]) 1 3 = Some (Inr b')
     \<and> buf_at b' 0 = 9 \<and> buf_at b' 1 = 11 \<and> buf_at b' 2 = 22 \<and> buf_at b' 3 = 31"
  using encrypt_repeating_xor [of 1 3 "buf_of [9, 10, 20, 30]" 2 "buf_of [1, 2]"]
  by (force simp: buf_of_def)

text \<open>C20: what the camera encrypts the viewer decrypts: \<open>decrypt\<close> with the same key after
  \<open>encrypt\<close> gives back the original buffer.\<close>

theorem decrypt_encrypt:
  assumes "off + unat buf_len \<le> buf_cap b" and "unat key_len \<le> buf_cap key" and "key_len \<noteq> 0"
  shows "\<exists>b'. encrypt key key_len b off buf_len = Some (Inr b')
    \<and> decrypt key key_len b' off buf_len = Some (Inr b)"
proof -
  let ?b = "xor_region key (unat key_len) off 0 (unat buf_len) b"
  have "decrypt key key_len ?b off buf_len = Some (Inr b)"
    using crypt_region [of off buf_len ?b key_len key] assms by (simp add: decrypt_def xor_region_twice)
  then show ?thesis using crypt_region [OF assms] by (simp add: encrypt_def)
qed

theorem decrypt_encrypt_witness:
  "\<exists>b'. encrypt (buf_of [1, 2]) 2 (buf_of [9, 10, 20, 30]) 1 3 = Some (Inr b')
     \<and> decrypt (buf_of [1, 2]) 2 b' 1 3 = Some (Inr (buf_of [9, 10, 20, 30]))"
  by (rule decrypt_encrypt) simp_all

text \<open>With an empty key the loop of \<open>crypt\<close> makes no progress: on any non-empty buffer the call
  never returns.\<close>

lemma decrypt_empty_key_diverges:
  assumes "buf_len \<noteq> 0"
  shows "decrypt key 0 b off buf_len = None"
proof -
  have unit: "xor_unit key 0 b off 0 = Inr b" for key b off
    by (simp add: xor_unit_def)
  have "len = 0 \<longrightarrow> key_len = 0 \<longrightarrow> buf_len = 0" if "crypt_loop key key_len b off buf_len len = Some r"
    for key key_len b off buf_len len r
  proof (rule crypt_loop.raw_induct [where P = "\<lambda>key key_len b off buf_len len r.
      len = 0 \<longrightarrow> key_len = 0 \<longrightarrow> buf_len = 0", OF _ that])
    fix f and key :: buffer and key_len :: u32 and b :: buffer and off :: nat and buf_len len :: u32
      and r :: "buffer result"
    assume 1: "\<And>key key_len b off buf_len len r. f key key_len b off buf_len len = Some r \<Longrightarrow>
        len = 0 \<longrightarrow> key_len = 0 \<longrightarrow> buf_len = 0"
      "(if len < buf_len then
        (let n = (if key_len < buf_len - len then key_len else buf_len - len) in
         case xor_unit key key_len b (off + unat len) n of
           Inl e \<Rightarrow> Some (Inl e)
         | Inr buf' \<Rightarrow> f key key_len buf' off buf_len (len + n))
        else Some (Inr b)) = Some r"
    show "len = 0 \<longrightarrow> key_len = 0 \<longrightarrow> buf_len = 0"
    proof (intro impI)
      assume z: "len = 0" "key_len = 0"
      show "buf_len = 0"
      proof (rule ccontr)
        assume "buf_len \<noteq> 0"
        then have "f key 0 b off buf_len 0 = Some r"
          using 1(2) z by (simp add: unit word_neq_0_conv)
        from 1(1) [OF this] \<open>buf_len \<noteq> 0\<close> show False by simp
      qed
    qed
  qed
  then show ?thesis
    using assms by (cases "decrypt key 0 b off buf_len") (auto simp: decrypt_def crypt_def)
qed

lemma decrypt_empty_key_diverges_witness:
  "decrypt (buf_of []) 0 (buf_of [1]) 0 1 = None"
  by (rule decrypt_empty_key_diverges) simp

end
