(* ===== verification/Media_Types.thy ===== *)
theory Media_Types
  imports Prelude
begin

text \<open>
  The enumerations of \<^verbatim>\<open>src/include/types.h\<close>, the packet structure of
  \<^verbatim>\<open>src/include/librtmp/rtmp.h\<close> that the sender fills and the receiver reads, and the
  data that travel between the components: a NAL unit or a block of AAC data with its kind. The
  functions of librtmp itself are not under \<^verbatim>\<open>src/\<close>; those the components call are
  parameters of the model, and the two named hypotheses below are the documented behaviour of
  \<open>RTMPPacket_Alloc\<close> and \<open>RTMPPacket_Reset\<close> that the packet builders rely on.
\<close>

datatype nalu_type = NALU_TYPE_SPS | NALU_TYPE_PPS | NALU_TYPE_IDR | NALU_TYPE_OTHER

datatype audio_type = AUDIO_INFO | AUDIO_DATA

datatype audio_channel_type = AUDIO_CHANNEL_MONO | AUDIO_CHANNEL_STEREO

text \<open>The arguments of the callbacks: a kind and the bytes the pointer and length denote.\<close>

datatype media =
    Nalu nalu_type "u8 list"
  | Audio audio_type audio_channel_type "u8 list"

section \<open>RTMP packets\<close>

definition RTMP_PACKET_TYPE_AUDIO :: u8 where "RTMP_PACKET_TYPE_AUDIO = 0x08"
definition RTMP_PACKET_TYPE_VIDEO :: u8 where "RTMP_PACKET_TYPE_VIDEO = 0x09"
definition RTMP_PACKET_SIZE_LARGE :: u8 where "RTMP_PACKET_SIZE_LARGE = 0"
definition RTMP_PACKET_SIZE_MEDIUM :: u8 where "RTMP_PACKET_SIZE_MEDIUM = 1"

text \<open>
  \<open>m_body\<close> is the allocation the pointer refers to (\<open>None\<close> for a null or unset pointer).
  The chunk pointer, which only librtmp uses, is left out.
\<close>

record rtmp_packet =
  m_headerType :: u8
  m_packetType :: u8
  m_hasAbsTimestamp :: u8
  m_nChannel :: int
  m_nTimeStamp :: u32
  m_nInfoField2 :: int
  m_nBodySize :: u32
  m_nBytesRead :: u32
  m_body :: "buffer option"

definition RTMPPacket_IsReady :: "rtmp_packet \<Rightarrow> bool" where
  "RTMPPacket_IsReady p \<longleftrightarrow> m_nBytesRead p = m_nBodySize p"

text \<open>The body of a packet, for an access through \<open>m_body\<close>.\<close>

definition body :: "rtmp_packet \<Rightarrow> buffer result" where
  "body p = (case m_body p of None \<Rightarrow> Inl NullDeref | Some b \<Rightarrow> Inr b)"

lemma body_simps [simp, run_simps]:
  "m_body p = Some b \<Longrightarrow> body p = Inr b"
  "m_body p = None \<Longrightarrow> body p = Inl NullDeref"
  by (simp_all add: body_def)

definition put_body :: "rtmp_packet \<Rightarrow> nat \<Rightarrow> u8 list \<Rightarrow> rtmp_packet result" where
  "put_body p off bs =
     rbind (body p) (\<lambda>b. rbind (wr b off bs) (\<lambda>b'. Inr (p\<lparr>m_body := Some b'\<rparr>)))"

text \<open>
  \<open>RTMPPacket_Alloc\<close> gives the packet a body of the size asked for and clears
  \<open>m_nBytesRead\<close>; \<open>RTMPPacket_Reset\<close> clears the scalar fields and keeps the body.
\<close>

definition rtmp_alloc_ok :: "(rtmp_packet \<Rightarrow> int \<Rightarrow> rtmp_packet) \<Rightarrow> bool" where
  "rtmp_alloc_ok alloc \<longleftrightarrow>
     (\<forall>p n. 0 \<le> n \<longrightarrow>
        (\<exists>b. buf_cap b = nat n \<and> alloc p n = p\<lparr>m_nBytesRead := 0, m_body := Some b\<rparr>))"

definition rtmp_reset_ok :: "(rtmp_packet \<Rightarrow> rtmp_packet) \<Rightarrow> bool" where
  "rtmp_reset_ok reset \<longleftrightarrow>
     (\<forall>p. reset p = p\<lparr>m_headerType := 0, m_packetType := 0, m_hasAbsTimestamp := 0,
        m_nChannel := 0, m_nTimeStamp := 0, m_nInfoField2 := 0, m_nBodySize := 0,
        m_nBytesRead := 0\<rparr>)"

text \<open>Both hypotheses hold of the behaviour written out.\<close>

definition plain_alloc :: "rtmp_packet \<Rightarrow> int \<Rightarrow> rtmp_packet" where
  "plain_alloc p n =
     p\<lparr>m_nBytesRead := 0, m_body := Some \<lparr>buf_cap = nat n, buf_at = (\<lambda>_. 0)\<rparr>\<rparr>"

definition plain_reset :: "rtmp_packet \<Rightarrow> rtmp_packet" where
  "plain_reset p = p\<lparr>m_headerType := 0, m_packetType := 0, m_hasAbsTimestamp := 0,
     m_nChannel := 0, m_nTimeStamp := 0, m_nInfoField2 := 0, m_nBodySize := 0,
     m_nBytesRead := 0\<rparr>"

lemma plain_alloc_ok: "rtmp_alloc_ok plain_alloc"
  unfolding rtmp_alloc_ok_def plain_alloc_def
  by (intro allI impI exI conjI) (rule buffer.select_convs(1), rule refl)

lemma plain_reset_ok: "rtmp_reset_ok plain_reset"
  by (simp add: rtmp_reset_ok_def plain_reset_def)

section \<open>Writing a body front to back\<close>

text \<open>
  A packet whose body has the given capacity and already holds a prefix: every builder extends
  the prefix by consecutive stores.
\<close>

definition body_prefix :: "rtmp_packet \<Rightarrow> nat \<Rightarrow> u8 list \<Rightarrow> bool" where
  "body_prefix p cap bs \<longleftrightarrow>
     (\<exists>b. m_body p = Some b \<and> buf_cap b = cap \<and> buf_holds b 0 bs)"

lemma put_body_extend:
  assumes "body_prefix (r\<lparr>m_body := Some b0\<rparr>) cap bs"
    and "off = length bs" and "length bs + length cs \<le> cap"
  obtains b where "put_body (r\<lparr>m_body := Some b0\<rparr>) off cs = Inr (r\<lparr>m_body := Some b\<rparr>)"
    and "body_prefix (r\<lparr>m_body := Some b\<rparr>) cap (bs @ cs)"
proof -
  from assms(1) have b0: "buf_cap b0 = cap" "buf_holds b0 0 bs"
    by (auto simp: body_prefix_def)
  from assms(2,3) b0 obtain b where w: "wr b0 off cs = Inr b"
    using wr_ok [of off cs b0] by auto
  have "buf_holds b 0 bs"
    using w b0(2) by (rule wr_keeps) (simp add: assms(2))
  then have h: "buf_holds b 0 (bs @ cs)"
    using wr_holds [OF w] by (simp add: buf_holds_append assms(2))
  show thesis
  proof (rule that)
    show "put_body (r\<lparr>m_body := Some b0\<rparr>) off cs = Inr (r\<lparr>m_body := Some b\<rparr>)"
      using w by (simp add: put_body_def)
    show "body_prefix (r\<lparr>m_body := Some b\<rparr>) cap (bs @ cs)"
      using h wr_cap [OF w] b0 by (simp add: body_prefix_def)
  qed
qed

lemma put_body_overwrite:
  assumes "body_prefix (r\<lparr>m_body := Some b0\<rparr>) cap bs" and "length cs = length bs"
  obtains b where "put_body (r\<lparr>m_body := Some b0\<rparr>) 0 cs = Inr (r\<lparr>m_body := Some b\<rparr>)"
    and "body_prefix (r\<lparr>m_body := Some b\<rparr>) cap cs"
proof -
  from assms(1) have p: "body_prefix (r\<lparr>m_body := Some b0\<rparr>) cap []" and "length bs \<le> cap"
    by (auto simp: body_prefix_def buf_holds_def)
  then have "length [] + length cs \<le> cap" using assms(2) by simp
  from p _ this show thesis
  proof (rule put_body_extend)
    show "0 = length []" by simp
  next
    fix b
    assume "put_body (r\<lparr>m_body := Some b0\<rparr>) 0 cs = Inr (r\<lparr>m_body := Some b\<rparr>)"
      and "body_prefix (r\<lparr>m_body := Some b\<rparr>) cap ([] @ cs)"
    then show thesis by (intro that) simp_all
  qed
qed

lemma alloc_prefix:
  assumes "rtmp_alloc_ok alloc" and "0 \<le> n"
  obtains b where "alloc p n = p\<lparr>m_nBytesRead := 0, m_body := Some b\<rparr>"
    and "body_prefix (p\<lparr>m_nBytesRead := 0, m_body := Some b\<rparr>) (nat n) []"
proof -
  from assms obtain b where "buf_cap b = nat n"
    and "alloc p n = p\<lparr>m_nBytesRead := 0, m_body := Some b\<rparr>"
    unfolding rtmp_alloc_ok_def by blast
  then show thesis by (intro that [of b]) (auto simp: body_prefix_def buf_holds_Nil)
qed

text \<open>A full prefix: the body holds exactly these bytes.\<close>

definition body_is :: "rtmp_packet \<Rightarrow> u8 list \<Rightarrow> bool" where
  "body_is p bs \<longleftrightarrow> (\<exists>b. m_body p = Some b \<and> buf_cap b = length bs \<and> buf_holds b 0 bs)"

lemma body_is_prefix: "body_prefix p (length bs) bs \<Longrightarrow> body_is p bs"
  by (simp add: body_is_def body_prefix_def)

text \<open>The layout of one parameter set: its length in two bytes, then its bytes.\<close>

definition set_bytes :: "u8 list \<Rightarrow> u8 list" where
  "set_bytes d = [byte_of 8 (int (length d)), byte_of 0 (int (length d))] @ d"

lemma length_set_bytes [simp]: "length (set_bytes d) = 2 + length d"
  by (simp add: set_bytes_def)

end
