(* ===== verification/Video_Channel.thy ===== *)
theory Video_Channel
  imports Media_Types "HOL-Library.Signed_Division"
begin

text \<open>
  \<^verbatim>\<open>src/VideoChannel.cpp\<close>: the H.264 side of the sender. A camera frame in YUYV is
  converted to the three I420 planes of the encoder's picture, encoded, and each NAL unit the
  encoder returns is packed into the body of an RTMP packet in the FLV layout. libx264 and librtmp
  are parameters (\<open>x264_lib\<close> and \<open>alloc\<close> / \<open>reset\<close>); \<open>fresh\<close> is the
  arbitrary contents of a packet made by \<open>new RTMPPacket\<close>. A packet handed to the callback is
  the result of the builder; \<open>encodeData\<close> returns them in the order of the calls.
\<close>

section \<open>Encoder data\<close>

definition NAL_SLICE_IDR :: int where "NAL_SLICE_IDR = 5"
definition NAL_SPS :: int where "NAL_SPS = 7"
definition NAL_PPS :: int where "NAL_PPS = 8"
definition X264_CSP_I420 :: int where "X264_CSP_I420 = 2"
definition X264_RC_ABR :: int where "X264_RC_ABR = 2"

record nal =
  i_type :: int
  i_payload :: int
  p_payload :: buffer

record picture =
  plane0 :: buffer
  plane1 :: buffer
  plane2 :: buffer

record x264_param =
  i_level_idc :: int
  i_csp :: int
  i_width :: int
  i_height :: int
  i_rc_method :: int
  i_bitrate :: int
  i_vbv_max_bitrate :: int
  i_vbv_buffer_size :: int
  i_fps_num :: int
  i_fps_den :: int
  i_timebase_num :: int
  i_timebase_den :: int
  b_repeat_headers :: int
  b_vfr_input :: int
  i_keyint_max :: int
  i_bframe :: int
  i_threads :: int
  i_slice_count :: int

text \<open>
  \<open>scale_1_2\<close> is the conversion to \<open>int\<close> of the floating-point product with 1.2.
\<close>

record 'x x264_lib =
  default_preset :: x264_param
  picture_alloc :: "int \<Rightarrow> int \<Rightarrow> int \<Rightarrow> picture"
  encoder_open :: "x264_param \<Rightarrow> 'x option"
  encoder_encode :: "'x \<Rightarrow> picture \<Rightarrow> 'x \<times> nal list"
  scale_1_2 :: "int \<Rightarrow> int"

record 'x video_channel =
  width :: int
  height :: int
  fps :: int
  bitrate :: int
  y_byte_count :: int
  uv_byte_count :: int
  x264_encode_picture :: "picture option"
  x264_video_codec :: "'x option"

text \<open>The constructor leaves the scalar fields as the allocation has them.\<close>

definition new_VideoChannel :: "'x video_channel \<Rightarrow> 'x video_channel" where
  "new_VideoChannel raw = raw\<lparr>x264_encode_picture := None, x264_video_codec := None\<rparr>"

definition encoder_params :: "'x x264_lib \<Rightarrow> int \<Rightarrow> int \<Rightarrow> int \<Rightarrow> int \<Rightarrow> x264_param" where
  "encoder_params lib w h f br =
     (default_preset lib)\<lparr>
       i_level_idc := 32, i_csp := X264_CSP_I420, i_width := w, i_height := h,
       i_rc_method := X264_RC_ABR,
       i_bitrate := br sdiv 1000,
       i_vbv_max_bitrate := scale_1_2 lib (br sdiv 1000),
       i_vbv_buffer_size := br sdiv 1000,
       i_fps_num := f, i_fps_den := 1, i_timebase_num := 1, i_timebase_den := f,
       b_repeat_headers := 1, b_vfr_input := 0, i_keyint_max := f * 2, i_bframe := 0,
       i_threads := 1, i_slice_count := 1\<rparr>"

definition setVideoEncoderParams ::
    "'x x264_lib \<Rightarrow> int \<Rightarrow> int \<Rightarrow> int \<Rightarrow> int \<Rightarrow> 'x video_channel \<Rightarrow> 'x video_channel" where
  "setVideoEncoderParams lib w h f br vc =
     vc\<lparr>width := w, height := h, fps := f, bitrate := br,
        y_byte_count := w * h, uv_byte_count := drop_bit 2 (w * h),
        x264_encode_picture := Some (picture_alloc lib X264_CSP_I420 w h),
        x264_video_codec := encoder_open lib (encoder_params lib w h f br)\<rparr>"

section \<open>YUYV to I420\<close>

definition convert_luma :: "nat \<Rightarrow> buffer \<Rightarrow> picture \<Rightarrow> picture result" where
  "convert_luma n dat pic =
     for_range 0 n (\<lambda>i pic. rbind (rd dat (i * 2)) (\<lambda>y.
       rbind (wr (plane0 pic) i [y]) (\<lambda>b. Inr (pic\<lparr>plane0 := b\<rparr>)))) pic"

definition convert_chroma_cell ::
    "nat \<Rightarrow> buffer \<Rightarrow> nat \<Rightarrow> nat \<Rightarrow> picture \<Rightarrow> picture result" where
  "convert_chroma_cell w dat i j pic =
     rbind (rd dat (i * (w * 4) + j * 4 + 1)) (\<lambda>u.
     rbind (wr (plane1 pic) (i * (w div 2) + j) [u]) (\<lambda>b1.
     rbind (rd dat (i * (w * 4) + j * 4 + 3)) (\<lambda>v.
     rbind (wr (plane2 pic) (i * (w div 2) + j) [v]) (\<lambda>b2.
       Inr (pic\<lparr>plane1 := b1, plane2 := b2\<rparr>)))))"

definition convert_chroma :: "nat \<Rightarrow> nat \<Rightarrow> buffer \<Rightarrow> picture \<Rightarrow> picture result" where
  "convert_chroma w h dat pic =
     for_range 0 (h div 2) (\<lambda>i. for_range 0 (w div 2) (convert_chroma_cell w dat i)) pic"

definition yuyv_to_i420 :: "'x video_channel \<Rightarrow> buffer \<Rightarrow> picture \<Rightarrow> picture result" where
  "yuyv_to_i420 vc dat pic =
     rbind (convert_luma (nat (y_byte_count vc)) dat pic)
       (convert_chroma (nat (width vc)) (nat (height vc)) dat)"

section \<open>Packing NAL units\<close>

definition memcpy_src :: "buffer \<Rightarrow> nat \<Rightarrow> int \<Rightarrow> u8 list result" where
  "memcpy_src b off n = rbind (check (0 \<le> n) OutOfBounds) (\<lambda>_. rd_slice b off (nat n))"

definition sendSpsPpsToRtmpServer ::
    "(rtmp_packet \<Rightarrow> int \<Rightarrow> rtmp_packet) \<Rightarrow> rtmp_packet \<Rightarrow>
     buffer \<Rightarrow> int \<Rightarrow> buffer \<Rightarrow> int \<Rightarrow> rtmp_packet result" where
  "sendSpsPpsToRtmpServer alloc fresh sps sps_len pps pps_len =
    (let size = 10 + 3 + sps_len + 3 + pps_len; p = alloc fresh size in
     rbind (rd sps 1) (\<lambda>s1. rbind (rd sps 2) (\<lambda>s2. rbind (rd sps 3) (\<lambda>s3.
     rbind (put_body p 0 [0x17, 0x00, 0x00, 0x00, 0x00, 0x01, s1, s2, s3, 0xFF]) (\<lambda>p.
     rbind (put_body p 10 [0xE1, byte_of 8 sps_len, byte_of 0 sps_len]) (\<lambda>p.
     rbind (memcpy_src sps 0 sps_len) (\<lambda>s.
     rbind (put_body p 13 s) (\<lambda>p.
     rbind (put_body p (13 + nat sps_len) [0x01, byte_of 8 pps_len, byte_of 0 pps_len]) (\<lambda>p.
     rbind (memcpy_src pps 0 pps_len) (\<lambda>q.
     rbind (put_body p (13 + nat sps_len + 3) q) (\<lambda>p.
       Inr (p\<lparr>m_packetType := RTMP_PACKET_TYPE_VIDEO, m_nBodySize := word_of_int size,
              m_nChannel := 10, m_nTimeStamp := 0, m_hasAbsTimestamp := 0,
              m_headerType := RTMP_PACKET_SIZE_MEDIUM\<rparr>))))))))))))"

definition sendFrameToRtmpServer ::
    "(rtmp_packet \<Rightarrow> int \<Rightarrow> rtmp_packet) \<Rightarrow> (rtmp_packet \<Rightarrow> rtmp_packet) \<Rightarrow> rtmp_packet \<Rightarrow>
     int \<Rightarrow> buffer \<Rightarrow> int \<Rightarrow> rtmp_packet result" where
  "sendFrameToRtmpServer alloc reset fresh ty pl payload =
     rbind (rd pl 2) (\<lambda>b2.
     let start = (if b2 = 0x00 then 4 else 3); payload = payload - int start;
         size = 9 + payload; p = reset (alloc fresh size) in
     rbind (put_body p 0 [0x27]) (\<lambda>p.
     rbind (if ty = NAL_SLICE_IDR then put_body p 0 [0x17] else Inr p) (\<lambda>p.
     rbind (put_body p 1 [0x01, 0x00, 0x00, 0x00]) (\<lambda>p.
     rbind (put_body p 5 [byte_of 24 payload, byte_of 16 payload, byte_of 8 payload,
                          byte_of 0 payload]) (\<lambda>p.
     rbind (memcpy_src pl start payload) (\<lambda>d.
     rbind (put_body p 9 d) (\<lambda>p.
       Inr (p\<lparr>m_packetType := RTMP_PACKET_TYPE_VIDEO, m_nBodySize := word_of_int size,
              m_nChannel := 10, m_hasAbsTimestamp := 0,
              m_headerType := RTMP_PACKET_SIZE_MEDIUM\<rparr>))))))))"

section \<open>Encoding a frame\<close>

text \<open>
  The locals of the NAL loop: two 100-byte arrays and their lengths, which are unset until the
  first SPS and PPS of the frame.
\<close>

record nal_locals =
  l_sps :: buffer
  l_sps_len :: "int option"
  l_pps :: buffer
  l_pps_len :: "int option"

definition the_int :: "int option \<Rightarrow> int result" where
  "the_int x = (case x of None \<Rightarrow> Inl Uninitialised | Some n \<Rightarrow> Inr n)"

definition nal_step ::
    "(rtmp_packet \<Rightarrow> int \<Rightarrow> rtmp_packet) \<Rightarrow> (rtmp_packet \<Rightarrow> rtmp_packet) \<Rightarrow> rtmp_packet \<Rightarrow>
     nal \<Rightarrow> nal_locals \<times> rtmp_packet list \<Rightarrow> (nal_locals \<times> rtmp_packet list) result" where
  "nal_step alloc reset fresh n st =
    (let (l, out) = st in
     if i_type n = NAL_SPS then
       (let len = i_payload n - 4 in
        rbind (memcpy_src (p_payload n) 4 len) (\<lambda>d.
        rbind (wr (l_sps l) 0 d) (\<lambda>b. Inr (l\<lparr>l_sps := b, l_sps_len := Some len\<rparr>, out))))
     else if i_type n = NAL_PPS then
       (let len = i_payload n - 4 in
        rbind (memcpy_src (p_payload n) 4 len) (\<lambda>d.
        rbind (wr (l_pps l) 0 d) (\<lambda>b.
        rbind (the_int (l_sps_len l)) (\<lambda>sl.
        rbind (sendSpsPpsToRtmpServer alloc fresh (l_sps l) sl b len) (\<lambda>p.
          Inr (l\<lparr>l_pps := b, l_pps_len := Some len\<rparr>, out @ [p]))))))
     else
       rbind (sendFrameToRtmpServer alloc reset fresh (i_type n) (p_payload n) (i_payload n)) (\<lambda>p.
         Inr (l, out @ [p])))"

fun nal_loop ::
    "(rtmp_packet \<Rightarrow> int \<Rightarrow> rtmp_packet) \<Rightarrow> (rtmp_packet \<Rightarrow> rtmp_packet) \<Rightarrow> rtmp_packet \<Rightarrow>
     nal list \<Rightarrow> nal_locals \<times> rtmp_packet list \<Rightarrow> (nal_locals \<times> rtmp_packet list) result" where
  "nal_loop alloc reset fresh [] st = Inr st"
| "nal_loop alloc reset fresh (n # ns) st =
     rbind (nal_step alloc reset fresh n st) (nal_loop alloc reset fresh ns)"

definition encodeData ::
    "'x x264_lib \<Rightarrow> (rtmp_packet \<Rightarrow> int \<Rightarrow> rtmp_packet) \<Rightarrow> (rtmp_packet \<Rightarrow> rtmp_packet) \<Rightarrow>
     rtmp_packet \<Rightarrow> (nat \<Rightarrow> u8) \<Rightarrow> buffer \<Rightarrow> 'x video_channel \<Rightarrow>
     ('x video_channel \<times> rtmp_packet list) result" where
  "encodeData lib alloc reset fresh stack dat vc =
     (case x264_encode_picture vc of None \<Rightarrow> Inl NullDeref | Some pic \<Rightarrow>
      rbind (yuyv_to_i420 vc dat pic) (\<lambda>pic.
      case x264_video_codec vc of None \<Rightarrow> Inl NullDeref | Some codec \<Rightarrow>
      (let (codec', nals) = encoder_encode lib codec pic;
           l = \<lparr>l_sps = \<lparr>buf_cap = 100, buf_at = stack\<rparr>, l_sps_len = None,
                l_pps = \<lparr>buf_cap = 100, buf_at = stack\<rparr>, l_pps_len = None\<rparr> in
       rbind (nal_loop alloc reset fresh nals (l, [])) (\<lambda>(l, out).
         Inr (vc\<lparr>x264_encode_picture := Some pic, x264_video_codec := Some codec'\<rparr>, out)))))"

section \<open>The packet layouts\<close>

definition sps_pps_layout :: "u8 list \<Rightarrow> u8 list \<Rightarrow> u8 list" where
  "sps_pps_layout sps pps =
     [0x17, 0x00, 0x00, 0x00, 0x00, 0x01, sps ! 1, sps ! 2, sps ! 3, 0xFF, 0xE1] @
     set_bytes sps @ [0x01] @ set_bytes pps"

definition frame_layout :: "int \<Rightarrow> u8 list \<Rightarrow> u8 list" where
  "frame_layout ty d =
     [if ty = NAL_SLICE_IDR then 0x17 else 0x27, 0x01, 0x00, 0x00, 0x00,
      byte_of 24 (int (length d)), byte_of 16 (int (length d)), byte_of 8 (int (length d)),
      byte_of 0 (int (length d))] @ d"

lemma memcpy_src_holds:
  "buf_holds b off d \<Longrightarrow> memcpy_src b off (int (length d)) = Inr d"
  by (simp add: memcpy_src_def rd_slice_holds)

lemma sendSpsPps_ok:
  assumes alloc: "rtmp_alloc_ok alloc"
    and sps: "buf_holds sps_buf 0 sps" "4 \<le> length sps" and pps: "buf_holds pps_buf 0 pps"
  obtains p where "sendSpsPpsToRtmpServer alloc fresh sps_buf (int (length sps)) pps_buf
      (int (length pps)) = Inr p"
    and "body_is p (sps_pps_layout sps pps)" and "m_packetType p = RTMP_PACKET_TYPE_VIDEO"
    and "m_nBodySize p = word_of_int (16 + int (length sps) + int (length pps))"
proof -
  let ?n = "10 + 3 + int (length sps) + 3 + int (length pps)"
  let ?cap = "nat ?n"
  let ?p = "\<lambda>b. fresh\<lparr>m_nBytesRead := 0, m_body := Some b\<rparr>"
  let ?h1 = "[0x17, 0x00, 0x00, 0x00, 0x00, 0x01, sps ! 1, sps ! 2, sps ! 3, 0xFF]"
  let ?h2 = "[0xE1, byte_of 8 (int (length sps)), byte_of 0 (int (length sps))]"
  let ?h3 = "[0x01, byte_of 8 (int (length pps)), byte_of 0 (int (length pps))]"
  have rds: "rd sps_buf 1 = Inr (sps ! 1)" "rd sps_buf 2 = Inr (sps ! 2)"
    "rd sps_buf 3 = Inr (sps ! 3)"
    using sps by (auto simp: rd_def buf_holds_def)
  obtain b0 where a: "alloc fresh ?n = ?p b0" and p0: "body_prefix (?p b0) ?cap []"
    by (rule alloc_prefix [OF alloc, of ?n fresh]) simp_all
  obtain b1 where s1: "put_body (?p b0) 0 ?h1 = Inr (?p b1)"
    and p1: "body_prefix (?p b1) ?cap ([] @ ?h1)"
    by (rule put_body_extend [OF p0, of 0 ?h1]) simp_all
  obtain b2 where s2: "put_body (?p b1) 10 ?h2 = Inr (?p b2)"
    and p2: "body_prefix (?p b2) ?cap (([] @ ?h1) @ ?h2)"
    by (rule put_body_extend [OF p1, of 10 ?h2]) simp_all
  obtain b3 where s3: "put_body (?p b2) 13 sps = Inr (?p b3)"
    and p3: "body_prefix (?p b3) ?cap ((([] @ ?h1) @ ?h2) @ sps)"
    by (rule put_body_extend [OF p2, of 13 sps]) simp_all
  obtain b4 where s4: "put_body (?p b3) (13 + length sps) ?h3 = Inr (?p b4)"
    and p4: "body_prefix (?p b4) ?cap (((([] @ ?h1) @ ?h2) @ sps) @ ?h3)"
    by (rule put_body_extend [OF p3, of "13 + length sps" ?h3]) simp_all
  obtain b5 where s5: "put_body (?p b4) (13 + length sps + 3) pps = Inr (?p b5)"
    and p5: "body_prefix (?p b5) ?cap ((((([] @ ?h1) @ ?h2) @ sps) @ ?h3) @ pps)"
    by (rule put_body_extend [OF p4, of "13 + length sps + 3" pps]) simp_all
  let ?q = "?p b5\<lparr>m_packetType := RTMP_PACKET_TYPE_VIDEO, m_nBodySize := word_of_int ?n,
    m_nChannel := 10, m_nTimeStamp := 0, m_hasAbsTimestamp := 0,
    m_headerType := RTMP_PACKET_SIZE_MEDIUM\<rparr>"
  have "sendSpsPpsToRtmpServer alloc fresh sps_buf (int (length sps)) pps_buf
      (int (length pps)) = Inr ?q"
    using a s1 s2 s3 s4 s5 memcpy_src_holds [OF sps(1)] memcpy_src_holds [OF pps]
    by (simp add: sendSpsPpsToRtmpServer_def Let_def rds [simplified])
  moreover have "body_is ?q (sps_pps_layout sps pps)"
    using p5 by (simp add: body_is_def body_prefix_def sps_pps_layout_def set_bytes_def nat_add_distrib)
  ultimately show thesis by (rule that) (simp_all add: plain_reset_def algebra_simps)
qed

lemma sendFrame_ok:
  assumes alloc: "rtmp_alloc_ok alloc" and reset: "rtmp_reset_ok reset"
    and pl: "buf_holds pl 0 (sc @ d)" and sc: "sc = [0, 0, 0, 1] \<or> sc = [0, 0, 1]"
  obtains p where "sendFrameToRtmpServer alloc reset fresh ty pl (int (length (sc @ d))) = Inr p"
    and "body_is p (frame_layout ty d)" and "m_packetType p = RTMP_PACKET_TYPE_VIDEO"
    and "m_nBodySize p = word_of_int (9 + int (length d))"
proof -
  let ?n = "9 + int (length d)" and ?cap = "nat (9 + int (length d))"
  let ?p = "\<lambda>b. plain_reset fresh\<lparr>m_body := Some b\<rparr>"
  let ?len = "[byte_of 24 (int (length d)), byte_of 16 (int (length d)),
    byte_of 8 (int (length d)), byte_of 0 (int (length d))]"
  let ?tag = "if ty = NAL_SLICE_IDR then 0x17 else 0x27 :: u8"
  obtain b0 where "alloc fresh ?n = fresh\<lparr>m_nBytesRead := 0, m_body := Some b0\<rparr>"
    and "body_prefix (fresh\<lparr>m_nBytesRead := 0, m_body := Some b0\<rparr>) ?cap []"
    by (rule alloc_prefix [OF alloc, of ?n fresh]) simp_all
  then have a: "reset (alloc fresh ?n) = ?p b0" and p0: "body_prefix (?p b0) ?cap []"
    using reset by (simp_all add: rtmp_reset_ok_def plain_reset_def body_prefix_def)
  obtain b1 where s1: "put_body (?p b0) 0 [0x27] = Inr (?p b1)"
    and p1: "body_prefix (?p b1) ?cap ([] @ [0x27])"
    by (rule put_body_extend [OF p0, of 0 "[0x27]"]) simp_all
  obtain b1' where s1': "put_body (?p b1) 0 [0x17] = Inr (?p b1')"
    and p1': "body_prefix (?p b1') ?cap [0x17]"
    by (rule put_body_overwrite [OF p1, of "[0x17]"]) simp_all
  define b2 where "b2 = (if ty = NAL_SLICE_IDR then b1' else b1)"
  have s2: "(if ty = NAL_SLICE_IDR then put_body (?p b1) 0 [0x17] else Inr (?p b1)) = Inr (?p b2)"
    and p2: "body_prefix (?p b2) ?cap [?tag]"
    using s1' p1 p1' by (auto simp: b2_def)
  obtain b3 where s3: "put_body (?p b2) 1 [1, 0, 0, 0] = Inr (?p b3)"
    and p3: "body_prefix (?p b3) ?cap ([?tag] @ [1, 0, 0, 0])"
    by (rule put_body_extend [OF p2, of 1 "[1, 0, 0, 0]"]) simp_all
  obtain b4 where s4: "put_body (?p b3) 5 ?len = Inr (?p b4)"
    and p4: "body_prefix (?p b4) ?cap (([?tag] @ [1, 0, 0, 0]) @ ?len)"
    by (rule put_body_extend [OF p3, of 5 ?len]) simp_all
  obtain b5 where s5: "put_body (?p b4) 9 d = Inr (?p b5)"
    and p5: "body_prefix (?p b5) ?cap ((([?tag] @ [1, 0, 0, 0]) @ ?len) @ d)"
    by (rule put_body_extend [OF p4, of 9 d]) simp_all
  let ?q = "?p b5\<lparr>m_packetType := RTMP_PACKET_TYPE_VIDEO, m_nBodySize := word_of_int ?n,
    m_nChannel := 10, m_hasAbsTimestamp := 0, m_headerType := RTMP_PACKET_SIZE_MEDIUM\<rparr>"
  have rd2: "rd pl 2 = Inr (sc ! 2)"
    using pl sc by (auto simp: rd_def buf_holds_def nth_append)
  have src: "memcpy_src pl (length sc) (int (length d)) = Inr d"
    using pl by (intro memcpy_src_holds) (simp add: buf_holds_append)
  have "(if sc ! 2 = 0 then 4 else 3) = length sc" using sc by auto
  then have "sendFrameToRtmpServer alloc reset fresh ty pl (int (length (sc @ d))) = Inr ?q"
    using s1 s2 s3 s4 s5 src rd2
    by (simp add: sendFrameToRtmpServer_def Let_def a split del: if_split)
  moreover have "body_is ?q (frame_layout ty d)"
    using p5 by (simp add: body_is_def body_prefix_def frame_layout_def nat_add_distrib split del: if_split)
  ultimately show thesis by (rule that) simp_all
qed

end
