(* ===== verification/Yuyv.thy ===== *)
theory Yuyv
  imports Video_Channel
begin

text \<open>
  Correctness of the pixel conversion at the head of \<^verbatim>\<open>VideoChannel::encodeData\<close>: the
  nested loops over the camera buffer fill the three planes with the samples that the YUYV layout
  assigns to each pixel, and stay inside every allocation.
\<close>

text \<open>
  The samples of a YUYV frame of width \<open>w\<close>: two bytes per pixel, in groups of four bytes
  \<open>Y0 U Y1 V\<close> for two neighbouring pixels. Chroma is taken from the even rows.
\<close>

definition yuyv_y :: "buffer \<Rightarrow> nat \<Rightarrow> u8" where
  "yuyv_y dat i = buf_at dat (2 * i)"

definition yuyv_u :: "nat \<Rightarrow> buffer \<Rightarrow> nat \<Rightarrow> nat \<Rightarrow> u8" where
  "yuyv_u w dat i j = buf_at dat ((2 * i) * (2 * w) + 4 * j + 1)"

definition yuyv_v :: "nat \<Rightarrow> buffer \<Rightarrow> nat \<Rightarrow> nat \<Rightarrow> u8" where
  "yuyv_v w dat i j = buf_at dat ((2 * i) * (2 * w) + 4 * j + 3)"

definition planes_fit :: "nat \<Rightarrow> nat \<Rightarrow> picture \<Rightarrow> bool" where
  "planes_fit w h pic \<longleftrightarrow> buf_cap (plane0 pic) = w * h \<and>
     buf_cap (plane1 pic) = (w div 2) * (h div 2) \<and> buf_cap (plane2 pic) = (w div 2) * (h div 2)"

section \<open>Luma\<close>

lemma convert_luma_ok:
  assumes "n \<le> buf_cap (plane0 pic)" and "2 * n \<le> buf_cap dat"
  shows "\<exists>pic'. convert_luma n dat pic = Inr pic' \<and> plane1 pic' = plane1 pic
    \<and> plane2 pic' = plane2 pic \<and> buf_cap (plane0 pic') = buf_cap (plane0 pic)
    \<and> (\<forall>i < n. buf_at (plane0 pic') i = yuyv_y dat i)"
proof -
  let ?P = "\<lambda>k pic'. plane1 pic' = plane1 pic \<and> plane2 pic' = plane2 pic
    \<and> buf_cap (plane0 pic') = buf_cap (plane0 pic)
    \<and> (\<forall>i < k. buf_at (plane0 pic') i = yuyv_y dat i)"
  have "\<exists>s'. for_range 0 n (\<lambda>i pic. rbind (rd dat (i * 2)) (\<lambda>y.
       rbind (wr (plane0 pic) i [y]) (\<lambda>b. Inr (pic\<lparr>plane0 := b\<rparr>)))) pic = Inr s' \<and> ?P (0 + n) s'"
  proof (rule for_range_inv)
    show "?P 0 pic" by simp
  next
    fix k s
    assume k: "k < 0 + n" and P: "?P k s"
    have r: "rd dat (k * 2) = Inr (yuyv_y dat k)"
      using k assms(2) by (simp add: rd_def yuyv_y_def mult.commute)
    obtain b where w: "wr (plane0 s) k [yuyv_y dat k] = Inr b"
      using wr_ok [of k "[yuyv_y dat k]" "plane0 s"] P k assms(1) by auto
    have "?P (Suc k) (s\<lparr>plane0 := b\<rparr>)"
      using P wr_cap [OF w] by (auto simp: wr_at [OF w] less_Suc_eq)
    then show "\<exists>s'. rbind (rd dat (k * 2)) (\<lambda>y.
        rbind (wr (plane0 s) k [y]) (\<lambda>b. Inr (s\<lparr>plane0 := b\<rparr>))) = Inr s' \<and> ?P (Suc k) s'"
      using r w by auto
  qed
  then show ?thesis by (auto simp: convert_luma_def)
qed

section \<open>Chroma\<close>

text \<open>Which cells are done before cell \<open>(i, j)\<close>.\<close>

definition chroma_done :: "nat \<Rightarrow> buffer \<Rightarrow> picture \<Rightarrow> nat \<Rightarrow> nat \<Rightarrow> picture \<Rightarrow> bool" where
  "chroma_done w dat pic0 i j pic \<longleftrightarrow> plane0 pic = plane0 pic0
     \<and> buf_cap (plane1 pic) = buf_cap (plane1 pic0) \<and> buf_cap (plane2 pic) = buf_cap (plane2 pic0)
     \<and> (\<forall>i' j'. (i' < i \<or> i' = i \<and> j' < j) \<and> j' < w div 2 \<longrightarrow>
          buf_at (plane1 pic) (i' * (w div 2) + j') = yuyv_u w dat i' j' \<and>
          buf_at (plane2 pic) (i' * (w div 2) + j') = yuyv_v w dat i' j')"

lemma cell_before:
  fixes m :: nat
  assumes "i' < i \<or> i' = i \<and> j' < j" and "j' < m"
  shows "i' * m + j' < i * m + j"
proof (cases "i' < i")
  case True
  then have "Suc i' * m \<le> i * m" by (intro mult_le_mono1) simp
  with assms(2) show ?thesis by simp
next
  case False
  with assms(1) show ?thesis by simp
qed

lemma cell_bound:
  fixes m :: nat
  assumes "i < n" and "j < m"
  shows "i * m + j < m * n"
proof -
  have "Suc i * m \<le> n * m" using assms(1) by (intro mult_le_mono1) simp
  with assms(2) show ?thesis by (simp add: mult.commute)
qed

lemma source_bound:
  fixes w h :: nat
  assumes "i < h div 2" and "j < w div 2" and "k \<le> 3"
  shows "i * (w * 4) + j * 4 + k < 2 * (w * h)"
proof -
  have "4 * j + 4 \<le> 2 * w" using assms(2) by arith
  moreover have "w * (2 * i + 2) \<le> w * h"
    using assms(1) by (intro mult_le_mono2) arith
  ultimately show ?thesis using assms(3) by (simp add: algebra_simps)
qed

lemma convert_chroma_cell_ok:
  assumes P: "chroma_done w dat pic0 i j pic" and fit: "planes_fit w h pic0"
    and dat: "2 * (w * h) \<le> buf_cap dat" and i: "i < h div 2" and j: "j < w div 2"
  shows "\<exists>pic'. convert_chroma_cell w dat i j pic = Inr pic' \<and> chroma_done w dat pic0 i (Suc j) pic'"
proof -
  let ?c = "i * (w div 2) + j"
  have r1: "rd dat (i * (w * 4) + j * 4 + 1) = Inr (yuyv_u w dat i j)"
    and r3: "rd dat (i * (w * 4) + j * 4 + 3) = Inr (yuyv_v w dat i j)"
    using source_bound [OF i j, of 1] source_bound [OF i j, of 3] dat
    by (auto simp: rd_def yuyv_u_def yuyv_v_def algebra_simps)
  have c: "?c < (w div 2) * (h div 2)" using i j by (rule cell_bound)
  obtain b1 where w1: "wr (plane1 pic) ?c [yuyv_u w dat i j] = Inr b1"
    using wr_ok [of ?c "[yuyv_u w dat i j]" "plane1 pic"] P fit c
    by (auto simp: chroma_done_def planes_fit_def)
  obtain b2 where w2: "wr (plane2 pic) ?c [yuyv_v w dat i j] = Inr b2"
    using wr_ok [of ?c "[yuyv_v w dat i j]" "plane2 pic"] P fit c
    by (auto simp: chroma_done_def planes_fit_def)
  let ?pic = "pic\<lparr>plane1 := b1, plane2 := b2\<rparr>"
  have "buf_at b1 (i' * (w div 2) + j') = yuyv_u w dat i' j' \<and>
        buf_at b2 (i' * (w div 2) + j') = yuyv_v w dat i' j'"
    if "i' < i \<or> i' = i \<and> j' < Suc j" "j' < w div 2" for i' j'
  proof (cases "i' = i \<and> j' = j")
    case True
    then show ?thesis by (simp add: wr_at [OF w1] wr_at [OF w2])
  next
    case False
    with that have "i' < i \<or> i' = i \<and> j' < j" by auto
    with cell_before [OF this that(2)] P that(2) show ?thesis
      by (simp add: wr_at [OF w1] wr_at [OF w2] chroma_done_def)
  qed
  then have "chroma_done w dat pic0 i (Suc j) ?pic"
    using P wr_cap [OF w1] wr_cap [OF w2] by (simp add: chroma_done_def)
  moreover have "convert_chroma_cell w dat i j pic = Inr ?pic"
    unfolding convert_chroma_cell_def by (simp only: r1 r3 w1 w2 rbind.simps)
  ultimately show ?thesis by blast
qed

lemma chroma_done_row: "chroma_done w dat pic0 i (w div 2) pic \<Longrightarrow> chroma_done w dat pic0 (Suc i) 0 pic"
  by (auto simp: chroma_done_def less_Suc_eq)

lemma convert_chroma_ok:
  assumes fit: "planes_fit w h pic" and dat: "2 * (w * h) \<le> buf_cap dat"
  shows "\<exists>pic'. convert_chroma w h dat pic = Inr pic' \<and> chroma_done w dat pic (h div 2) 0 pic'"
proof -
  have "\<exists>s'. for_range 0 (h div 2) (\<lambda>i. for_range 0 (w div 2) (convert_chroma_cell w dat i)) pic =
      Inr s' \<and> chroma_done w dat pic (0 + h div 2) 0 s'"
  proof (rule for_range_inv)
    show "chroma_done w dat pic 0 0 pic" by (simp add: chroma_done_def)
  next
    fix i s
    assume i: "i < 0 + h div 2" and s: "chroma_done w dat pic i 0 s"
    have "\<exists>s'. for_range 0 (w div 2) (convert_chroma_cell w dat i) s = Inr s'
        \<and> chroma_done w dat pic i (0 + w div 2) s'"
      using s by (rule for_range_inv) (use i in \<open>auto intro!: convert_chroma_cell_ok [OF _ fit dat]\<close>)
    then show "\<exists>s'. for_range 0 (w div 2) (convert_chroma_cell w dat i) s = Inr s'
        \<and> chroma_done w dat pic (Suc i) 0 s'"
      by (auto dest: chroma_done_row)
  qed
  then show ?thesis by (simp add: convert_chroma_def)
qed

section \<open>The whole conversion\<close>

text \<open>A channel whose parameters have been set, and a picture of its size.\<close>

definition channel_ready :: "nat \<Rightarrow> nat \<Rightarrow> 'x video_channel \<Rightarrow> bool" where
  "channel_ready w h vc \<longleftrightarrow> width vc = int w \<and> height vc = int h \<and> y_byte_count vc = int (w * h)"

definition is_i420_of :: "nat \<Rightarrow> nat \<Rightarrow> buffer \<Rightarrow> picture \<Rightarrow> bool" where
  "is_i420_of w h dat pic \<longleftrightarrow> planes_fit w h pic \<and>
     (\<forall>i < w * h. buf_at (plane0 pic) i = yuyv_y dat i) \<and>
     (\<forall>i < h div 2. \<forall>j < w div 2.
        buf_at (plane1 pic) (i * (w div 2) + j) = yuyv_u w dat i j \<and>
        buf_at (plane2 pic) (i * (w div 2) + j) = yuyv_v w dat i j)"

lemma yuyv_to_i420_ok:
  assumes ch: "channel_ready w h vc" and fit: "planes_fit w h pic"
    and dat: "2 * (w * h) \<le> buf_cap dat"
  obtains pic' where "yuyv_to_i420 vc dat pic = Inr pic'" and "is_i420_of w h dat pic'"
proof -
  obtain p1 where p1: "convert_luma (w * h) dat pic = Inr p1" "plane1 p1 = plane1 pic"
    "plane2 p1 = plane2 pic" "buf_cap (plane0 p1) = buf_cap (plane0 pic)"
    "\<forall>i < w * h. buf_at (plane0 p1) i = yuyv_y dat i"
    using convert_luma_ok [of "w * h" pic dat] fit dat by (auto simp: planes_fit_def)
  then have fit1: "planes_fit w h p1" using fit by (simp add: planes_fit_def)
  obtain p2 where p2: "convert_chroma w h dat p1 = Inr p2" "chroma_done w dat p1 (h div 2) 0 p2"
    using convert_chroma_ok [OF fit1 dat] by auto
  show thesis
  proof (rule that)
    show "yuyv_to_i420 vc dat pic = Inr p2"
      using ch p1(1) p2(1) by (simp add: yuyv_to_i420_def channel_ready_def del: of_nat_mult)
    show "is_i420_of w h dat p2"
      using p1 p2(2) fit1 by (auto simp: is_i420_of_def chroma_done_def planes_fit_def)
  qed
qed

end
