(* ===== verification/Audio_Channel.thy ===== *)
theory Audio_Channel
  imports Media_Types
begin

text \<open>
  \<^verbatim>\<open>src/AudioChannel.cpp\<close>: the AAC side of the sender. libfaac is the parameter
  \<open>faac_lib\<close>; a call of \<open>faacEncEncode\<close> returns the new encoder state, the length it
  reports and the bytes it has stored in the output buffer.
\<close>

definition MPEG4 :: int where "MPEG4 = 0"
definition LOW :: int where "LOW = 2"
definition FAAC_INPUT_16BIT :: int where "FAAC_INPUT_16BIT = 1"

record faac_config =
  mpegVersion :: int
  aacObjectType :: int
  inputFormat :: int
  outputFormat :: int

record 'f faac_lib =
  faacEncOpen :: "int \<Rightarrow> int \<Rightarrow> 'f \<times> u32 \<times> u32"
  faacEncGetCurrentConfiguration :: "'f \<Rightarrow> faac_config"
  faacEncSetConfiguration :: "'f \<Rightarrow> faac_config \<Rightarrow> 'f"
  faacEncEncode :: "'f \<Rightarrow> buffer \<Rightarrow> u32 \<Rightarrow> u32 \<Rightarrow> 'f \<times> int \<times> u8 list"
  faacEncGetDecoderSpecificInfo :: "'f \<Rightarrow> u8 list"

record 'f audio_channel =
  channelCfg :: int
  inputSamples :: u32
  maxOutputBytes :: u32
  faacEncHandle :: "'f option"
  faacEncodeOutputBuffer :: "buffer option"

definition new_AudioChannel :: "'f audio_channel" where
  "new_AudioChannel = \<lparr>channelCfg = 0, inputSamples = 0, maxOutputBytes = 0,
     faacEncHandle = None, faacEncodeOutputBuffer = None\<rparr>"

text \<open>\<open>raw\<close> is the arbitrary contents of the new output buffer.\<close>

definition setAudioEncodeParams ::
    "'f faac_lib \<Rightarrow> (nat \<Rightarrow> u8) \<Rightarrow> int \<Rightarrow> int \<Rightarrow> 'f audio_channel \<Rightarrow> 'f audio_channel" where
  "setAudioEncodeParams lib raw rate cfg ac =
    (let (h, inp, maxo) = faacEncOpen lib rate cfg;
         conf = (faacEncGetCurrentConfiguration lib h)\<lparr>mpegVersion := MPEG4,
           aacObjectType := LOW, inputFormat := FAAC_INPUT_16BIT, outputFormat := 0\<rparr> in
     ac\<lparr>channelCfg := cfg, inputSamples := inp, maxOutputBytes := maxo,
        faacEncHandle := Some (faacEncSetConfiguration lib h conf),
        faacEncodeOutputBuffer := Some \<lparr>buf_cap = unat maxo, buf_at = raw\<rparr>\<rparr>)"

definition getInputSamples :: "'f audio_channel \<Rightarrow> int" where
  "getInputSamples ac = sint (inputSamples ac)"

definition audio_head :: "'f audio_channel \<Rightarrow> u8" where
  "audio_head ac = (if channelCfg ac = 1 then 0xAE else 0xAF)"

definition audio_packet ::
    "(rtmp_packet \<Rightarrow> int \<Rightarrow> rtmp_packet) \<Rightarrow> rtmp_packet \<Rightarrow> u8 \<Rightarrow> u8 \<Rightarrow> u8 list \<Rightarrow>
     rtmp_packet result" where
  "audio_packet alloc fresh tag kind d =
    (let size = 2 + int (length d); p = alloc fresh size in
     rbind (put_body p 0 [tag, kind]) (\<lambda>p.
     rbind (put_body p 2 d) (\<lambda>p.
       Inr (p\<lparr>m_hasAbsTimestamp := 0, m_nBodySize := word_of_int size,
              m_packetType := RTMP_PACKET_TYPE_AUDIO, m_nChannel := 0x11,
              m_headerType := RTMP_PACKET_SIZE_LARGE\<rparr>))))"

definition encodeAudioData ::
    "'f faac_lib \<Rightarrow> (rtmp_packet \<Rightarrow> int \<Rightarrow> rtmp_packet) \<Rightarrow> rtmp_packet \<Rightarrow>
     buffer \<Rightarrow> 'f audio_channel \<Rightarrow> ('f audio_channel \<times> rtmp_packet option) result" where
  "encodeAudioData lib alloc fresh dat ac =
    (case (faacEncHandle ac, faacEncodeOutputBuffer ac) of
       (Some h, Some ob) \<Rightarrow>
         (let (h', len, bytes) = faacEncEncode lib h dat (inputSamples ac) (maxOutputBytes ac) in
          rbind (wr ob 0 bytes) (\<lambda>ob'.
          let ac' = ac\<lparr>faacEncHandle := Some h', faacEncodeOutputBuffer := Some ob'\<rparr> in
          if len > 0 then
            rbind (rd_slice ob' 0 (nat len)) (\<lambda>d.
            rbind (audio_packet alloc fresh (audio_head ac') 0x01 d) (\<lambda>p. Inr (ac', Some p)))
          else Inr (ac', None)))
     | _ \<Rightarrow> Inl NullDeref)"

definition getAudioDecodeInfo ::
    "'f faac_lib \<Rightarrow> (rtmp_packet \<Rightarrow> int \<Rightarrow> rtmp_packet) \<Rightarrow> rtmp_packet \<Rightarrow>
     'f audio_channel \<Rightarrow> rtmp_packet result" where
  "getAudioDecodeInfo lib alloc fresh ac =
    (case faacEncHandle ac of None \<Rightarrow> Inl NullDeref | Some h \<Rightarrow>
       audio_packet alloc fresh (audio_head ac) 0x00 (faacEncGetDecoderSpecificInfo lib h))"

section \<open>The packet layout\<close>

lemma audio_packet_ok:
  assumes "rtmp_alloc_ok alloc"
  obtains p where "audio_packet alloc fresh tag kind d = Inr p" and "body_is p ([tag, kind] @ d)"
    and "m_packetType p = RTMP_PACKET_TYPE_AUDIO"
    and "m_nBodySize p = word_of_int (2 + int (length d))" and "m_nBytesRead p = 0"
proof -
  let ?p = "\<lambda>b. fresh\<lparr>m_nBytesRead := 0, m_body := Some b\<rparr>"
  let ?cap = "nat (2 + int (length d))"
  obtain b0 where a: "alloc fresh (2 + int (length d)) = ?p b0"
    and p0: "body_prefix (?p b0) ?cap []"
    by (rule alloc_prefix [OF assms, of "2 + int (length d)" fresh]) simp_all
  obtain b1 where s1: "put_body (?p b0) 0 [tag, kind] = Inr (?p b1)"
    and p1: "body_prefix (?p b1) ?cap ([] @ [tag, kind])"
    by (rule put_body_extend [OF p0, of 0 "[tag, kind]"]) simp_all
  obtain b2 where s2: "put_body (?p b1) 2 d = Inr (?p b2)"
    and p2: "body_prefix (?p b2) ?cap (([] @ [tag, kind]) @ d)"
    by (rule put_body_extend [OF p1, of 2 d]) simp_all
  let ?q = "?p b2\<lparr>m_hasAbsTimestamp := 0,
    m_nBodySize := word_of_int (2 + int (length d)), m_packetType := RTMP_PACKET_TYPE_AUDIO,
    m_nChannel := 0x11, m_headerType := RTMP_PACKET_SIZE_LARGE\<rparr>"
  have "audio_packet alloc fresh tag kind d = Inr ?q"
    using s1 s2 by (simp add: audio_packet_def Let_def a)
  moreover have "body_is ?q ([tag, kind] @ d)"
    using p2 by (simp add: body_is_def body_prefix_def nat_add_distrib)
  ultimately show thesis by (rule that) simp_all
qed

end
