(* ===== verification/Video_Capture.thy ===== *)
theory Video_Capture
  imports Media_Types
begin

text \<open>
  The packet handlers of \<^verbatim>\<open>src/VideoCapture.cpp\<close>: an RTMP packet in the FLV body
  layout is split into the NAL units or the AAC block it carries, each handed to a callback with a
  pointer into the body. A callback is an element of the result list: the kind and the bytes its
  pointer and length denote. The code never compares an index or a length with the size of the
  body, so every read is checked in the model and a read past the allocation is a fault.
  \<open>offset\<close> is a \<open>nat\<close>: it stays below \<open>2 * 32 * 65537 + 16\<close>, far from the
  32-bit wrap.
\<close>

section \<open>Sequence header: SPS and PPS sets\<close>

text \<open>
  One pass of either \<open>for\<close> loop: \<open>count\<close> entries of a 16-bit length and that many bytes.
\<close>

fun param_sets :: "nalu_type \<Rightarrow> buffer \<Rightarrow> nat \<Rightarrow> nat \<Rightarrow> media list \<Rightarrow> (nat \<times> media list) result" where
  "param_sets ty b 0 offset out = Inr (offset, out)"
| "param_sets ty b (Suc count) offset out =
     rbind (rd b offset) (\<lambda>num0. rbind (rd b (offset + 1)) (\<lambda>num1.
     let len = unat (get_be16 num0 num1) in
     rbind (rd_slice b (offset + 2) len) (\<lambda>d.
       param_sets ty b count (offset + 2 + len) (out @ [Nalu ty d]))))"

definition handle_sps_pps_packet :: "rtmp_packet \<Rightarrow> media list result" where
  "handle_sps_pps_packet p =
     rbind (body p) (\<lambda>b.
     rbind (rd b 10) (\<lambda>n.
     rbind (param_sets NALU_TYPE_SPS b (unat (n AND 0x1F)) 11 []) (\<lambda>(offset, out).
     rbind (rd b offset) (\<lambda>n.
     rbind (param_sets NALU_TYPE_PPS b (unat (n AND 0x1F)) (offset + 1) out) (\<lambda>(offset, out).
       Inr out)))))"

section \<open>One NAL unit\<close>

definition handle_nalu_frame_packet :: "rtmp_packet \<Rightarrow> media list result" where
  "handle_nalu_frame_packet p =
     rbind (body p) (\<lambda>b.
     rbind (rd b 5) (\<lambda>num0. rbind (rd b 6) (\<lambda>num1. rbind (rd b 7) (\<lambda>num2. rbind (rd b 8) (\<lambda>num3.
     let data_len = unat (get_be32 num0 num1 num2 num3) in
     rbind (rd b 0) (\<lambda>t.
     rbind (rd_slice b 9 data_len) (\<lambda>d.
       Inr [Nalu (if t = 0x17 then NALU_TYPE_IDR else NALU_TYPE_OTHER) d])))))))"

section \<open>Audio\<close>

definition handle_audio_packet :: "audio_type \<Rightarrow> rtmp_packet \<Rightarrow> media list result" where
  "handle_audio_packet kind p =
     rbind (body p) (\<lambda>b.
     let offset = 2; data_len = m_nBodySize p - 2 in
     rbind (rd b 0) (\<lambda>t.
     rbind (rd_slice b offset (unat data_len)) (\<lambda>d.
       Inr [Audio kind (if t = 0xAE then AUDIO_CHANNEL_MONO else AUDIO_CHANNEL_STEREO) d])))"

definition handle_audio_decode_info_packet :: "rtmp_packet \<Rightarrow> media list result" where
  "handle_audio_decode_info_packet p = handle_audio_packet AUDIO_INFO p"

definition handle_audio_data_packet :: "rtmp_packet \<Rightarrow> media list result" where
  "handle_audio_data_packet p = handle_audio_packet AUDIO_DATA p"

section \<open>Dispatch\<close>

definition handle_packet :: "rtmp_packet \<Rightarrow> media list result" where
  "handle_packet p =
     (if m_packetType p = RTMP_PACKET_TYPE_VIDEO then
        rbind (body p) (\<lambda>b. rbind (rd b 1) (\<lambda>s.
          if s = 0x00 then handle_sps_pps_packet p else handle_nalu_frame_packet p))
      else if m_packetType p = RTMP_PACKET_TYPE_AUDIO then
        rbind (body p) (\<lambda>b. rbind (rd b 1) (\<lambda>s.
          if s = 0x00 then handle_audio_decode_info_packet p else handle_audio_data_packet p))
      else Inr [])"

section \<open>What a well-formed body parses to\<close>

definition sets_ok :: "u8 list list \<Rightarrow> bool" where
  "sets_ok ds \<longleftrightarrow> (\<forall>d \<in> set ds. length d < 65536)"

lemma param_sets_holds:
  assumes "buf_holds b off (concat (map set_bytes ds) @ rest)" and "sets_ok ds"
  shows "param_sets ty b (length ds) off out =
    Inr (off + length (concat (map set_bytes ds)), out @ map (Nalu ty) ds)"
  using assms
proof (induction ds arbitrary: off out)
  case Nil
  then show ?case by simp
next
  case (Cons d ds)
  have d: "length d < 65536" and ds: "sets_ok ds" using Cons.prems(2) by (auto simp: sets_ok_def)
  have h: "buf_holds b off (set_bytes d)"
    and rest: "buf_holds b (off + length (set_bytes d)) (concat (map set_bytes ds) @ rest)"
    using Cons.prems(1) by (auto simp: buf_holds_append add.assoc)
  have r0: "rd b off = Inr (byte_of 8 (int (length d)))"
    and r1: "rd b (off + 1) = Inr (byte_of 0 (int (length d)))"
    and hd: "buf_holds b (off + 2) d"
    using h by (auto simp: set_bytes_def buf_holds_append buf_holds_Cons rd_def)
  have len: "unat (get_be16 (byte_of 8 (int (length d))) (byte_of 0 (int (length d)))) = length d"
    using d by (subst unat_get_be16) auto
  have next_off: "off + length (set_bytes d) = off + 2 + length d" by (simp add: set_bytes_def)
  show ?case
    using Cons.IH [OF rest ds, of "out @ [Nalu ty d]"] rd_slice_holds [OF hd]
    by (simp add: r0 [simplified] r1 [simplified] len Let_def next_off set_bytes_def [of d])
qed

lemma handle_sps_pps_holds:
  assumes b: "m_body p = Some b"
    and h: "buf_holds b 0 (h10 @ [n1] @ concat (map set_bytes ss) @ [n2] @ concat (map set_bytes ps) @ rest)"
    and "length h10 = 10" and n1: "unat (n1 AND 0x1F) = length ss"
    and n2: "unat (n2 AND 0x1F) = length ps" and "sets_ok ss" and "sets_ok ps"
  shows "handle_sps_pps_packet p =
    Inr (map (Nalu NALU_TYPE_SPS) ss @ map (Nalu NALU_TYPE_PPS) ps)"
proof -
  let ?o = "11 + length (concat (map set_bytes ss))"
  have r1: "rd b 10 = Inr n1" and s: "buf_holds b 11 (concat (map set_bytes ss) @
      [n2] @ concat (map set_bytes ps) @ rest)"
    and r2: "rd b ?o = Inr n2"
    and q: "buf_holds b (?o + 1) (concat (map set_bytes ps) @ rest)"
    using h assms(3) by (auto simp: buf_holds_append buf_holds_Cons rd_def)
  show ?thesis
    using param_sets_holds [OF s \<open>sets_ok ss\<close>, of NALU_TYPE_SPS "[]"] r1 r2
      param_sets_holds [OF q \<open>sets_ok ps\<close>, of NALU_TYPE_PPS "map (Nalu NALU_TYPE_SPS) ss"]
    by (simp add: handle_sps_pps_packet_def b n1 n2)
qed

lemma handle_nalu_frame_holds:
  assumes b: "m_body p = Some b" and len: "length d < 2 ^ 32"
    and h: "buf_holds b 0 ([t, x1, x2, x3, x4, byte_of 24 (int (length d)),
      byte_of 16 (int (length d)), byte_of 8 (int (length d)), byte_of 0 (int (length d))] @ d)"
  shows "handle_nalu_frame_packet p =
    Inr [Nalu (if t = 0x17 then NALU_TYPE_IDR else NALU_TYPE_OTHER) d]"
proof -
  let ?n = "int (length d)"
  have r: "rd b 0 = Inr t" "rd b 5 = Inr (byte_of 24 ?n)" "rd b 6 = Inr (byte_of 16 ?n)"
    "rd b 7 = Inr (byte_of 8 ?n)" "rd b 8 = Inr (byte_of 0 ?n)"
    and d: "buf_holds b 9 d"
    using h by (auto simp: buf_holds_append buf_holds_Cons rd_def eval_nat_numeral)
  have "unat (get_be32 (byte_of 24 ?n) (byte_of 16 ?n) (byte_of 8 ?n) (byte_of 0 ?n)) = length d"
    using len by (subst unat_get_be32) auto
  then show ?thesis
    using rd_slice_holds [OF d] by (simp add: handle_nalu_frame_packet_def b r Let_def)
qed

lemma handle_audio_holds:
  assumes b: "m_body p = Some b" and h: "buf_holds b 0 ([t, k] @ d)"
    and n: "m_nBodySize p = word_of_int (2 + int (length d))" and len: "2 + length d < 2 ^ 32"
  shows "handle_audio_packet kind p =
    Inr [Audio kind (if t = 0xAE then AUDIO_CHANNEL_MONO else AUDIO_CHANNEL_STEREO) d]"
proof -
  have "m_nBodySize p - 2 = word_of_int (int (length d))" using n by simp
  then have l: "unat (m_nBodySize p - 2) = length d"
    using len by (simp add: unsigned_of_nat take_bit_nat_eq_self)
  have r: "rd b 0 = Inr t" and d: "buf_holds b 2 d"
    using h by (auto simp: buf_holds_append buf_holds_Cons rd_def eval_nat_numeral)
  show ?thesis
    using rd_slice_holds [OF d] by (simp add: handle_audio_packet_def b r l)
qed

text \<open>The pull loop hands every ready packet to \<open>handle_packet\<close>.\<close>

fun handle_packets :: "rtmp_packet list \<Rightarrow> media list result" where
  "handle_packets [] = Inr []"
| "handle_packets (p # ps) =
     rbind (handle_packet p) (\<lambda>ms. rbind (handle_packets ps) (\<lambda>ms'. Inr (ms @ ms')))"

end
