(* ===== verification/Stream_Roundtrip.thy ===== *)
theory Stream_Roundtrip
  imports Yuyv Audio_Channel Video_Capture
begin

text \<open>
  The sender and the receiver together: what \<^verbatim>\<open>src/VideoChannel.cpp\<close> and
  \<^verbatim>\<open>src/AudioChannel.cpp\<close> pack, \<^verbatim>\<open>src/VideoCapture.cpp\<close> unpacks to the same NAL
  units and AAC blocks. \<open>stream_media\<close> is what becomes of the NAL units of one encoder call:
  an SPS is only kept, and sent together with each PPS that follows. Where every SPS is followed
  by its PPS, and there is no other PPS, that is every unit exactly once and in order
  (\<open>stream_media_paired\<close>).
\<close>

definition start_code :: "u8 list \<Rightarrow> bool" where
  "start_code sc \<longleftrightarrow> sc = [0, 0, 0, 1] \<or> sc = [0, 0, 1]"

definition nalu_kind :: "int \<Rightarrow> nalu_type" where
  "nalu_kind ty = (if ty = NAL_SLICE_IDR then NALU_TYPE_IDR else NALU_TYPE_OTHER)"

section \<open>One packet\<close>

lemma body_isE:
  assumes "body_is p bs"
  obtains b where "m_body p = Some b" "buf_cap b = length bs" "buf_holds b 0 bs"
  using assms by (auto simp: body_is_def)

lemma handle_frame_packet:
  assumes "body_is p (frame_layout ty d)" and "m_packetType p = RTMP_PACKET_TYPE_VIDEO"
    and "length d < 2 ^ 32"
  shows "handle_packet p = Inr [Nalu (nalu_kind ty) d]"
proof -
  from assms(1) obtain b where b: "m_body p = Some b" "buf_holds b 0 (frame_layout ty d)"
    by (rule body_isE)
  have "rd b 1 = Inr 1"
    using b(2) by (auto simp: frame_layout_def buf_holds_append buf_holds_Cons rd_def)
  then show ?thesis
    using handle_nalu_frame_holds [OF b(1) assms(3) b(2) [unfolded frame_layout_def]] assms(2) b(1)
    by (simp add: handle_packet_def nalu_kind_def)
qed

lemma handle_sps_pps:
  assumes "body_is p (sps_pps_layout sps pps)" and "m_packetType p = RTMP_PACKET_TYPE_VIDEO"
    and "length sps < 65536" and "length pps < 65536"
  shows "handle_packet p = Inr [Nalu NALU_TYPE_SPS sps, Nalu NALU_TYPE_PPS pps]"
proof -
  let ?h = "[0x17, 0x00, 0x00, 0x00, 0x00, 0x01, sps ! 1, sps ! 2, sps ! 3, 0xFF]"
  from assms(1) obtain b where b: "m_body p = Some b" "buf_holds b 0 (sps_pps_layout sps pps)"
    by (rule body_isE)
  have "buf_holds b 0
      (?h @ [0xE1] @ concat (map set_bytes [sps]) @ [0x01] @ concat (map set_bytes [pps]) @ [])"
    using b(2) by (simp add: sps_pps_layout_def)
  from handle_sps_pps_holds [OF b(1) this] have "handle_sps_pps_packet p =
      Inr [Nalu NALU_TYPE_SPS sps, Nalu NALU_TYPE_PPS pps]"
    using assms(3,4) by (simp add: sets_ok_def)
  moreover have "rd b 1 = Inr 0"
    using b(2) by (auto simp: sps_pps_layout_def buf_holds_Cons rd_def)
  ultimately show ?thesis using assms(2) b(1) by (simp add: handle_packet_def)
qed

text \<open>C17: a frame NAL unit that the sender packs, with either start code, is unpacked by the receiver
  to one NAL unit with the same bytes after the start code, marked as an I-frame exactly if the
  encoder marked it so.
\<close>

theorem frame_roundtrip:
  assumes "rtmp_alloc_ok alloc" and "rtmp_reset_ok reset"
    and "buf_holds pl 0 (sc @ d)" and "start_code sc" and "length (sc @ d) < 2 ^ 31"
  shows "\<exists>p. sendFrameToRtmpServer alloc reset fresh ty pl (int (length (sc @ d))) = Inr p
    \<and> handle_packet p = Inr [Nalu (nalu_kind ty) d]"
proof -
  obtain p where "sendFrameToRtmpServer alloc reset fresh ty pl (int (length (sc @ d))) = Inr p"
    and "body_is p (frame_layout ty d)" and "m_packetType p = RTMP_PACKET_TYPE_VIDEO"
    by (rule sendFrame_ok [OF assms(1-3)]) (use assms(4) in \<open>auto simp: start_code_def\<close>)
  then show ?thesis using assms(5) by (auto intro: handle_frame_packet)
qed

theorem frame_roundtrip_witness:
  "\<forall>fresh. \<exists>p. sendFrameToRtmpServer plain_alloc plain_reset fresh NAL_SLICE_IDR
        (buf_of [0, 0, 0, 1, 0x65, 0x88]) 6 = Inr p
    \<and> handle_packet p = Inr [Nalu NALU_TYPE_IDR [0x65, 0x88]]"
  (is "\<forall>fresh. ?P fresh")
proof
  fix fresh
  show "?P fresh"
    using frame_roundtrip [OF plain_alloc_ok plain_reset_ok,
        of "buf_of [0, 0, 0, 1, 0x65, 0x88]" "[0, 0, 0, 1]" "[0x65, 0x88]" fresh NAL_SLICE_IDR]
    by (simp add: start_code_def nalu_kind_def)
qed

section \<open>One encoder call\<close>

text \<open>
  The NAL units of an encoder call as pairs of a type and the bytes after the start code. The
  encoder writes a four-byte start code before the parameter sets; the parameter sets fit the
  100-byte arrays; a PPS comes after an SPS.
\<close>

type_synonym nal_unit = "int \<times> u8 list"

definition nal_is :: "nal \<Rightarrow> nal_unit \<Rightarrow> bool" where
  "nal_is n u \<longleftrightarrow> i_type n = fst u \<and>
     (\<exists>sc. start_code sc \<and> (fst u \<in> {NAL_SPS, NAL_PPS} \<longrightarrow> length sc = 4) \<and>
        buf_holds (p_payload n) 0 (sc @ snd u) \<and> i_payload n = int (length (sc @ snd u)))"

fun units_ok :: "bool \<Rightarrow> nal_unit list \<Rightarrow> bool" where
  "units_ok seen [] \<longleftrightarrow> True"
| "units_ok seen ((ty, d) # us) \<longleftrightarrow>
     (if ty = NAL_SPS then 4 \<le> length d \<and> length d \<le> 100 \<and> units_ok True us
      else if ty = NAL_PPS then seen \<and> length d \<le> 100 \<and> units_ok seen us
      else length d < 2 ^ 31 - 4 \<and> units_ok seen us)"

fun stream_media :: "u8 list \<Rightarrow> nal_unit list \<Rightarrow> media list" where
  "stream_media sps [] = []"
| "stream_media sps ((ty, d) # us) =
     (if ty = NAL_SPS then stream_media d us
      else if ty = NAL_PPS then
        Nalu NALU_TYPE_SPS sps # Nalu NALU_TYPE_PPS d # stream_media sps us
      else Nalu (nalu_kind ty) d # stream_media sps us)"

lemma handle_packets_append:
  "handle_packets (ps @ [p]) =
     rbind (handle_packets ps) (\<lambda>ms. rbind (handle_packet p) (\<lambda>ms'. Inr (ms @ ms')))"
  by (induction ps) (auto simp: rbind_assoc)

definition locals_hold :: "bool \<Rightarrow> u8 list \<Rightarrow> nal_locals \<Rightarrow> bool" where
  "locals_hold seen sps l \<longleftrightarrow> buf_cap (l_sps l) = 100 \<and> buf_cap (l_pps l) = 100 \<and>
     (seen \<longrightarrow> l_sps_len l = Some (int (length sps)) \<and> buf_holds (l_sps l) 0 sps
        \<and> 4 \<le> length sps \<and> length sps \<le> 100)"

lemma memcpy_payload:
  assumes "nal_is n (ty, d)" and "ty \<in> {NAL_SPS, NAL_PPS}"
  shows "memcpy_src (p_payload n) 4 (i_payload n - 4) = Inr d" "i_payload n - 4 = int (length d)"
proof -
  from assms obtain sc where "length sc = 4" "buf_holds (p_payload n) 0 (sc @ d)"
    "i_payload n = int (length (sc @ d))" by (auto simp: nal_is_def)
  then show "i_payload n - 4 = int (length d)" "memcpy_src (p_payload n) 4 (i_payload n - 4) = Inr d"
    by (auto simp: buf_holds_append memcpy_src_holds)
qed

lemma nal_step_sps:
  assumes "nal_is n (NAL_SPS, d)" and "4 \<le> length d" "length d \<le> 100" and "locals_hold seen sps l"
  obtains l' where "nal_step alloc reset fresh n (l, out) = Inr (l', out)" and "locals_hold True d l'"
proof -
  have ty: "i_type n = NAL_SPS" using assms(1) by (simp add: nal_is_def)
  obtain b where w: "wr (l_sps l) 0 d = Inr b"
    using wr_ok [of 0 d "l_sps l"] assms(3,4) by (auto simp: locals_hold_def)
  show thesis
  proof (rule that)
    show "nal_step alloc reset fresh n (l, out) =
        Inr (l\<lparr>l_sps := b, l_sps_len := Some (int (length d))\<rparr>, out)"
      using memcpy_payload [OF assms(1)] ty w by (simp add: nal_step_def)
    show "locals_hold True d (l\<lparr>l_sps := b, l_sps_len := Some (int (length d))\<rparr>)"
      using assms wr_cap [OF w] wr_holds [OF w] by (auto simp: locals_hold_def)
  qed
qed

lemma nal_step_pps:
  assumes "nal_is n (NAL_PPS, d)" and "length d \<le> 100" and l: "locals_hold True sps l"
    and alloc: "rtmp_alloc_ok alloc"
  obtains l' p where "nal_step alloc reset fresh n (l, out) = Inr (l', out @ [p])"
    and "locals_hold True sps l'"
    and "handle_packet p = Inr [Nalu NALU_TYPE_SPS sps, Nalu NALU_TYPE_PPS d]"
proof -
  have ty: "i_type n = NAL_PPS" and ne: "NAL_PPS \<noteq> NAL_SPS"
    using assms(1) by (auto simp: nal_is_def NAL_PPS_def NAL_SPS_def)
  obtain b where w: "wr (l_pps l) 0 d = Inr b"
    using wr_ok [of 0 d "l_pps l"] assms(2,3) by (auto simp: locals_hold_def)
  have s: "buf_holds (l_sps l) 0 sps" "4 \<le> length sps" "length sps \<le> 100"
    "l_sps_len l = Some (int (length sps))"
    using l by (auto simp: locals_hold_def)
  obtain p where p: "sendSpsPpsToRtmpServer alloc fresh (l_sps l) (int (length sps)) b
      (int (length d)) = Inr p" "body_is p (sps_pps_layout sps d)"
    "m_packetType p = RTMP_PACKET_TYPE_VIDEO"
    by (rule sendSpsPps_ok [OF alloc s(1,2) wr_holds [OF w]])
  show thesis
  proof (rule that)
    show "nal_step alloc reset fresh n (l, out) =
        Inr (l\<lparr>l_pps := b, l_pps_len := Some (int (length d))\<rparr>, out @ [p])"
      using memcpy_payload [OF assms(1)] ty ne w s(4) p(1)
      by (simp add: nal_step_def the_int_def)
    show "locals_hold True sps (l\<lparr>l_pps := b, l_pps_len := Some (int (length d))\<rparr>)"
      using l wr_cap [OF w] by (auto simp: locals_hold_def)
    show "handle_packet p = Inr [Nalu NALU_TYPE_SPS sps, Nalu NALU_TYPE_PPS d]"
      using p(2,3) s(3) assms(2) by (intro handle_sps_pps) auto
  qed
qed

lemma nal_step_frame:
  assumes "nal_is n (ty, d)" and "ty \<notin> {NAL_SPS, NAL_PPS}" and "length d < 2 ^ 31 - 4"
    and "rtmp_alloc_ok alloc" and "rtmp_reset_ok reset"
  obtains p where "nal_step alloc reset fresh n (l, out) = Inr (l, out @ [p])"
    and "handle_packet p = Inr [Nalu (nalu_kind ty) d]"
proof -
  from assms(1) obtain sc where sc: "start_code sc" "buf_holds (p_payload n) 0 (sc @ d)"
    "i_payload n = int (length (sc @ d))" "i_type n = ty" by (auto simp: nal_is_def)
  obtain p where p: "sendFrameToRtmpServer alloc reset fresh ty (p_payload n)
      (int (length (sc @ d))) = Inr p" "body_is p (frame_layout ty d)"
      "m_packetType p = RTMP_PACKET_TYPE_VIDEO"
    by (rule sendFrame_ok [OF assms(4,5) sc(2)]) (use sc(1) in \<open>auto simp: start_code_def\<close>)
  show thesis
  proof (rule that)
    show "nal_step alloc reset fresh n (l, out) = Inr (l, out @ [p])"
      using p(1) sc assms(2) by (simp add: nal_step_def)
    show "handle_packet p = Inr [Nalu (nalu_kind ty) d]"
      using p(2,3) assms(3) by (intro handle_frame_packet) auto
  qed
qed

lemma nal_loop_stream:
  assumes "list_all2 nal_is ns us" and "units_ok seen us" and "locals_hold seen sps l"
    and "handle_packets out = Inr ms"
    and alloc: "rtmp_alloc_ok alloc" and reset: "rtmp_reset_ok reset"
  shows "\<exists>l' out'. nal_loop alloc reset fresh ns (l, out) = Inr (l', out')
    \<and> handle_packets out' = Inr (ms @ stream_media sps us)"
  using assms(1-4)
proof (induction ns us arbitrary: seen sps l out ms rule: list_all2_induct)
  case Nil
  then show ?case by simp
next
  case (Cons n ns u us)
  obtain ty d where u: "u = (ty, d)" by (cases u)
  note n = Cons.hyps(1) [unfolded u]
  consider "ty = NAL_SPS" | "ty = NAL_PPS" "ty \<noteq> NAL_SPS" | "ty \<notin> {NAL_SPS, NAL_PPS}" by auto
  then show ?case
  proof cases
    case 1
    obtain l' where "nal_step alloc reset fresh n (l, out) = Inr (l', out)" "locals_hold True d l'"
      by (rule nal_step_sps [of n d seen sps l alloc reset fresh out])
        (use n 1 Cons.prems u in auto)
    with Cons.IH [of True d l' out ms] Cons.prems u 1 show ?thesis by auto
  next
    case 2
    have seen: "seen" using Cons.prems(1) u 2 by simp
    obtain l' p where st: "nal_step alloc reset fresh n (l, out) = Inr (l', out @ [p])"
      and l': "locals_hold True sps l'"
      and p: "handle_packet p = Inr [Nalu NALU_TYPE_SPS sps, Nalu NALU_TYPE_PPS d]"
      by (rule nal_step_pps [of n d sps l alloc reset fresh out])
        (use n 2 Cons.prems u seen alloc in auto)
    have "handle_packets (out @ [p]) = Inr (ms @ [Nalu NALU_TYPE_SPS sps, Nalu NALU_TYPE_PPS d])"
      using Cons.prems(3) p by (simp add: handle_packets_append)
    from Cons.IH [OF _ l' this] Cons.prems u 2 seen st show ?thesis by auto
  next
    case 3
    obtain p where st: "nal_step alloc reset fresh n (l, out) = Inr (l, out @ [p])"
      and p: "handle_packet p = Inr [Nalu (nalu_kind ty) d]"
      by (rule nal_step_frame [of n ty d alloc reset fresh l out])
        (use n 3 Cons.prems u alloc reset in auto)
    have "handle_packets (out @ [p]) = Inr (ms @ [Nalu (nalu_kind ty) d])"
      using Cons.prems(3) p by (simp add: handle_packets_append)
    from Cons.IH [OF _ Cons.prems(2) this] Cons.prems(1) u 3 st show ?thesis by auto
  qed
qed

text \<open>
  What the code needs of the units of a call: every SPS is followed at once by a PPS and there is
  no other PPS, the parameter sets fit the 100-byte arrays, and the length of a frame unit fits an
  \<open>int\<close>. Of other lists the code loses a unit (an SPS without a PPS) or faults (a longer parameter
  set, a PPS without an SPS before it).
\<close>

fun paired :: "nal_unit list \<Rightarrow> bool" where
  "paired [] \<longleftrightarrow> True"
| "paired [(ty, d)] \<longleftrightarrow> ty \<noteq> NAL_SPS \<and> ty \<noteq> NAL_PPS \<and> length d < 2 ^ 31 - 4"
| "paired ((ty, d) # (ty', d') # us) \<longleftrightarrow>
     (if ty = NAL_SPS then ty' = NAL_PPS \<and> 4 \<le> length d \<and> length d \<le> 100 \<and> length d' \<le> 100 \<and> paired us
      else ty \<noteq> NAL_PPS \<and> length d < 2 ^ 31 - 4 \<and> paired ((ty', d') # us))"

definition unit_kind :: "int \<Rightarrow> nalu_type" where
  "unit_kind ty = (if ty = NAL_SPS then NALU_TYPE_SPS else if ty = NAL_PPS then NALU_TYPE_PPS else nalu_kind ty)"

lemma units_ok_paired: "paired us \<Longrightarrow> units_ok seen us"
proof (induction us arbitrary: seen rule: paired.induct)
  case (3 ty d ty' d' us)
  then show ?case
  proof (cases "ty = NAL_SPS")
    case False
    then have p: "ty \<noteq> NAL_PPS" "length d < 2 ^ 31 - 4" "paired ((ty', d') # us)"
      using "3.prems" by simp_all
    from "3.IH"(2) [OF False p(3)] have "units_ok seen ((ty', d') # us)" .
    with p False show ?thesis by (simp only: units_ok.simps(2) [of seen ty] if_False simp_thms)
  qed (auto simp: NAL_SPS_def NAL_PPS_def)
qed auto

lemma stream_media_paired:
  "paired us \<Longrightarrow> stream_media sps us = map (\<lambda>(ty, d). Nalu (unit_kind ty) d) us"
proof (induction us arbitrary: sps rule: paired.induct)
  case (3 ty d ty' d' us)
  then show ?case
  proof (cases "ty = NAL_SPS")
    case False
    then have p: "ty \<noteq> NAL_PPS" "paired ((ty', d') # us)"
      using "3.prems" by simp_all
    from "3.IH"(2) [OF False p(2)]
    have "stream_media sps ((ty', d') # us) = map (\<lambda>(ty, d). Nalu (unit_kind ty) d) ((ty', d') # us)" .
    with p False show ?thesis
      by (simp only: stream_media.simps(2) [of sps ty] if_False list.map(2) [of _ "(ty, d)"] unit_kind_def prod.case)
  qed (auto simp: unit_kind_def NAL_SPS_def NAL_PPS_def)
qed (auto simp: unit_kind_def)

text \<open>C1: a call of \<open>encodeData\<close> on a camera frame whose encoder answers with slices and with parameter
  sets in pairs (each SPS followed at once by a PPS, of at most 100 bytes each) does not fault: the frame
  is converted to the I420 picture of its samples, and the packets handed to the callback unpack to
  exactly the NAL units the encoder made of that picture, every one once and in their order, each with
  its bytes after the start code and its kind; the channel keeps the picture and the encoder's new state.\<close>

theorem encodeData_stream:
  assumes "rtmp_alloc_ok alloc" and "rtmp_reset_ok reset"
    and ch: "channel_ready w h vc" and pic: "x264_encode_picture vc = Some pic" "planes_fit w h pic"
    and dat: "2 * (w * h) \<le> buf_cap dat" and codec: "x264_video_codec vc = Some c"
    and enc: "\<And>pic'. is_i420_of w h dat pic' \<Longrightarrow>
      \<exists>c' ns. encoder_encode lib c pic' = (c', ns) \<and> list_all2 nal_is ns us"
    and us: "paired us"
  shows "\<exists>pic' c' ns out.
    is_i420_of w h dat pic' \<and> encoder_encode lib c pic' = (c', ns)
    \<and> encodeData lib alloc reset fresh stack dat vc =
        Inr (vc\<lparr>x264_encode_picture := Some pic', x264_video_codec := Some c'\<rparr>, out)
    \<and> handle_packets out = Inr (map (\<lambda>(ty, d). Nalu (unit_kind ty) d) us)"
proof -
  obtain pic' where y: "yuyv_to_i420 vc dat pic = Inr pic'" and i: "is_i420_of w h dat pic'"
    using yuyv_to_i420_ok [OF ch pic(2) dat] by blast
  obtain c' ns where e: "encoder_encode lib c pic' = (c', ns)" "list_all2 nal_is ns us"
    using enc [OF i] by blast
  let ?l = "\<lparr>l_sps = \<lparr>buf_cap = 100, buf_at = stack\<rparr>, l_sps_len = None,
    l_pps = \<lparr>buf_cap = 100, buf_at = stack\<rparr>, l_pps_len = None\<rparr>"
  have "locals_hold False [] ?l" by (simp add: locals_hold_def)
  from nal_loop_stream [OF e(2) units_ok_paired [OF us] this, of "[]" "[]" alloc reset fresh] assms(1,2)
  obtain l' out where "nal_loop alloc reset fresh ns (?l, []) = Inr (l', out)"
    and "handle_packets out = Inr (map (\<lambda>(ty, d). Nalu (unit_kind ty) d) us)"
    by (auto simp: stream_media_paired [OF us])
  with y e(1) i pic(1) codec show ?thesis by (auto simp: encodeData_def)
qed

text \<open>An encoder that answers every picture with one SPS, one PPS and one I-frame slice.\<close>

definition demo_nals :: "nal list" where
  "demo_nals =
     [\<lparr>i_type = 7, i_payload = 8, p_payload = buf_of [0, 0, 0, 1, 0x67, 0x42, 0x00, 0x1E]\<rparr>,
      \<lparr>i_type = 8, i_payload = 6, p_payload = buf_of [0, 0, 0, 1, 0x68, 0xCE]\<rparr>,
      \<lparr>i_type = 5, i_payload = 5, p_payload = buf_of [0, 0, 1, 0x65, 0x88]\<rparr>]"

definition demo_units :: "nal_unit list" where
  "demo_units = [(7, [0x67, 0x42, 0x00, 0x1E]), (8, [0x68, 0xCE]), (5, [0x65, 0x88])]"

lemma nal_isI:
  assumes "i_type n = fst u" and "start_code sc"
    and "fst u \<in> {NAL_SPS, NAL_PPS} \<Longrightarrow> length sc = 4"
    and "p_payload n = buf_of (sc @ snd u)" and "i_payload n = int (length (sc @ snd u))"
  shows "nal_is n u"
  unfolding nal_is_def using assms by (intro conjI exI [of _ sc]) auto

lemma demo_nals_units: "list_all2 nal_is demo_nals demo_units"
proof -
  have "nal_is \<lparr>i_type = 7, i_payload = 8, p_payload = buf_of [0, 0, 0, 1, 0x67, 0x42, 0x00, 0x1E]\<rparr>
      (7, [0x67, 0x42, 0x00, 0x1E])"
    by (rule nal_isI [where sc = "[0, 0, 0, 1]"]) (simp_all add: start_code_def)
  moreover have "nal_is \<lparr>i_type = 8, i_payload = 6, p_payload = buf_of [0, 0, 0, 1, 0x68, 0xCE]\<rparr>
      (8, [0x68, 0xCE])"
    by (rule nal_isI [where sc = "[0, 0, 0, 1]"]) (simp_all add: start_code_def)
  moreover have "nal_is \<lparr>i_type = 5, i_payload = 5, p_payload = buf_of [0, 0, 1, 0x65, 0x88]\<rparr>
      (5, [0x65, 0x88])"
    by (rule nal_isI [where sc = "[0, 0, 1]"]) (simp_all add: start_code_def NAL_SPS_def NAL_PPS_def)
  ultimately show ?thesis by (simp add: demo_nals_def demo_units_def)
qed

definition demo_x264 :: "x264_param \<Rightarrow> unit x264_lib" where
  "demo_x264 par = \<lparr>default_preset = par,
     picture_alloc = (\<lambda>_ w h. \<lparr>plane0 = \<lparr>buf_cap = nat (w * h), buf_at = (\<lambda>_. 0)\<rparr>,
       plane1 = \<lparr>buf_cap = nat (w div 2) * nat (h div 2), buf_at = (\<lambda>_. 0)\<rparr>,
       plane2 = \<lparr>buf_cap = nat (w div 2) * nat (h div 2), buf_at = (\<lambda>_. 0)\<rparr>\<rparr>),
     encoder_open = (\<lambda>_. Some ()), encoder_encode = (\<lambda>_ _. ((), demo_nals)),
     scale_1_2 = (\<lambda>n. n * 12 div 10)\<rparr>"

theorem encodeData_stream_witness:
  "\<forall>par fresh stack raw. \<exists>vc out. encodeData (demo_x264 par) plain_alloc plain_reset fresh stack
      (buf_of (replicate 8 0x80)) (setVideoEncoderParams (demo_x264 par) 2 2 15 4000000 raw)
      = Inr (vc, out)
    \<and> handle_packets out = Inr [Nalu NALU_TYPE_SPS [0x67, 0x42, 0x00, 0x1E],
        Nalu NALU_TYPE_PPS [0x68, 0xCE], Nalu NALU_TYPE_IDR [0x65, 0x88]]"
proof (intro allI)
  fix par fresh stack raw
  let ?vc = "setVideoEncoderParams (demo_x264 par) 2 2 15 4000000 raw"
  let ?pic = "picture_alloc (demo_x264 par) X264_CSP_I420 2 2"
  have ch: "channel_ready 2 2 ?vc" by (simp add: channel_ready_def setVideoEncoderParams_def)
  have pic: "x264_encode_picture ?vc = Some ?pic" and fit: "planes_fit 2 2 ?pic"
    and codec: "x264_video_codec ?vc = Some ()"
    by (simp_all add: setVideoEncoderParams_def planes_fit_def demo_x264_def)
  have dat: "2 * (2 * 2) \<le> buf_cap (buf_of (replicate 8 (0x80 :: u8)))" by simp
  have enc: "\<exists>c' ns. encoder_encode (demo_x264 par) () pic' = (c', ns)
      \<and> list_all2 nal_is ns demo_units" for pic'
    using demo_nals_units by (simp add: demo_x264_def)
  have us: "paired demo_units" by (simp add: demo_units_def NAL_SPS_def NAL_PPS_def)
  have "map (\<lambda>(ty, d). Nalu (unit_kind ty) d) demo_units = [Nalu NALU_TYPE_SPS [0x67, 0x42, 0x00, 0x1E],
        Nalu NALU_TYPE_PPS [0x68, 0xCE], Nalu NALU_TYPE_IDR [0x65, 0x88]]"
    by (simp add: demo_units_def unit_kind_def NAL_SPS_def NAL_PPS_def nalu_kind_def NAL_SLICE_IDR_def)
  then show "\<exists>vc out. encodeData (demo_x264 par) plain_alloc plain_reset fresh stack
        (buf_of (replicate 8 0x80)) ?vc = Inr (vc, out)
      \<and> handle_packets out = Inr [Nalu NALU_TYPE_SPS [0x67, 0x42, 0x00, 0x1E],
          Nalu NALU_TYPE_PPS [0x68, 0xCE], Nalu NALU_TYPE_IDR [0x65, 0x88]]"
    using encodeData_stream [OF plain_alloc_ok plain_reset_ok ch pic fit dat codec enc us,
        of fresh stack] by auto
qed

section \<open>Audio\<close>

definition channel_kind :: "'f audio_channel \<Rightarrow> audio_channel_type" where
  "channel_kind ac = (if channelCfg ac = 1 then AUDIO_CHANNEL_MONO else AUDIO_CHANNEL_STEREO)"

lemma handle_audio:
  assumes "body_is p ([audio_head ac, k] @ d)" and "m_packetType p = RTMP_PACKET_TYPE_AUDIO"
    and "m_nBodySize p = word_of_int (2 + int (length d))" and "2 + length d < 2 ^ 31"
  shows "handle_packet p =
    Inr [Audio (if k = 0 then AUDIO_INFO else AUDIO_DATA) (channel_kind ac) d]"
proof -
  from assms(1) obtain b where b: "m_body p = Some b" "buf_holds b 0 ([audio_head ac, k] @ d)"
    by (rule body_isE)
  have "rd b 1 = Inr k" using b(2) by (auto simp: buf_holds_append buf_holds_Cons rd_def)
  moreover have "2 + length d < 2 ^ 32" using assms(4) by simp
  ultimately show ?thesis
    using handle_audio_holds [OF b assms(3), of AUDIO_INFO]
      handle_audio_holds [OF b assms(3), of AUDIO_DATA] assms(2) b(1)
    by (simp add: handle_packet_def handle_audio_decode_info_packet_def
        handle_audio_data_packet_def channel_kind_def audio_head_def RTMP_PACKET_TYPE_AUDIO_def
        RTMP_PACKET_TYPE_VIDEO_def)
qed

text \<open>C18: when libfaac produces a block, the packet of \<open>encodeAudioData\<close> unpacks to one data block
  with exactly those bytes and the channel layout of the encoder; when it produces none, no packet
  is made.
\<close>

theorem audio_data_roundtrip:
  assumes "rtmp_alloc_ok alloc" and "faacEncHandle ac = Some h"
    and "faacEncodeOutputBuffer ac = Some ob"
    and enc: "faacEncEncode lib h dat (inputSamples ac) (maxOutputBytes ac) =
      (h', int (length bytes), bytes)"
    and "length bytes \<le> buf_cap ob" and "2 + length bytes < 2 ^ 31"
  shows "\<exists>ac' pk. encodeAudioData lib alloc fresh dat ac = Inr (ac', pk)
    \<and> faacEncHandle ac' = Some h' \<and> channelCfg ac' = channelCfg ac
    \<and> (if bytes = [] then pk = None
       else \<exists>p. pk = Some p \<and> handle_packet p = Inr [Audio AUDIO_DATA (channel_kind ac) bytes])"
proof -
  obtain ob' where w: "wr ob 0 bytes = Inr ob'" using wr_ok [of 0 bytes ob] assms(5) by auto
  let ?ac = "ac\<lparr>faacEncHandle := Some h', faacEncodeOutputBuffer := Some ob'\<rparr>"
  have sl: "rd_slice ob' 0 (length bytes) = Inr bytes" by (rule rd_slice_holds [OF wr_holds [OF w]])
  have hd: "audio_head ?ac = audio_head ac" by (simp add: audio_head_def)
  obtain p where p: "audio_packet alloc fresh (audio_head ac) 1 bytes = Inr p"
    "body_is p ([audio_head ac, 1] @ bytes)" "m_packetType p = RTMP_PACKET_TYPE_AUDIO"
    "m_nBodySize p = word_of_int (2 + int (length bytes))"
    by (rule audio_packet_ok [OF assms(1)])
  have "handle_packet p = Inr [Audio AUDIO_DATA (channel_kind ac) bytes]"
    using handle_audio [OF p(2-4) assms(6)] by simp
  moreover have "encodeAudioData lib alloc fresh dat ac =
      Inr (?ac, if bytes = [] then None else Some p)"
    using assms(2,3) enc w sl p(1) hd by (simp add: encodeAudioData_def)
  ultimately show ?thesis
    by (intro exI [of _ ?ac] exI [of _ "if bytes = [] then None else Some p"]) simp
qed

theorem audio_data_roundtrip_witness:
  "\<forall>conf fresh raw. \<exists>ac' p. encodeAudioData \<lparr>faacEncOpen = (\<lambda>_ _. ((), 1024, 8)),
        faacEncGetCurrentConfiguration = (\<lambda>_. conf), faacEncSetConfiguration = (\<lambda>h _. h),
        faacEncEncode = (\<lambda>h _ _ _. (h, 2, [0x21, 0x10])),
        faacEncGetDecoderSpecificInfo = (\<lambda>_. [0x12, 0x10])\<rparr>
      plain_alloc fresh (buf_of [])
      \<lparr>channelCfg = 1, inputSamples = 1024, maxOutputBytes = 8, faacEncHandle = Some (),
        faacEncodeOutputBuffer = Some \<lparr>buf_cap = 8, buf_at = raw\<rparr>\<rparr> = Inr (ac', Some p)
    \<and> handle_packet p = Inr [Audio AUDIO_DATA AUDIO_CHANNEL_MONO [0x21, 0x10]]"
proof (intro allI)
  fix conf fresh raw
  show "\<exists>ac' p. encodeAudioData \<lparr>faacEncOpen = (\<lambda>_ _. ((), 1024, 8)),
        faacEncGetCurrentConfiguration = (\<lambda>_. conf), faacEncSetConfiguration = (\<lambda>h _. h),
        faacEncEncode = (\<lambda>h _ _ _. (h, 2, [0x21, 0x10])),
        faacEncGetDecoderSpecificInfo = (\<lambda>_. [0x12, 0x10])\<rparr>
      plain_alloc fresh (buf_of [])
      \<lparr>channelCfg = 1, inputSamples = 1024, maxOutputBytes = 8, faacEncHandle = Some (),
        faacEncodeOutputBuffer = Some \<lparr>buf_cap = 8, buf_at = raw\<rparr>\<rparr> = Inr (ac', Some p)
    \<and> handle_packet p = Inr [Audio AUDIO_DATA AUDIO_CHANNEL_MONO [0x21, 0x10]]"
    (is "\<exists>ac' p. encodeAudioData ?lib _ _ _ ?ac = _ \<and> _")
    using audio_data_roundtrip [OF plain_alloc_ok, of ?ac "()" "\<lparr>buf_cap = 8, buf_at = raw\<rparr>" ?lib
        "buf_of []" "()" "[0x21, 0x10]" fresh]
    by (auto simp: channel_kind_def)
qed

text \<open>The packet of \<open>getAudioDecodeInfo\<close> unpacks to one audio-info block that carries libfaac's
  decoder-specific configuration unchanged.
\<close>

theorem audio_info_roundtrip:
  assumes "rtmp_alloc_ok alloc" and "faacEncHandle ac = Some h"
    and "2 + length (faacEncGetDecoderSpecificInfo lib h) < 2 ^ 31"
  shows "\<exists>p. getAudioDecodeInfo lib alloc fresh ac = Inr p \<and>
    handle_packet p = Inr [Audio AUDIO_INFO (channel_kind ac) (faacEncGetDecoderSpecificInfo lib h)]"
proof -
  let ?d = "faacEncGetDecoderSpecificInfo lib h"
  obtain p where p: "audio_packet alloc fresh (audio_head ac) 0 ?d = Inr p"
    "body_is p ([audio_head ac, 0] @ ?d)" "m_packetType p = RTMP_PACKET_TYPE_AUDIO"
    "m_nBodySize p = word_of_int (2 + int (length ?d))"
    by (rule audio_packet_ok [OF assms(1)])
  then show ?thesis
    using handle_audio [OF p(2-4) assms(3)] assms(2) by (auto simp: getAudioDecodeInfo_def)
qed

theorem audio_info_roundtrip_witness:
  "\<forall>conf fresh. \<exists>p. getAudioDecodeInfo \<lparr>faacEncOpen = (\<lambda>_ _. ((), 1024, 8)),
        faacEncGetCurrentConfiguration = (\<lambda>_. conf), faacEncSetConfiguration = (\<lambda>h _. h),
        faacEncEncode = (\<lambda>h _ _ _. (h, 0, [])),
        faacEncGetDecoderSpecificInfo = (\<lambda>_. [0x12, 0x10])\<rparr> plain_alloc fresh
      \<lparr>channelCfg = 2, inputSamples = 1024, maxOutputBytes = 8, faacEncHandle = Some (),
        faacEncodeOutputBuffer = None\<rparr> = Inr p
    \<and> handle_packet p = Inr [Audio AUDIO_INFO AUDIO_CHANNEL_STEREO [0x12, 0x10]]"
proof (intro allI)
  fix conf fresh
  show "\<exists>p. getAudioDecodeInfo \<lparr>faacEncOpen = (\<lambda>_ _. ((), 1024, 8)),
        faacEncGetCurrentConfiguration = (\<lambda>_. conf), faacEncSetConfiguration = (\<lambda>h _. h),
        faacEncEncode = (\<lambda>h _ _ _. (h, 0, [])),
        faacEncGetDecoderSpecificInfo = (\<lambda>_. [0x12, 0x10])\<rparr> plain_alloc fresh
      \<lparr>channelCfg = 2, inputSamples = 1024, maxOutputBytes = 8, faacEncHandle = Some (),
        faacEncodeOutputBuffer = None\<rparr> = Inr p
    \<and> handle_packet p = Inr [Audio AUDIO_INFO AUDIO_CHANNEL_STEREO [0x12, 0x10]]"
    (is "\<exists>p. getAudioDecodeInfo ?lib _ _ ?ac = _ \<and> _")
    using audio_info_roundtrip [OF plain_alloc_ok, of ?ac "()" ?lib fresh]
    by (auto simp: channel_kind_def)
qed

end
