(* ===== verification/Flv_Player.thy ===== *)
theory Flv_Player
  imports Media_Types
begin

text \<open>
  \<^verbatim>\<open>src/FlvPlayer.cpp\<close>: the record player. An FLV file is read tag by tag by the
  feeding thread; the user interface moves the read position by whole tags. The state record has
  the members of the class, with the callbacks replaced by a log of their invocations.

  The file descriptor is the POSIX file it refers to: its bytes and the read position. \<open>read\<close>
  returns what is left of the file, up to the count asked for; \<open>lseek\<close> to a negative position
  fails and leaves the position. \<open>off_t\<close> and \<open>long\<close> are 32 bits wide on the target
  (mingw), so the unsigned offsets of the moves are read as signed and \<open>cur_idx\<close> is stored as a
  signed 32-bit value after a move by an unsigned size; elsewhere positions and sizes are \<open>int\<close>,
  for files below 2 GiB. \<open>slept\<close> logs the arguments of \<open>usleep\<close> between pictures. The one effect a callback has on the player is a call of
  \<open>sleep_once\<close>: the parameter \<open>cb\<close> says, from all invocations so far, whether the
  callback makes it and with which frame rate.
\<close>

section \<open>State\<close>

record posix_file =
  f_bytes :: "u8 list"
  f_pos :: nat

datatype flv_event =
    VideoCB nalu_type "u8 list" bool
  | AudioCB audio_type audio_channel_type "u8 list" bool

type_synonym callbacks = "flv_event list \<Rightarrow> u32 option"

definition FLV_HEADER_LENGTH :: nat where "FLV_HEADER_LENGTH = 9"
definition TAG_HEADER_SIZE :: nat where "TAG_HEADER_SIZE = 11"
definition TAG_DATA_SIZE :: nat where "TAG_DATA_SIZE = 1024 * 1024"

definition TAG_AUDIO :: u8 where "TAG_AUDIO = 0x08"
definition TAG_VIDEO :: u8 where "TAG_VIDEO = 0x09"
definition TAG_SCRIPT_DATA :: u8 where "TAG_SCRIPT_DATA = 0x12"

definition flv_header :: "u8 list" where
  "flv_header = [0x46, 0x4C, 0x56, 0x01, 0x00, 0x00, 0x00, 0x00, 0x09]"

record flv_player =
  file_path :: string
  file_fd :: "posix_file option"
  fps :: u32
  is_playing :: bool
  is_pause :: bool
  need_sleep :: bool
  need_I_frame :: bool
  is_regulating :: bool
  request_step :: bool
  step_one_frame :: bool
  regulate_tag_count :: int
  feed_thread :: bool
  cur_idx :: int
  total_bytes :: int
  tag_header :: buffer
  tag_data :: buffer
  buf_len :: u32
  event_log :: "flv_event list"
  slept :: "u32 list"

text \<open>The members that no constructor sets keep the contents of the allocation \<open>raw\<close>.\<close>

definition new_FlvPlayer :: "flv_player \<Rightarrow> flv_player" where
  "new_FlvPlayer raw = raw\<lparr>
     file_path := [], file_fd := None, is_playing := False, is_pause := False,
     need_sleep := False, is_regulating := False, request_step := False,
     step_one_frame := False, feed_thread := False,
     tag_header := \<lparr>buf_cap = TAG_HEADER_SIZE, buf_at = buf_at (tag_header raw)\<rparr>,
     tag_data := \<lparr>buf_cap = TAG_DATA_SIZE, buf_at = buf_at (tag_data raw)\<rparr>,
     event_log := [], slept := []\<rparr>"

section \<open>File access\<close>

definition read_file :: "nat \<Rightarrow> posix_file \<Rightarrow> u8 list \<times> posix_file" where
  "read_file n f =
    (let d = take n (drop (f_pos f) (f_bytes f)) in (d, f\<lparr>f_pos := f_pos f + length d\<rparr>))"

definition seek_file :: "int \<Rightarrow> posix_file \<Rightarrow> posix_file" where
  "seek_file d f = (if int (f_pos f) + d < 0 then f else f\<lparr>f_pos := nat (int (f_pos f) + d)\<rparr>)"

definition lseek_cur :: "int \<Rightarrow> flv_player \<Rightarrow> flv_player" where
  "lseek_cur d s = s\<lparr>file_fd := map_option (seek_file d) (file_fd s)\<rparr>"

text \<open>
  \<open>read(file_fd, buf + off, n)\<close> into either buffer: the number of bytes read (-1 on a bad
  descriptor) and the new state; storing past the end of the buffer is a fault.
\<close>

definition read_header :: "nat \<Rightarrow> nat \<Rightarrow> flv_player \<Rightarrow> (int \<times> flv_player) result" where
  "read_header off n s =
    (case file_fd s of None \<Rightarrow> Inr (-1, s) | Some f \<Rightarrow>
      (let (d, f') = read_file n f in
       rbind (wr (tag_header s) off d) (\<lambda>b.
         Inr (int (length d), s\<lparr>file_fd := Some f', tag_header := b\<rparr>))))"

definition read_data :: "nat \<Rightarrow> flv_player \<Rightarrow> (int \<times> flv_player) result" where
  "read_data n s =
    (case file_fd s of None \<Rightarrow> Inr (-1, s) | Some f \<Rightarrow>
      (let (d, f') = read_file n f in
       rbind (wr (tag_data s) 0 d) (\<lambda>b.
         Inr (int (length d), s\<lparr>file_fd := Some f', tag_data := b\<rparr>))))"

definition is_flv_header :: "buffer \<Rightarrow> bool" where
  "is_flv_header b \<longleftrightarrow> (\<forall>i \<in> {0, 1, 2, 3, 5, 6, 7, 8}. buf_at b i = flv_header ! i)"

definition tag_type :: "buffer \<Rightarrow> u8" where
  "tag_type b = buf_at b 0 AND 0x1F"

definition data_size :: "buffer \<Rightarrow> u32" where
  "data_size b = get_be24 (buf_at b 1) (buf_at b 2) (buf_at b 3)"

section \<open>Tag handlers\<close>

definition sleep_once :: "u32 \<Rightarrow> flv_player \<Rightarrow> flv_player" where
  "sleep_once n s = s\<lparr>fps := n, need_sleep := True\<rparr>"

definition emit :: "callbacks \<Rightarrow> flv_event \<Rightarrow> flv_player \<Rightarrow> flv_player" where
  "emit cb e s =
    (let s' = s\<lparr>event_log := event_log s @ [e]\<rparr> in
     case cb (event_log s @ [e]) of None \<Rightarrow> s' | Some n \<Rightarrow> sleep_once n s')"

fun flv_param_sets ::
    "callbacks \<Rightarrow> nalu_type \<Rightarrow> buffer \<Rightarrow> nat \<Rightarrow> nat \<Rightarrow> flv_player \<Rightarrow> (nat \<times> flv_player) result"
where
  "flv_param_sets cb ty b 0 offset s = Inr (offset, s)"
| "flv_param_sets cb ty b (Suc count) offset s =
     rbind (rd b offset) (\<lambda>num0. rbind (rd b (offset + 1)) (\<lambda>num1.
     let len = unat (get_be16 num0 num1) in
     rbind (rd_slice b (offset + 2) len) (\<lambda>d.
       flv_param_sets cb ty b count (offset + 2 + len)
         (emit cb (VideoCB ty d (\<not> is_regulating s)) s))))"

definition handle_sps_pps :: "callbacks \<Rightarrow> buffer \<Rightarrow> flv_player \<Rightarrow> flv_player result" where
  "handle_sps_pps cb b s =
     rbind (rd b 10) (\<lambda>n.
     rbind (flv_param_sets cb NALU_TYPE_SPS b (unat (n AND 0x1F)) 11 s) (\<lambda>(offset, s).
     rbind (rd b offset) (\<lambda>n.
     rbind (flv_param_sets cb NALU_TYPE_PPS b (unat (n AND 0x1F)) (offset + 1) s)
       (\<lambda>(offset, s). Inr s))))"

definition handle_frame :: "callbacks \<Rightarrow> buffer \<Rightarrow> flv_player \<Rightarrow> flv_player result" where
  "handle_frame cb b s =
     rbind (rd b 5) (\<lambda>num0. rbind (rd b 6) (\<lambda>num1. rbind (rd b 7) (\<lambda>num2. rbind (rd b 8) (\<lambda>num3.
     let data_len = unat (get_be32 num0 num1 num2 num3) in
     rbind (rd b 0) (\<lambda>t.
     if t = 0x17 then
       rbind (rd_slice b 9 data_len) (\<lambda>d.
         Inr ((emit cb (VideoCB NALU_TYPE_IDR d (\<not> is_regulating s)) s)\<lparr>need_I_frame := False\<rparr>))
     else if \<not> need_I_frame s then
       rbind (rd_slice b 9 data_len) (\<lambda>d.
         Inr (emit cb (VideoCB NALU_TYPE_OTHER d (\<not> is_regulating s)) s))
     else Inr s)))))"

definition handle_video_tag_data :: "callbacks \<Rightarrow> buffer \<Rightarrow> flv_player \<Rightarrow> flv_player result" where
  "handle_video_tag_data cb b s =
     rbind (rd b 1) (\<lambda>k. if k = 0x00 then handle_sps_pps cb b s else handle_frame cb b s)"

definition handle_audio ::
    "callbacks \<Rightarrow> audio_type \<Rightarrow> buffer \<Rightarrow> u32 \<Rightarrow> flv_player \<Rightarrow> flv_player result" where
  "handle_audio cb kind b len s =
    (let offset = 2; data_len = len - 2 in
     rbind (rd b 0) (\<lambda>t.
     rbind (rd_slice b offset (unat data_len)) (\<lambda>d.
       Inr (emit cb (AudioCB kind (if t = 0xAE then AUDIO_CHANNEL_MONO else AUDIO_CHANNEL_STEREO) d
         (\<not> is_regulating s)) s))))"

definition handle_audio_decode_info ::
    "callbacks \<Rightarrow> buffer \<Rightarrow> u32 \<Rightarrow> flv_player \<Rightarrow> flv_player result" where
  "handle_audio_decode_info cb b len s = handle_audio cb AUDIO_INFO b len s"

definition handle_audio_data ::
    "callbacks \<Rightarrow> buffer \<Rightarrow> u32 \<Rightarrow> flv_player \<Rightarrow> flv_player result" where
  "handle_audio_data cb b len s = handle_audio cb AUDIO_DATA b len s"

definition handle_audio_tag_data ::
    "callbacks \<Rightarrow> buffer \<Rightarrow> u32 \<Rightarrow> flv_player \<Rightarrow> flv_player result" where
  "handle_audio_tag_data cb b len s =
     rbind (rd b 1) (\<lambda>k.
       if k = 0x00 then handle_audio_decode_info cb b len s else handle_audio_data cb b len s)"

definition handle_tag ::
    "callbacks \<Rightarrow> u8 \<Rightarrow> buffer \<Rightarrow> u32 \<Rightarrow> flv_player \<Rightarrow> flv_player result" where
  "handle_tag cb ty b len s =
    (if ty = TAG_VIDEO then handle_video_tag_data cb b s
     else if ty = TAG_AUDIO then handle_audio_tag_data cb b len s
     else Inr s)"

section \<open>The feeding loop\<close>

text \<open>
  One pass of the loop of \<open>feed_task\<close>: \<open>feed_enter\<close> is what it does before it takes
  the file mutex (\<open>False\<close> for the pass that sleeps), \<open>feed_locked\<close> what it does while it
  holds it, in three parts: reading the headers, delivering the tag, and the bookkeeping after it.
  The sleep between pictures is logged with its length in microseconds; its division faults when the
  frame rate is zero.
\<close>

definition feed_init :: "flv_player \<Rightarrow> flv_player" where
  "feed_init s = s\<lparr>total_bytes := (case file_fd s of None \<Rightarrow> -1 | Some f \<Rightarrow> int (length (f_bytes f))),
     file_fd := map_option (\<lambda>f. f\<lparr>f_pos := 0\<rparr>) (file_fd s), cur_idx := 0, buf_len := 0\<rparr>"

definition feed_enter :: "flv_player \<Rightarrow> bool" where
  "feed_enter s \<longleftrightarrow> \<not> (is_pause s \<and> \<not> step_one_frame s)"

definition feed_regulate :: "flv_player \<Rightarrow> flv_player result" where
  "feed_regulate s =
    (let video = (tag_type (tag_header s) = TAG_VIDEO) in
     rbind (if need_sleep s \<and> \<not> is_regulating s \<and> \<not> step_one_frame s
            then rbind (check (fps s \<noteq> 0) DivByZero) (\<lambda>_.
              Inr (s\<lparr>slept := slept s @ [1000000 div fps s], need_sleep := False\<rparr>))
            else Inr s) (\<lambda>s.
     let s = (if step_one_frame s \<and> \<not> is_regulating s \<and> video \<and> buf_at (tag_data s) 1 = 0x01
              then s\<lparr>step_one_frame := False\<rparr> else s);
         s = (if is_regulating s \<and> video
              then (let s = s\<lparr>regulate_tag_count := regulate_tag_count s - 1\<rparr> in
                    if regulate_tag_count s = 0 then s\<lparr>is_regulating := False\<rparr> else s)
              else s) in
     Inr ((lseek_cur 4 s)\<lparr>cur_idx := cur_idx s + 4\<rparr>)))"

definition feed_locked :: "callbacks \<Rightarrow> flv_player \<Rightarrow> flv_player result" where
  "feed_locked cb s =
    (if cur_idx s + int FLV_HEADER_LENGTH > total_bytes s then Inr s
     else
       rbind (read_header 0 FLV_HEADER_LENGTH s) (\<lambda>(n, s).
       let s = s\<lparr>cur_idx := cur_idx s + n\<rparr> in
       if is_flv_header (tag_header s) then
         Inr ((lseek_cur 4 s)\<lparr>cur_idx := cur_idx s + 4\<rparr>)
       else
         rbind (read_header FLV_HEADER_LENGTH (TAG_HEADER_SIZE - FLV_HEADER_LENGTH) s) (\<lambda>(n, s).
         let s = s\<lparr>cur_idx := cur_idx s + n, buf_len := data_size (tag_header s)\<rparr> in
         rbind (read_data (unat (buf_len s)) s) (\<lambda>(n, s).
         let s = s\<lparr>cur_idx := cur_idx s + n\<rparr> in
         rbind (handle_tag cb (tag_type (tag_header s)) (tag_data s) (buf_len s) s)
           feed_regulate))))"

definition feed_pass :: "callbacks \<Rightarrow> flv_player \<Rightarrow> flv_player result" where
  "feed_pass cb s = (if is_playing s \<and> feed_enter s then feed_locked cb s else Inr s)"

section \<open>Moving by tags\<close>

fun move_forward :: "nat \<Rightarrow> flv_player \<Rightarrow> flv_player result" where
  "move_forward 0 s = Inr s"
| "move_forward (Suc tag_count) s =
    (if cur_idx s + int TAG_HEADER_SIZE \<le> total_bytes s then
       rbind (read_header 0 TAG_HEADER_SIZE s) (\<lambda>(n, s).
       let s = s\<lparr>cur_idx := cur_idx s + n, buf_len := data_size (tag_header s)\<rparr>;
           s = lseek_cur (sint (buf_len s + 4)) s in
       move_forward tag_count (s\<lparr>cur_idx := sint (word_of_int (cur_idx s) + (buf_len s + 4))\<rparr>))
     else Inr s)"

definition prev_tag_size :: "buffer \<Rightarrow> u32" where
  "prev_tag_size b = get_be32 (buf_at b 0) (buf_at b 1) (buf_at b 2) (buf_at b 3) AND 0xFFFFFFFF"

fun move_backward :: "nat \<Rightarrow> flv_player \<Rightarrow> flv_player result" where
  "move_backward 0 s = Inr s"
| "move_backward (Suc tag_count) s =
    (if cur_idx s > 0 then
       rbind (read_header 0 4 (lseek_cur (- 4) s)) (\<lambda>(n, s).
       let s = s\<lparr>buf_len := prev_tag_size (tag_header s)\<rparr> in
       if buf_len s = 0 then Inr s
       else
         (let s = s\<lparr>cur_idx := sint (word_of_int (cur_idx s) - (4 + buf_len s))\<rparr> in
          move_backward tag_count (lseek_cur (sint (- 4 - buf_len s)) s)))
     else Inr s)"

text \<open>\<open>move\<close> returns whether the tag it stops at is an I-frame, and the tag's type.\<close>

definition move :: "int \<Rightarrow> flv_player \<Rightarrow> (bool \<times> u8 \<times> flv_player) result" where
  "move tag_count s =
     rbind (if tag_count \<ge> 0 then move_forward (nat tag_count) s
            else move_backward (nat (- tag_count)) s) (\<lambda>s.
     if cur_idx s + int TAG_HEADER_SIZE > total_bytes s then Inr (False, TAG_AUDIO, s)
     else
       rbind (read_header 0 TAG_HEADER_SIZE s) (\<lambda>(_, s).
       rbind (read_data 2 s) (\<lambda>(_, s).
       let s = lseek_cur (- int TAG_HEADER_SIZE - 2) s; ty = tag_type (tag_header s) in
       Inr (ty = TAG_VIDEO \<and> buf_at (tag_data s) 0 = 0x17 \<and> buf_at (tag_data s) 1 = 0x01, ty, s))))"

text \<open>The position of the first tag, just behind the file header and its empty tag size.\<close>

definition at_first :: "flv_player \<Rightarrow> bool" where
  "at_first s \<longleftrightarrow> cur_idx s = int FLV_HEADER_LENGTH + 4"

definition at_end :: "flv_player \<Rightarrow> bool" where
  "at_end s \<longleftrightarrow> cur_idx s + int TAG_HEADER_SIZE > total_bytes s"

text \<open>
  The three loops of \<open>step_by_frame\<close>. None of them is bounded by a counter of its own, so each
  is a partial function: \<open>None\<close> is a loop that never ends.
\<close>

partial_function (option) step_loop :: "int \<Rightarrow> nat \<Rightarrow> flv_player \<Rightarrow> flv_player result option" where
  "step_loop dire count s =
    (if count = 0 then Some (Inr s) else
     case move dire s of Inl e \<Rightarrow> Some (Inl e) | Inr (_, ty, s) \<Rightarrow>
       if at_end s \<or> at_first s then Some (Inr s)
       else step_loop dire
         (if ty = TAG_VIDEO \<and> buf_at (tag_data s) 1 = 0x01 then count - 1 else count) s)"

partial_function (option) back_to_video :: "flv_player \<Rightarrow> flv_player result option" where
  "back_to_video s =
    (case move (- 1) s of Inl e \<Rightarrow> Some (Inl e) | Inr (_, ty, s) \<Rightarrow>
       if ty = TAG_VIDEO then Some (Inr s) else back_to_video s)"

partial_function (option) back_to_I_frame ::
    "bool \<Rightarrow> flv_player \<Rightarrow> (bool \<times> flv_player) result option" where
  "back_to_I_frame is_i s =
    (if at_first s then Some (Inr (is_i, s)) else
     case move (- 1) s of Inl e \<Rightarrow> Some (Inl e) | Inr (is_i, ty, s) \<Rightarrow>
       let s = (if ty = TAG_VIDEO then s\<lparr>regulate_tag_count := regulate_tag_count s + 1\<rparr> else s) in
       if is_i then Some (Inr (True, s)) else back_to_I_frame is_i s)"

definition then_do ::
    "'a result option \<Rightarrow> ('a \<Rightarrow> 'b result option) \<Rightarrow> 'b result option" where
  "then_do m f = (case m of None \<Rightarrow> None | Some (Inl e) \<Rightarrow> Some (Inl e) | Some (Inr x) \<Rightarrow> f x)"

lemma then_do_simps [simp, run_simps]:
  "then_do None f = None" "then_do (Some (Inl e)) f = Some (Inl e)"
  "then_do (Some (Inr x)) f = f x"
  by (simp_all add: then_do_def)

text \<open>What \<open>step_by_frame\<close> does while it holds the file mutex.\<close>

definition step_locked :: "int \<Rightarrow> flv_player \<Rightarrow> flv_player result option" where
  "step_locked count s =
    (let s = s\<lparr>request_step := False\<rparr> in
     if is_regulating s then Some (Inr s) else
     let s = s\<lparr>is_regulating := True\<rparr>; count = count - 1 in
     if count = 0 then Some (Inr (s\<lparr>is_regulating := False\<rparr>)) else
     let dire = sgn count in
     then_do (step_loop dire (nat \<bar>count\<bar>) s) (\<lambda>s.
     then_do (if at_end s then back_to_video s else Some (Inr s)) (\<lambda>s.
     then_do (Some (move 0 s)) (\<lambda>(is_i, ty, s).
     if ty = TAG_VIDEO \<and> is_i then Some (Inr (s\<lparr>is_regulating := False\<rparr>)) else
     then_do (back_to_I_frame is_i (s\<lparr>regulate_tag_count := 0\<rparr>)) (\<lambda>(is_i, s).
     if \<not> is_i then Some (Inr (s\<lparr>need_I_frame := True, is_regulating := False\<rparr>))
     else Some (Inr s))))))"

definition step_by_frame :: "int \<Rightarrow> flv_player \<Rightarrow> flv_player result option" where
  "step_by_frame count s = step_locked count (s\<lparr>request_step := True\<rparr>)"

section \<open>The public operations\<close>

text \<open>\<open>fs\<close> is the file system: the bytes a path opens to, if it opens.\<close>

definition set_file_path :: "(string \<rightharpoonup> u8 list) \<Rightarrow> string \<Rightarrow> flv_player \<Rightarrow> flv_player" where
  "set_file_path fs path s =
    (if is_playing s then s
     else s\<lparr>file_path := path,
            file_fd := map_option (\<lambda>bs. \<lparr>f_bytes = bs, f_pos = 0\<rparr>) (fs path)\<rparr>)"

definition start :: "flv_player \<Rightarrow> flv_player" where
  "start s =
    (if is_playing s \<or> file_fd s = None then s
     else s\<lparr>is_playing := True, is_pause := False, need_I_frame := True, feed_thread := True\<rparr>)"

definition stop :: "flv_player \<Rightarrow> flv_player" where
  "stop s =
    (if \<not> is_playing s then s
     else s\<lparr>is_playing := False, is_pause := False, feed_thread := False, file_fd := None\<rparr>)"

definition pause :: "flv_player \<Rightarrow> flv_player" where
  "pause s = (if is_pause s then s\<lparr>is_pause := False\<rparr> else s\<lparr>is_pause := True\<rparr>)"

definition step_one_frame_forward :: "flv_player \<Rightarrow> flv_player" where
  "step_one_frame_forward s =
    (if \<not> is_playing s then s else s\<lparr>is_pause := True, step_one_frame := True\<rparr>)"

definition step_one_frame_backward :: "flv_player \<Rightarrow> flv_player result option" where
  "step_one_frame_backward s =
    (if \<not> is_playing s then Some (Inr s)
     else then_do (step_by_frame (- 1) (s\<lparr>is_pause := True\<rparr>)) (\<lambda>s.
       Some (Inr (s\<lparr>step_one_frame := True\<rparr>))))"

text \<open>
  The product \<open>sec * fps\<close> is unsigned 32-bit and converted back to \<open>int\<close>. The frame steps
  run in a detached thread; here is the state when that thread has finished.
\<close>

definition step_by_seconds :: "int \<Rightarrow> flv_player \<Rightarrow> flv_player result option" where
  "step_by_seconds sec s =
    (if \<not> is_playing s then Some (Inr s)
     else (let s = s\<lparr>is_pause := True\<rparr> in
       then_do (step_by_frame (sint (word_of_int sec * fps s)) s) (\<lambda>s.
         Some (Inr (s\<lparr>is_pause := False\<rparr>)))))"

end
