(* ===== verification/Flv_Format.thy ===== *)
theory Flv_Format
  imports Flv_Player
begin

text \<open>
  Well-formed FLV files and the player's position in them. A file is the 9-byte header, an empty
  tag size, and tags: an 11-byte tag header with a 24-bit data size, the data, and the 32-bit size
  of the whole tag. \<open>at_tag\<close> is the alignment invariant of the player: the read position and
  \<open>cur_idx\<close> agree and stand at the start of a tag, or at the end of the file. The lemmas of this
  theory show what the reading primitives and the two tag-moving loops do from such a position.
\<close>

section \<open>Files\<close>

record flv_tag =
  tg_type :: u8
  tg_rest :: "u8 list"
  tg_data :: "u8 list"

definition tag_len :: "flv_tag \<Rightarrow> int" where
  "tag_len t = int (length (tg_data t))"

definition tag_head :: "flv_tag \<Rightarrow> u8 list" where
  "tag_head t = [tg_type t, byte_of 16 (tag_len t), byte_of 8 (tag_len t), byte_of 0 (tag_len t)]
     @ tg_rest t"

definition be32_bytes :: "int \<Rightarrow> u8 list" where
  "be32_bytes n = [byte_of 24 n, byte_of 16 n, byte_of 8 n, byte_of 0 n]"

definition tag_bytes :: "flv_tag \<Rightarrow> u8 list" where
  "tag_bytes t = tag_head t @ tg_data t @ be32_bytes (11 + tag_len t)"

definition tag_ok :: "flv_tag \<Rightarrow> bool" where
  "tag_ok t \<longleftrightarrow> length (tg_rest t) = 7 \<and> length (tg_data t) \<le> TAG_DATA_SIZE \<and> tg_type t \<noteq> 0x46"

definition header_ok :: "u8 list \<Rightarrow> bool" where
  "header_ok h \<longleftrightarrow> length h = 9 \<and> (\<forall>i \<in> {0, 1, 2, 3, 5, 6, 7, 8}. h ! i = flv_header ! i)"

definition flv_bytes :: "u8 list \<Rightarrow> flv_tag list \<Rightarrow> u8 list" where
  "flv_bytes h tags = h @ [0, 0, 0, 0] @ concat (map tag_bytes tags)"

definition flv_ok :: "u8 list \<Rightarrow> flv_tag list \<Rightarrow> bool" where
  "flv_ok h tags \<longleftrightarrow> header_ok h \<and> (\<forall>t \<in> set tags. tag_ok t) \<and> length (flv_bytes h tags) < 2 ^ 31"

definition tag_off :: "flv_tag list \<Rightarrow> nat \<Rightarrow> nat" where
  "tag_off tags k = 13 + length (concat (map tag_bytes (take k tags)))"

lemma length_be32_bytes [simp]: "length (be32_bytes n) = 4"
  by (simp add: be32_bytes_def)

lemma length_tag_head: "tag_ok t \<Longrightarrow> length (tag_head t) = 11"
  by (simp add: tag_head_def tag_ok_def)

lemma length_tag_bytes: "tag_ok t \<Longrightarrow> length (tag_bytes t) = 15 + length (tg_data t)"
  by (simp add: tag_bytes_def length_tag_head)

lemma tag_off_0 [simp]: "tag_off tags 0 = 13"
  by (simp add: tag_off_def)

lemma tag_off_Suc:
  "k < length tags \<Longrightarrow> tag_off tags (Suc k) = tag_off tags k + length (tag_bytes (tags ! k))"
  by (simp add: tag_off_def take_Suc_conv_app_nth)

lemma tag_off_end: "header_ok h \<Longrightarrow> tag_off tags (length tags) = length (flv_bytes h tags)"
  by (simp add: tag_off_def flv_bytes_def header_ok_def)

lemma tag_off_13: "13 \<le> tag_off tags k"
  by (simp add: tag_off_def)

lemma flv_okD:
  assumes "flv_ok h tags"
  shows "header_ok h" "k < length tags \<Longrightarrow> tag_ok (tags ! k)" "length (flv_bytes h tags) < 2 ^ 31"
  using assms by (auto simp: flv_ok_def)

lemma tag_off_less:
  assumes "flv_ok h tags" and "k < length tags"
  shows "tag_off tags k + 15 \<le> length (flv_bytes h tags)"
proof -
  have "concat (map tag_bytes tags) =
      concat (map tag_bytes (take (Suc k) tags)) @ concat (map tag_bytes (drop (Suc k) tags))"
    by (simp flip: concat_append map_append)
  then have "tag_off tags (Suc k) \<le> length (flv_bytes h tags)"
    using flv_okD(1) [OF assms(1)] by (simp add: tag_off_def flv_bytes_def header_ok_def)
  then show ?thesis
    using tag_off_Suc [OF assms(2)] length_tag_bytes [OF flv_okD(2) [OF assms]] by simp
qed

lemma tag_off_eq_13:
  assumes "flv_ok h tags" and "k \<le> length tags"
  shows "tag_off tags k = 13 \<longleftrightarrow> k = 0"
proof (cases k)
  case (Suc j)
  then show ?thesis
    using assms tag_off_Suc [of j tags] tag_off_13 [of tags j] length_tag_bytes [OF flv_okD(2) [OF assms(1), of j]]
    by simp
qed simp

lemma flv_bytes_drop:
  assumes "header_ok h"
  shows "drop (tag_off tags k) (flv_bytes h tags) = concat (map tag_bytes (drop k tags))"
proof -
  have "concat (map tag_bytes tags) =
      concat (map tag_bytes (take k tags)) @ concat (map tag_bytes (drop k tags))"
    by (simp flip: concat_append map_append)
  then have "flv_bytes h tags = (h @ [0, 0, 0, 0] @ concat (map tag_bytes (take k tags)))
      @ concat (map tag_bytes (drop k tags))"
    by (simp add: flv_bytes_def)
  moreover have "length (h @ [0, 0, 0, 0] @ concat (map tag_bytes (take k tags))) = tag_off tags k"
    using assms by (simp add: header_ok_def tag_off_def)
  ultimately show ?thesis by (metis append_eq_conv_conj)
qed

lemma flv_bytes_at:
  assumes "header_ok h" and "k < length tags"
  shows "drop (tag_off tags k) (flv_bytes h tags) =
    tag_bytes (tags ! k) @ concat (map tag_bytes (drop (Suc k) tags))"
  using flv_bytes_drop [OF assms(1)] assms(2) by (simp flip: Cons_nth_drop_Suc)

text \<open>The four bytes before a tag are the size of the tag before it, or the empty tag size.\<close>

lemma flv_bytes_before:
  assumes "flv_ok h tags" and "k \<le> length tags"
  shows "drop (tag_off tags k - 4) (flv_bytes h tags) =
    be32_bytes (case k of 0 \<Rightarrow> 0 | Suc j \<Rightarrow> 11 + tag_len (tags ! j)) @
    concat (map tag_bytes (drop k tags))"
proof (cases k)
  case 0
  have "length h = 9" using flv_okD(1) [OF assms(1)] by (simp add: header_ok_def)
  moreover have "be32_bytes 0 = [0, 0, 0, 0]" by (simp add: be32_bytes_def byte_of_def)
  ultimately show ?thesis using 0 by (simp add: flv_bytes_def)
next
  case (Suc j)
  then have j: "j < length tags" using assms(2) by simp
  let ?t = "tags ! j"
  have len: "length (tag_head ?t @ tg_data ?t) = 11 + length (tg_data ?t)"
    using length_tag_head [OF flv_okD(2) [OF assms(1) j]] by simp
  have off: "tag_off tags k - 4 = (11 + length (tg_data ?t)) + tag_off tags j"
    using Suc tag_off_Suc [OF j] length_tag_bytes [OF flv_okD(2) [OF assms(1) j]] by simp
  have "drop (tag_off tags k - 4) (flv_bytes h tags) =
      drop (11 + length (tg_data ?t)) (drop (tag_off tags j) (flv_bytes h tags))"
    by (simp add: off)
  also have "\<dots> = drop (11 + length (tg_data ?t))
      ((tag_head ?t @ tg_data ?t) @ be32_bytes (11 + tag_len ?t) @ concat (map tag_bytes (drop k tags)))"
    using flv_bytes_at [OF flv_okD(1) [OF assms(1)] j] Suc by (simp add: tag_bytes_def)
  also have "\<dots> = be32_bytes (11 + tag_len ?t) @ concat (map tag_bytes (drop k tags))"
    using len by (metis append_eq_conv_conj)
  finally show ?thesis using Suc by simp
qed

section \<open>Positions\<close>

text \<open>What reading and moving leave alone.\<close>

definition moved :: "flv_player \<Rightarrow> flv_player \<Rightarrow> bool" where
  "moved s s' \<longleftrightarrow> file_path s' = file_path s \<and> fps s' = fps s \<and> is_playing s' = is_playing s
     \<and> is_pause s' = is_pause s \<and> need_sleep s' = need_sleep s \<and> need_I_frame s' = need_I_frame s
     \<and> is_regulating s' = is_regulating s \<and> request_step s' = request_step s
     \<and> step_one_frame s' = step_one_frame s \<and> regulate_tag_count s' = regulate_tag_count s
     \<and> feed_thread s' = feed_thread s \<and> total_bytes s' = total_bytes s
     \<and> event_log s' = event_log s \<and> slept s' = slept s"

lemma moved_refl [simp]: "moved s s"
  by (simp add: moved_def)

lemma moved_trans: "moved s s' \<Longrightarrow> moved s' s'' \<Longrightarrow> moved s s''"
  by (simp add: moved_def)

definition at_pos :: "u8 list \<Rightarrow> nat \<Rightarrow> flv_player \<Rightarrow> bool" where
  "at_pos bs p s \<longleftrightarrow> file_fd s = Some \<lparr>f_bytes = bs, f_pos = p\<rparr>
     \<and> buf_cap (tag_header s) = TAG_HEADER_SIZE \<and> buf_cap (tag_data s) = TAG_DATA_SIZE"

definition at_tag :: "u8 list \<Rightarrow> flv_tag list \<Rightarrow> nat \<Rightarrow> flv_player \<Rightarrow> bool" where
  "at_tag h tags k s \<longleftrightarrow> k \<le> length tags \<and> at_pos (flv_bytes h tags) (tag_off tags k) s
     \<and> cur_idx s = int (tag_off tags k) \<and> total_bytes s = int (length (flv_bytes h tags))"

lemma at_pos_lseek: "at_pos bs p s \<Longrightarrow> 0 \<le> int p + d \<Longrightarrow> at_pos bs (nat (int p + d)) (lseek_cur d s)"
  by (simp add: at_pos_def lseek_cur_def seek_file_def)

lemma lseek_cur_sels [simp]:
  "cur_idx (lseek_cur d s) = cur_idx s" "buf_len (lseek_cur d s) = buf_len s"
  "tag_header (lseek_cur d s) = tag_header s" "tag_data (lseek_cur d s) = tag_data s"
  "total_bytes (lseek_cur d s) = total_bytes s" "is_regulating (lseek_cur d s) = is_regulating s"
  "moved s (lseek_cur d s)"
  by (simp_all add: lseek_cur_def moved_def)

lemma read_header_at:
  assumes p: "at_pos bs p s" and bs: "drop p bs = xs @ ys" and n: "length xs = n"
    and fit: "off + n \<le> TAG_HEADER_SIZE" and pre: "buf_holds (tag_header s) 0 pre" "length pre = off"
  obtains s' where "read_header off n s = Inr (int n, s')"
    and "at_pos bs (p + n) s'" and "buf_holds (tag_header s') 0 (pre @ xs)"
    and "moved s s'" and "cur_idx s' = cur_idx s" and "tag_data s' = tag_data s"
proof -
  obtain b where w: "wr (tag_header s) off xs = Inr b"
    using wr_ok [of off xs "tag_header s"] p fit n by (auto simp: at_pos_def)
  have h: "buf_holds b 0 (pre @ xs)"
    using wr_keeps [OF w pre(1)] wr_holds [OF w] pre(2) by (simp add: buf_holds_append)
  let ?s = "s\<lparr>file_fd := Some \<lparr>f_bytes = bs, f_pos = p + n\<rparr>, tag_header := b\<rparr>"
  show thesis
  proof (rule that)
    show "read_header off n s = Inr (int n, ?s)"
      using p bs n w by (simp add: read_header_def read_file_def at_pos_def)
    show "at_pos bs (p + n) ?s" using p wr_cap [OF w] by (simp add: at_pos_def)
    show "buf_holds (tag_header ?s) 0 (pre @ xs)" using h by simp
  qed (simp_all add: moved_def)
qed

lemma read_data_at:
  assumes p: "at_pos bs p s" and bs: "drop p bs = xs @ ys" and n: "length xs = n"
    and fit: "n \<le> TAG_DATA_SIZE"
  obtains s' where "read_data n s = Inr (int n, s')"
    and "at_pos bs (p + n) s'" and "buf_holds (tag_data s') 0 xs"
    and "moved s s'" and "cur_idx s' = cur_idx s" and "tag_header s' = tag_header s"
    and "buf_len s' = buf_len s"
proof -
  obtain b where w: "wr (tag_data s) 0 xs = Inr b"
    using wr_ok [of 0 xs "tag_data s"] p fit n by (auto simp: at_pos_def)
  let ?s = "s\<lparr>file_fd := Some \<lparr>f_bytes = bs, f_pos = p + n\<rparr>, tag_data := b\<rparr>"
  show thesis
  proof (rule that)
    show "read_data n s = Inr (int n, ?s)"
      using p bs n w by (simp add: read_data_def read_file_def at_pos_def)
    show "at_pos bs (p + n) ?s" using p wr_cap [OF w] by (simp add: at_pos_def)
    show "buf_holds (tag_data ?s) 0 xs" using wr_holds [OF w] by simp
  qed (simp_all add: moved_def)
qed

end
