(* ===== verification/Flv_Moves.thy ===== *)
theory Flv_Moves
  imports Flv_Format
begin

text \<open>
  \<open>move_forward\<close>, \<open>move_backward\<close> and \<open>move\<close> of \<^verbatim>\<open>src/FlvPlayer.cpp\<close> on a
  well-formed file: from the start of a tag they go to the start of the tag the count says, clipped
  at both ends of the file, and change nothing else. Reading the previous-tag sizes backwards is
  the inverse of reading the data sizes forwards.
\<close>

section \<open>What the buffers hold after a read\<close>

lemma tag_len_bounds: "tag_ok t \<Longrightarrow> 0 \<le> tag_len t \<and> tag_len t \<le> 2 ^ 20"
  by (simp add: tag_len_def tag_ok_def TAG_DATA_SIZE_def)

lemma data_size_head:
  assumes "buf_holds b 0 (tag_head t)" and "tag_ok t"
  shows "data_size b = word_of_int (tag_len t)" and "tag_type b = tg_type t AND 0x1F"
proof -
  have at: "buf_at b 0 = tg_type t" "buf_at b 1 = byte_of 16 (tag_len t)"
    "buf_at b 2 = byte_of 8 (tag_len t)" "buf_at b 3 = byte_of 0 (tag_len t)"
    using assms(1) by (auto simp: tag_head_def buf_holds_Cons buf_holds_append eval_nat_numeral)
  show "tag_type b = tg_type t AND 0x1F" by (simp add: tag_type_def at)
  have "take_bit 24 (tag_len t) = tag_len t"
    using tag_len_bounds [OF assms(2)] by (intro take_bit_int_eq_self) auto
  then show "data_size b = word_of_int (tag_len t)"
    using get_be24_byte_of [of "tag_len t"] at by (simp add: data_size_def)
qed

lemma prev_tag_size_holds:
  assumes "buf_holds b 0 (be32_bytes n)"
  shows "prev_tag_size b = word_of_int n"
proof -
  have "buf_at b 0 = byte_of 24 n" "buf_at b 1 = byte_of 16 n"
    "buf_at b 2 = byte_of 8 n" "buf_at b 3 = byte_of 0 n"
    using assms by (auto simp: be32_bytes_def buf_holds_Cons eval_nat_numeral)
  then show ?thesis using get_be32_byte_of [of n] by (simp add: prev_tag_size_def and_all_ones)
qed

section \<open>Forward\<close>

lemma at_tag_not_end:
  assumes "flv_ok h tags" and "at_tag h tags k s"
  shows "cur_idx s + int TAG_HEADER_SIZE \<le> total_bytes s \<longleftrightarrow> k < length tags"
proof (cases "k < length tags")
  case True
  then show ?thesis
    using assms(2) tag_off_less [OF assms(1) True] by (simp add: at_tag_def TAG_HEADER_SIZE_def)
next
  case False
  then have "k = length tags" using assms(2) by (simp add: at_tag_def)
  then show ?thesis
    using assms(2) tag_off_end [OF flv_okD(1) [OF assms(1)], of tags]
    by (simp add: at_tag_def TAG_HEADER_SIZE_def)
qed

lemma tag_off_bound:
  assumes "flv_ok h tags" and "k \<le> length tags"
  shows "tag_off tags k < 2 ^ 31"
proof (cases "k < length tags")
  case True
  then show ?thesis using tag_off_less [OF assms(1) True] flv_okD(3) [OF assms(1)] by simp
next
  case False
  then show ?thesis using assms tag_off_end [OF flv_okD(1) [OF assms(1)], of tags] flv_okD(3) [OF assms(1)] by simp
qed

lemma move_forward_step:
  assumes ok: "flv_ok h tags" and at: "at_tag h tags k s" and k: "k < length tags"
  obtains s' where "move_forward (Suc n) s = move_forward n s'"
    and "at_tag h tags (Suc k) s'" and "moved s s'"
proof -
  let ?t = "tags ! k" and ?bs = "flv_bytes h tags"
  have t: "tag_ok ?t" by (rule flv_okD(2) [OF ok k])
  have p: "at_pos ?bs (tag_off tags k) s" using at by (simp add: at_tag_def)
  have d: "drop (tag_off tags k) ?bs = tag_head ?t @
      (tg_data ?t @ be32_bytes (11 + tag_len ?t) @ concat (map tag_bytes (drop (Suc k) tags)))"
    using flv_bytes_at [OF flv_okD(1) [OF ok] k] by (simp add: tag_bytes_def)
  obtain s1 where r: "read_header 0 TAG_HEADER_SIZE s = Inr (int TAG_HEADER_SIZE, s1)"
    and p1: "at_pos ?bs (tag_off tags k + TAG_HEADER_SIZE) s1"
    and h1: "buf_holds (tag_header s1) 0 ([] @ tag_head ?t)"
    and m1: "moved s s1" and c1: "cur_idx s1 = cur_idx s"
    by (rule read_header_at [OF p d, of TAG_HEADER_SIZE 0 "[]"])
      (use length_tag_head [OF t] p in \<open>simp_all add: TAG_HEADER_SIZE_def buf_holds_Nil\<close>)
  have size: "data_size (tag_header s1) = word_of_int (tag_len ?t)"
    using data_size_head [OF _ t] h1 by simp
  have l: "sint (word_of_int (tag_len ?t) + 4 :: u32) = tag_len ?t + 4"
    using tag_len_bounds [OF t] sint_u32 [of "tag_len ?t + 4"] by simp
  have off: "int (tag_off tags (Suc k)) = int (tag_off tags k) + 15 + tag_len ?t"
    using tag_off_Suc [OF k] length_tag_bytes [OF t] by (simp add: tag_len_def)
  have idx: "sint (word_of_int (cur_idx s + 11) + (word_of_int (tag_len ?t) + 4) :: u32) =
      cur_idx s + 11 + (tag_len ?t + 4)"
  proof -
    have "(word_of_int (cur_idx s + 11) + (word_of_int (tag_len ?t) + 4) :: u32) =
        word_of_int (cur_idx s + 11 + (tag_len ?t + 4))" by simp
    moreover have "0 \<le> cur_idx s + 11 + (tag_len ?t + 4)" "cur_idx s + 11 + (tag_len ?t + 4) < 2 ^ 31"
      using at off tag_off_bound [OF ok, of "Suc k"] k by (auto simp: at_tag_def)
    ultimately show ?thesis using sint_u32 [of "cur_idx s + 11 + (tag_len ?t + 4)"] by (simp only:)
  qed
  define s2 where "s2 = lseek_cur (tag_len ?t + 4) (s1\<lparr>cur_idx := cur_idx s + 11,
    buf_len := word_of_int (tag_len ?t)\<rparr>)"
  let ?s' = "s2\<lparr>cur_idx := cur_idx s + 11 + (tag_len ?t + 4)\<rparr>"
  have "at_pos ?bs (tag_off tags k + 11) (s1\<lparr>cur_idx := cur_idx s + 11,
      buf_len := word_of_int (tag_len ?t)\<rparr>)"
    using p1 by (simp add: at_pos_def TAG_HEADER_SIZE_def)
  from at_pos_lseek [OF this, of "tag_len ?t + 4"]
  have "at_pos ?bs (nat (int (tag_off tags k + 11) + (tag_len ?t + 4))) s2"
    using tag_len_bounds [OF t] by (simp add: s2_def)
  moreover have "nat (int (tag_off tags k + 11) + (tag_len ?t + 4)) = tag_off tags (Suc k)"
    using off by simp
  ultimately have "at_pos ?bs (tag_off tags (Suc k)) s2" by simp
  then have "at_tag h tags (Suc k) ?s'"
    using at off k m1 by (simp add: at_tag_def at_pos_def s2_def moved_def)
  moreover have "moved s ?s'" using m1 by (simp add: moved_def s2_def lseek_cur_def)
  moreover have "move_forward (Suc n) s = move_forward n ?s'"
    using at_tag_not_end [OF ok at] k r c1 size l idx
    by (simp add: s2_def TAG_HEADER_SIZE_def Let_def)
  ultimately show thesis by (intro that)
qed

lemma move_forward_at:
  assumes ok: "flv_ok h tags" and at: "at_tag h tags k s"
  shows "\<exists>s'. move_forward n s = Inr s' \<and> at_tag h tags (min (k + n) (length tags)) s' \<and> moved s s'"
  using at
proof (induction n arbitrary: k s)
  case 0
  then show ?case by (simp add: at_tag_def)
next
  case (Suc n)
  show ?case
  proof (cases "k < length tags")
    case True
    obtain s1 where s1: "move_forward (Suc n) s = move_forward n s1"
      "at_tag h tags (Suc k) s1" "moved s s1"
      by (rule move_forward_step [OF ok Suc.prems True])
    with Suc.IH [OF s1(2)] show ?thesis by (auto intro: moved_trans)
  next
    case False
    then show ?thesis
      using Suc.prems at_tag_not_end [OF ok Suc.prems] by (auto simp: at_tag_def)
  qed
qed

section \<open>Backward\<close>

lemma move_backward_read:
  assumes ok: "flv_ok h tags" and at: "at_tag h tags k s"
  obtains s1 where "read_header 0 4 (lseek_cur (- 4) s) = Inr (4, s1)"
    and "at_pos (flv_bytes h tags) (tag_off tags k) s1" and "moved s s1" and "cur_idx s1 = cur_idx s"
    and "prev_tag_size (tag_header s1) =
      word_of_int (case k of 0 \<Rightarrow> 0 | Suc j \<Rightarrow> 11 + tag_len (tags ! j))"
proof -
  let ?bs = "flv_bytes h tags" and ?n = "case k of 0 \<Rightarrow> 0 | Suc j \<Rightarrow> 11 + tag_len (tags ! j)"
  have k: "k \<le> length tags" and p: "at_pos ?bs (tag_off tags k) s" using at by (auto simp: at_tag_def)
  have "nat (int (tag_off tags k) + - 4) = tag_off tags k - 4" by simp
  then have p1: "at_pos ?bs (tag_off tags k - 4) (lseek_cur (- 4) s)"
    using at_pos_lseek [OF p, of "- 4"] tag_off_13 [of tags k] by simp
  have m: "moved s (lseek_cur (- 4) s)" by simp
  obtain s1 where r: "read_header 0 4 (lseek_cur (- 4) s) = Inr (int 4, s1)"
    and p2: "at_pos ?bs (tag_off tags k - 4 + 4) s1"
    and h: "buf_holds (tag_header s1) 0 ([] @ be32_bytes ?n)"
    and m1: "moved (lseek_cur (- 4) s) s1" and c: "cur_idx s1 = cur_idx (lseek_cur (- 4) s)"
    by (rule read_header_at [OF p1 flv_bytes_before [OF ok k], of 4 0 "[]"])
      (use p in \<open>simp_all add: TAG_HEADER_SIZE_def buf_holds_Nil\<close>)
  show thesis
    using that [of s1] r p2 m1 c moved_trans [OF m m1] h tag_off_13 [of tags k]
      prev_tag_size_holds [of "tag_header s1" ?n] by simp
qed

lemma move_backward_unfold:
  assumes "cur_idx s > 0" and "read_header 0 4 (lseek_cur (- 4) s) = Inr (4, s1)"
    and "prev_tag_size (tag_header s1) = w" and "w \<noteq> 0"
  shows "move_backward (Suc n) s = move_backward n (lseek_cur (sint (- 4 - w))
    (s1\<lparr>buf_len := w, cur_idx := sint (word_of_int (cur_idx s1) - (4 + w))\<rparr>))"
  using assms by (simp add: Let_def)

lemma move_backward_step:
  assumes ok: "flv_ok h tags" and at: "at_tag h tags (Suc k) s"
  obtains s' where "move_backward (Suc n) s = move_backward n s'"
    and "at_tag h tags k s'" and "moved s s'"
proof -
  let ?t = "tags ! k" and ?bs = "flv_bytes h tags"
  have k: "k < length tags" using at by (simp add: at_tag_def)
  have t: "tag_ok ?t" by (rule flv_okD(2) [OF ok k])
  obtain s1 where r: "read_header 0 4 (lseek_cur (- 4) s) = Inr (4, s1)"
    and p1: "at_pos ?bs (tag_off tags (Suc k)) s1" and m1: "moved s s1"
    and c1: "cur_idx s1 = cur_idx s"
    and size: "prev_tag_size (tag_header s1) = word_of_int (11 + tag_len ?t)"
    by (rule move_backward_read [OF ok at]) simp
  have ne: "(word_of_int (11 + tag_len ?t) :: u32) \<noteq> 0"
    using u32_eq_0 [of "11 + tag_len ?t"] tag_len_bounds [OF t] by simp
  have "- 4 - word_of_int (11 + tag_len ?t) = (word_of_int (- 15 - tag_len ?t) :: u32)"
    by simp
  then have seek: "sint (- 4 - word_of_int (11 + tag_len ?t) :: u32) = - 15 - tag_len ?t"
    using sint_u32 [of "- 15 - tag_len ?t"] tag_len_bounds [OF t] by (simp only:) simp
  have off: "int (tag_off tags (Suc k)) = int (tag_off tags k) + 15 + tag_len ?t"
    using tag_off_Suc [OF k] length_tag_bytes [OF t] by (simp add: tag_len_def)
  have sub: "sint (word_of_int (cur_idx s) - (4 + word_of_int (11 + tag_len ?t)) :: u32) =
      cur_idx s - (15 + tag_len ?t)"
  proof -
    have "(word_of_int (cur_idx s) - (4 + word_of_int (11 + tag_len ?t)) :: u32) =
        word_of_int (cur_idx s - (15 + tag_len ?t))" by simp
    moreover have "0 \<le> cur_idx s - (15 + tag_len ?t)" "cur_idx s - (15 + tag_len ?t) < 2 ^ 31"
      using at off tag_off_bound [OF ok, of k] k by (auto simp: at_tag_def)
    ultimately show ?thesis using sint_u32 [of "cur_idx s - (15 + tag_len ?t)"] by (simp only:)
  qed
  define s2 where "s2 = s1\<lparr>buf_len := word_of_int (11 + tag_len ?t),
    cur_idx := cur_idx s - (15 + tag_len ?t)\<rparr>"
  let ?s' = "lseek_cur (- 15 - tag_len ?t) s2"
  have "at_pos ?bs (tag_off tags (Suc k)) s2" using p1 by (simp add: at_pos_def s2_def)
  from at_pos_lseek [OF this, of "- 15 - tag_len ?t"]
  have "at_pos ?bs (nat (int (tag_off tags (Suc k)) + (- 15 - tag_len ?t))) ?s'" using off by simp
  moreover have "nat (int (tag_off tags (Suc k)) + (- 15 - tag_len ?t)) = tag_off tags k"
    using off by simp
  ultimately have "at_pos ?bs (tag_off tags k) ?s'" by simp
  moreover have "moved s ?s'" using m1 by (simp add: moved_def s2_def lseek_cur_def)
  ultimately have "at_tag h tags k ?s'"
    using at off k by (simp add: at_tag_def s2_def moved_def)
  moreover have "cur_idx s > 0" using at tag_off_13 [of tags "Suc k"] by (simp add: at_tag_def)
  note move_backward_unfold [OF this r size ne, of n, unfolded c1 sub seek]
  then have "move_backward (Suc n) s = move_backward n ?s'" by (simp only: s2_def)
  ultimately show thesis using \<open>moved s ?s'\<close> by (intro that)
qed

lemma move_backward_first:
  assumes ok: "flv_ok h tags" and at: "at_tag h tags 0 s"
  obtains s' where "move_backward (Suc n) s = Inr s'" and "at_tag h tags 0 s'" and "moved s s'"
proof -
  obtain s1 where r: "read_header 0 4 (lseek_cur (- 4) s) = Inr (4, s1)"
    and p1: "at_pos (flv_bytes h tags) (tag_off tags 0) s1" and m1: "moved s s1"
    and c1: "cur_idx s1 = cur_idx s" and size: "prev_tag_size (tag_header s1) = word_of_int 0"
    by (rule move_backward_read [OF ok at]) simp
  have "cur_idx s > 0" using at by (simp add: at_tag_def)
  then have "move_backward (Suc n) s = Inr (s1\<lparr>buf_len := 0\<rparr>)"
    using r size by (simp add: Let_def)
  moreover have "at_tag h tags 0 (s1\<lparr>buf_len := 0\<rparr>)"
    using at p1 m1 c1 by (simp add: at_tag_def at_pos_def moved_def)
  moreover have "moved s (s1\<lparr>buf_len := 0\<rparr>)" using m1 by (simp add: moved_def)
  ultimately show thesis by (rule that [of "s1\<lparr>buf_len := 0\<rparr>"])
qed

lemma move_backward_at:
  assumes ok: "flv_ok h tags" and at: "at_tag h tags k s"
  shows "\<exists>s'. move_backward n s = Inr s' \<and> at_tag h tags (k - n) s' \<and> moved s s'"
  using at
proof (induction n arbitrary: k s)
  case 0
  then show ?case by simp
next
  case (Suc n)
  show ?case
  proof (cases k)
    case 0
    obtain s' where "move_backward (Suc n) s = Inr s'" "at_tag h tags 0 s'" "moved s s'"
      by (rule move_backward_first [OF ok Suc.prems [unfolded 0]])
    with 0 show ?thesis by auto
  next
    case (Suc j)
    obtain s1 where s1: "move_backward (Suc n) s = move_backward n s1" "at_tag h tags j s1" "moved s s1"
      by (rule move_backward_step [OF ok Suc.prems [unfolded Suc]])
    with Suc.IH [OF s1(2)] Suc show ?thesis by (auto intro: moved_trans)
  qed
qed

section \<open>Looking at the tag under the position\<close>

text \<open>The two bytes \<open>move\<close> reads behind a tag header, and what it concludes from them.\<close>

definition peek :: "flv_tag \<Rightarrow> u8 list" where
  "peek t = take 2 (tg_data t @ be32_bytes (11 + tag_len t))"

definition is_video :: "flv_tag \<Rightarrow> bool" where
  "is_video t \<longleftrightarrow> tg_type t AND 0x1F = TAG_VIDEO"

definition is_nalu :: "flv_tag \<Rightarrow> bool" where
  "is_nalu t \<longleftrightarrow> is_video t \<and> peek t ! 1 = 0x01"

definition is_key :: "flv_tag \<Rightarrow> bool" where
  "is_key t \<longleftrightarrow> is_video t \<and> peek t ! 0 = 0x17 \<and> peek t ! 1 = 0x01"

definition target :: "nat \<Rightarrow> int \<Rightarrow> nat \<Rightarrow> nat" where
  "target len n k = (if 0 \<le> n then min (k + nat n) len else k - nat (- n))"

lemma length_peek [simp]: "length (peek t) = 2"
  by (simp add: peek_def)

lemma move_look:
  assumes ok: "flv_ok h tags" and at: "at_tag h tags k s" and k: "k < length tags"
  obtains s' where "rbind (read_header 0 TAG_HEADER_SIZE s) (\<lambda>(_, s). rbind (read_data 2 s) (\<lambda>(_, s).
       let s = lseek_cur (- int TAG_HEADER_SIZE - 2) s; ty = tag_type (tag_header s) in
       Inr (ty = TAG_VIDEO \<and> buf_at (tag_data s) 0 = 0x17 \<and> buf_at (tag_data s) 1 = 0x01, ty, s)))
     = Inr (is_key (tags ! k), tg_type (tags ! k) AND 0x1F, s')"
    and "at_tag h tags k s'" and "moved s s'" and "buf_at (tag_data s') 1 = peek (tags ! k) ! 1"
proof -
  let ?t = "tags ! k" and ?bs = "flv_bytes h tags"
  have t: "tag_ok ?t" by (rule flv_okD(2) [OF ok k])
  have p: "at_pos ?bs (tag_off tags k) s" using at by (simp add: at_tag_def)
  let ?rest = "tg_data ?t @ be32_bytes (11 + tag_len ?t)"
  let ?more = "concat (map tag_bytes (drop (Suc k) tags))"
  have d: "drop (tag_off tags k) ?bs = tag_head ?t @ (?rest @ ?more)"
    using flv_bytes_at [OF flv_okD(1) [OF ok] k] by (simp add: tag_bytes_def)
  have d2: "drop (tag_off tags k + 11) ?bs = peek ?t @ (drop 2 ?rest @ ?more)"
  proof -
    have "drop (tag_off tags k + 11) ?bs = drop 11 (drop (tag_off tags k) ?bs)" by (simp add: add.commute)
    also have "\<dots> = ?rest @ ?more" using length_tag_head [OF t] unfolding d by simp
    also have "\<dots> = peek ?t @ (drop 2 ?rest @ ?more)"
      unfolding peek_def append_assoc [symmetric] append_take_drop_id ..
    finally show ?thesis .
  qed
  obtain s1 where r: "read_header 0 TAG_HEADER_SIZE s = Inr (int TAG_HEADER_SIZE, s1)"
    and p1: "at_pos ?bs (tag_off tags k + TAG_HEADER_SIZE) s1"
    and h1: "buf_holds (tag_header s1) 0 ([] @ tag_head ?t)"
    and m1: "moved s s1" and c1: "cur_idx s1 = cur_idx s"
    by (rule read_header_at [OF p d, of TAG_HEADER_SIZE 0 "[]"])
      (use length_tag_head [OF t] p in \<open>simp_all add: TAG_HEADER_SIZE_def buf_holds_Nil\<close>)
  obtain s2 where r2: "read_data 2 s1 = Inr (int 2, s2)"
    and p2: "at_pos ?bs (tag_off tags k + 11 + 2) s2" and h2: "buf_holds (tag_data s2) 0 (peek ?t)"
    and m2: "moved s1 s2" and c2: "cur_idx s2 = cur_idx s1" and th: "tag_header s2 = tag_header s1"
    by (rule read_data_at [OF p1 [unfolded TAG_HEADER_SIZE_def] d2, of 2])
      (simp_all add: TAG_DATA_SIZE_def)
  let ?s = "lseek_cur (- int TAG_HEADER_SIZE - 2) s2"
  have "at_pos ?bs (tag_off tags k) ?s"
    using at_pos_lseek [OF p2, of "- int TAG_HEADER_SIZE - 2"] by (simp add: TAG_HEADER_SIZE_def)
  moreover have m: "moved s ?s" by (intro moved_trans [OF moved_trans [OF m1 m2]]) simp
  ultimately have "at_tag h tags k ?s" using at c1 c2 by (simp add: at_tag_def moved_def)
  moreover have "tag_type (tag_header ?s) = tg_type ?t AND 0x1F"
    using data_size_head(2) [OF _ t, of "tag_header s1"] h1 th by simp
  moreover have "buf_at (tag_data ?s) 0 = peek ?t ! 0" "buf_at (tag_data ?s) 1 = peek ?t ! 1"
    using h2 by (auto simp: buf_holds_def)
  ultimately show thesis
    using r r2 m by (intro that [of ?s]) (simp_all add: Let_def is_key_def is_video_def)
qed

lemma move_at:
  assumes ok: "flv_ok h tags" and at: "at_tag h tags k s"
    and j_def: "j = target (length tags) n k"
  obtains s' where "at_tag h tags j s'" and "moved s s'"
    and "j = length tags \<Longrightarrow> move n s = Inr (False, TAG_AUDIO, s')"
    and "j < length tags \<Longrightarrow> move n s = Inr (is_key (tags ! j), tg_type (tags ! j) AND 0x1F, s')"
    and "j < length tags \<Longrightarrow> buf_at (tag_data s') 1 = peek (tags ! j) ! 1"
proof -
  obtain s1 where s1: "(if n \<ge> 0 then move_forward (nat n) s else move_backward (nat (- n)) s) = Inr s1"
    and at1: "at_tag h tags j s1" and m1: "moved s s1"
  proof (cases "n \<ge> 0")
    case True
    then show thesis
      using move_forward_at [OF ok at, of "nat n"] that by (auto simp: j_def target_def)
  next
    case False
    then show thesis
      using move_backward_at [OF ok at, of "nat (- n)"] that by (auto simp: j_def target_def)
  qed
  have jl: "j \<le> length tags" using at1 by (simp add: at_tag_def)
  show thesis
  proof (cases "j < length tags")
    case True
    obtain s2 where s2: "at_tag h tags j s2" "moved s1 s2" "buf_at (tag_data s2) 1 = peek (tags ! j) ! 1"
      and look: "rbind (read_header 0 TAG_HEADER_SIZE s1) (\<lambda>(_, s). rbind (read_data 2 s) (\<lambda>(_, s).
       let s = lseek_cur (- int TAG_HEADER_SIZE - 2) s; ty = tag_type (tag_header s) in
       Inr (ty = TAG_VIDEO \<and> buf_at (tag_data s) 0 = 0x17 \<and> buf_at (tag_data s) 1 = 0x01, ty, s)))
       = Inr (is_key (tags ! j), tg_type (tags ! j) AND 0x1F, s2)"
      by (rule move_look [OF ok at1 True])
    have "move n s = Inr (is_key (tags ! j), tg_type (tags ! j) AND 0x1F, s2)"
      unfolding move_def s1 rbind.simps using at_tag_not_end [OF ok at1] True look by simp
    then show thesis using True s2 moved_trans [OF m1 s2(2)] by (intro that [of s2]) simp_all
  next
    case False
    have "move n s = Inr (False, TAG_AUDIO, s1)"
      unfolding move_def s1 rbind.simps using at_tag_not_end [OF ok at1] False by simp
    then show thesis using False at1 m1 jl by (intro that [of s1]) simp_all
  qed
qed

end
