(* ===== verification/Flv_Step.thy ===== *)
theory Flv_Step
  imports Flv_Moves
begin

text \<open>
  \<open>step_by_frame\<close> of \<^verbatim>\<open>src/FlvPlayer.cpp\<close> on a well-formed file: which tag
  it stops at, as plain functions on the tag list, and that the three loops on the file compute
  them. \<open>step_dest\<close> is the frame asked for; when it is not an I-frame the player goes back to
  the I-frame before it and counts the video tags in between, which the feeding loop then delivers
  without showing them.
\<close>

section \<open>Where a step goes\<close>

text \<open>Forward over \<open>ts\<close>, the tags from position \<open>k\<close> on, until the \<open>c\<close>-th picture or the end.\<close>

fun step_fwd :: "nat \<Rightarrow> flv_tag list \<Rightarrow> nat \<Rightarrow> nat" where
  "step_fwd 0 ts k = k"
| "step_fwd (Suc c) [] k = k"
| "step_fwd (Suc c) [t] k = Suc k"
| "step_fwd (Suc c) (t # u # ts) k =
    step_fwd (if is_nalu u then c else Suc c) (u # ts) (Suc k)"

text \<open>Backward from position \<open>k\<close>, until the \<open>c\<close>-th picture or the first tag.\<close>

fun step_bwd :: "flv_tag list \<Rightarrow> nat \<Rightarrow> nat \<Rightarrow> nat" where
  "step_bwd tags c 0 = 0"
| "step_bwd tags c (Suc k) =
    (if c = 0 then Suc k else if k = 0 then 0
     else step_bwd tags (if is_nalu (tags ! k) then c - 1 else c) k)"

fun last_below :: "(nat \<Rightarrow> bool) \<Rightarrow> nat \<Rightarrow> nat option" where
  "last_below P 0 = None"
| "last_below P (Suc k) = (if P k then Some k else last_below P k)"

definition step_raw :: "flv_tag list \<Rightarrow> int \<Rightarrow> nat \<Rightarrow> nat" where
  "step_raw tags n k =
    (if 0 < n then step_fwd (nat n) (drop k tags) k else step_bwd tags (nat (- n)) k)"

definition step_dest :: "flv_tag list \<Rightarrow> int \<Rightarrow> nat \<Rightarrow> nat option" where
  "step_dest tags n k =
    (let j = step_raw tags n k in
     if j = length tags then last_below (\<lambda>i. is_video (tags ! i)) j else Some j)"

lemma last_below_SomeD: "last_below P k = Some i \<Longrightarrow> i < k \<and> P i \<and> (\<forall>m. i < m \<and> m < k \<longrightarrow> \<not> P m)"
  by (induction k) (auto split: if_splits simp: less_Suc_eq)

lemma last_below_NoneD: "last_below P k = None \<Longrightarrow> i < k \<Longrightarrow> \<not> P i"
  by (induction k) (auto split: if_splits simp: less_Suc_eq)

lemma is_key_video: "is_key t \<Longrightarrow> is_video t"
  by (simp add: is_key_def)

section \<open>One move\<close>

lemma target_1: "k < len \<Longrightarrow> target len 1 k = Suc k" "k = len \<Longrightarrow> target len 1 k = len"
  by (simp_all add: target_def)

lemma target_minus_1: "target len (- 1) k = k - 1"
  by (simp add: target_def)

lemma at_end_at:
  assumes "flv_ok h tags" and "at_tag h tags k s"
  shows "at_end s \<longleftrightarrow> k = length tags"
  using at_tag_not_end [OF assms] assms(2) by (auto simp: at_end_def at_tag_def)

lemma at_first_at:
  assumes "flv_ok h tags" and "at_tag h tags k s"
  shows "at_first s \<longleftrightarrow> k = 0"
  using tag_off_eq_13 [OF assms(1), of k] assms(2) by (auto simp: at_first_def at_tag_def FLV_HEADER_LENGTH_def)

lemma nalu_at:
  assumes "buf_at (tag_data s) 1 = peek t ! 1"
  shows "tg_type t AND 0x1F = TAG_VIDEO \<and> buf_at (tag_data s) 1 = 0x01 \<longleftrightarrow> is_nalu t"
  using assms by (simp add: is_nalu_def is_video_def)

section \<open>The loops of \<open>step_by_frame\<close>\<close>

lemma step_loop_fwd:
  assumes ok: "flv_ok h tags" and "at_tag h tags k s" and "drop k tags = ts" and "0 < k \<or> c \<noteq> 0"
  shows "\<exists>s'. step_loop 1 c s = Some (Inr s') \<and> at_tag h tags (step_fwd c ts k) s' \<and> moved s s'"
  using assms(2-)
proof (induction c ts k arbitrary: s rule: step_fwd.induct)
  case (1 ts k)
  then show ?case by (simp add: step_loop.simps)
next
  case (2 c k)
  have k: "k = length tags" using 2 by (auto simp: at_tag_def)
  obtain s1 where "at_tag h tags k s1" "moved s s1" "move 1 s = Inr (False, TAG_AUDIO, s1)"
    by (rule move_at [OF ok 2(1), of k 1]) (simp_all add: target_1 k)
  with at_end_at [OF ok this(1)] k show ?case by (subst step_loop.simps) simp
next
  case (3 c t k)
  have k: "Suc k = length tags" using arg_cong [OF 3(2), of length] by simp
  obtain s1 where "at_tag h tags (Suc k) s1" "moved s s1" "move 1 s = Inr (False, TAG_AUDIO, s1)"
    by (rule move_at [OF ok 3(1), of "Suc k" 1]) (use k in \<open>simp_all add: target_1\<close>)
  with at_end_at [OF ok this(1)] k show ?case by (subst step_loop.simps) simp
next
  case (4 c t u ts k)
  have k: "Suc k < length tags" using arg_cong [OF 4(3), of length] by simp
  have d: "drop (Suc k) tags = u # ts" using 4(3) by (metis drop_Suc list.sel(3) tl_drop)
  then have u: "tags ! Suc k = u" using k by (metis Cons_nth_drop_Suc list.inject)
  obtain s1 where s1: "at_tag h tags (Suc k) s1" "moved s s1"
    "move 1 s = Inr (is_key u, tg_type u AND 0x1F, s1)" "buf_at (tag_data s1) 1 = peek u ! 1"
    by (rule move_at [OF ok 4(2), of "Suc k" 1]) (use k u in \<open>simp_all add: target_1\<close>)
  obtain s2 where "step_loop 1 (if is_nalu u then c else Suc c) s1 = Some (Inr s2)"
    "at_tag h tags (step_fwd (if is_nalu u then c else Suc c) (u # ts) (Suc k)) s2" "moved s1 s2"
    using 4(1) [OF s1(1) d] by auto
  moreover have "step_loop 1 (Suc c) s = step_loop 1 (if is_nalu u then c else Suc c) s1"
    using s1(3) at_end_at [OF ok s1(1)] at_first_at [OF ok s1(1)] k nalu_at [OF s1(4)]
    by (subst step_loop.simps) auto
  ultimately show ?case using moved_trans [OF s1(2)] by auto
qed

lemma step_loop_bwd:
  assumes ok: "flv_ok h tags" and "at_tag h tags k s" and "k < length tags \<or> 0 < c"
    and "tags \<noteq> []"
  shows "\<exists>s'. step_loop (- 1) c s = Some (Inr s') \<and> at_tag h tags (step_bwd tags c k) s' \<and> moved s s'"
  using assms(2-3)
proof (induction tags\<equiv>tags c k arbitrary: s rule: step_bwd.induct)
  case (1 c)
  show ?case
  proof (cases c)
    case 0
    with 1 show ?thesis by (auto simp: step_loop.simps)
  next
    case (Suc d)
    obtain s1 where "at_tag h tags 0 s1" "moved s s1"
      "move (- 1) s = Inr (is_key (tags ! 0), tg_type (tags ! 0) AND 0x1F, s1)"
      by (rule move_at [OF ok 1(1), of 0 "- 1"]) (use assms(4) in \<open>simp_all add: target_minus_1\<close>)
    with at_first_at [OF ok this(1)] Suc show ?thesis by (subst step_loop.simps) simp
  qed
next
  case (2 c k)
  have k: "k < length tags" using 2(2) by (simp add: at_tag_def)
  show ?case
  proof (cases "c = 0")
    case True
    with 2 show ?thesis by (auto simp: step_loop.simps)
  next
    case False
    obtain s1 where s1: "at_tag h tags k s1" "moved s s1"
      "move (- 1) s = Inr (is_key (tags ! k), tg_type (tags ! k) AND 0x1F, s1)"
      "buf_at (tag_data s1) 1 = peek (tags ! k) ! 1"
      by (rule move_at [OF ok 2(2), of k "- 1"]) (use k in \<open>simp_all add: target_minus_1\<close>)
    show ?thesis
    proof (cases "k = 0")
      case True
      with s1 at_first_at [OF ok s1(1)] False show ?thesis by (subst step_loop.simps) simp
    next
      case k0: False
      let ?c = "if is_nalu (tags ! k) then c - 1 else c"
      obtain s2 where "step_loop (- 1) ?c s1 = Some (Inr s2)"
        "at_tag h tags (step_bwd tags ?c k) s2" "moved s1 s2"
        using 2(1) [OF False k0 s1(1)] k by auto
      moreover have "step_loop (- 1) c s = step_loop (- 1) ?c s1"
        using s1(3) at_end_at [OF ok s1(1)] at_first_at [OF ok s1(1)] k k0 False nalu_at [OF s1(4)]
        by (subst step_loop.simps) auto
      ultimately show ?thesis using moved_trans [OF s1(2)] False k0 by auto
    qed
  qed
qed

lemma back_to_video_at:
  assumes ok: "flv_ok h tags" and "at_tag h tags k s"
    and "last_below (\<lambda>i. is_video (tags ! i)) k = Some j"
  shows "\<exists>s'. back_to_video s = Some (Inr s') \<and> at_tag h tags j s' \<and> moved s s'"
  using assms(2-)
proof (induction k arbitrary: s)
  case 0
  then show ?case by simp
next
  case (Suc k)
  have k: "k < length tags" using Suc.prems(1) by (simp add: at_tag_def)
  obtain s1 where s1: "at_tag h tags k s1" "moved s s1"
    "move (- 1) s = Inr (is_key (tags ! k), tg_type (tags ! k) AND 0x1F, s1)"
    by (rule move_at [OF ok Suc.prems(1), of k "- 1"]) (use k in \<open>simp_all add: target_minus_1\<close>)
  show ?case
  proof (cases "is_video (tags ! k)")
    case True
    with s1 Suc.prems(2) show ?thesis by (subst back_to_video.simps) (simp add: is_video_def)
  next
    case False
    obtain s2 where "back_to_video s1 = Some (Inr s2)" "at_tag h tags j s2" "moved s1 s2"
      using Suc.IH [OF s1(1)] Suc.prems(2) False by auto
    with s1 False moved_trans [OF s1(2)] show ?thesis
      by (subst back_to_video.simps) (auto simp: is_video_def)
  qed
qed

text \<open>What \<open>back_to_I_frame\<close> changes besides the position: the number of video tags passed.\<close>

definition counted :: "int \<Rightarrow> flv_player \<Rightarrow> flv_player \<Rightarrow> bool" where
  "counted n s s' \<longleftrightarrow> moved (s\<lparr>regulate_tag_count := regulate_tag_count s + n\<rparr>) s'"

lemma counted_0 [simp]: "counted 0 s s' \<longleftrightarrow> moved s s'"
  by (simp add: counted_def)

lemma moved_counted: "moved s s' \<Longrightarrow> counted n s' s'' \<Longrightarrow> counted n s s''"
  by (auto simp: counted_def moved_def)

lemma counted_trans: "counted n s s' \<Longrightarrow> counted m s' s'' \<Longrightarrow> counted (n + m) s s''"
  by (auto simp: counted_def moved_def)

definition passed :: "flv_tag list \<Rightarrow> nat \<Rightarrow> nat \<Rightarrow> int" where
  "passed tags i j = (\<Sum>m = i..<j. if is_video (tags ! m) then 1 else 0)"

lemma passed_Suc: "i \<le> j \<Longrightarrow> passed tags i (Suc j) = (if is_video (tags ! j) then 1 else 0) + passed tags i j"
  by (simp add: passed_def)

lemma passed_self [simp]: "passed tags i i = 0"
  by (simp add: passed_def)

definition I_frame_before :: "flv_tag list \<Rightarrow> nat \<Rightarrow> nat option" where
  "I_frame_before tags j = last_below (\<lambda>i. is_key (tags ! i)) j"

lemma back_to_I_frame_at:
  assumes ok: "flv_ok h tags" and "at_tag h tags k s" and "k < length tags" and "\<not> is_i"
  shows "\<exists>s' i. back_to_I_frame is_i s = Some (Inr (I_frame_before tags k \<noteq> None, s'))
    \<and> i = (case I_frame_before tags k of None \<Rightarrow> 0 | Some i \<Rightarrow> i) \<and> i \<le> k
    \<and> at_tag h tags i s' \<and> counted (passed tags i k) s s'"
  using assms(2-)
proof (induction k arbitrary: s is_i)
  case 0
  then show ?case
    using at_first_at [OF ok 0(1)] by (subst back_to_I_frame.simps) (simp add: I_frame_before_def)
next
  case (Suc k)
  have k: "k < length tags" using Suc.prems(2) by simp
  obtain s1 where s1: "at_tag h tags k s1" "moved s s1"
    "move (- 1) s = Inr (is_key (tags ! k), tg_type (tags ! k) AND 0x1F, s1)"
    by (rule move_at [OF ok Suc.prems(1), of k "- 1"]) (use k in \<open>simp_all add: target_minus_1\<close>)
  define s2 where "s2 = (if is_video (tags ! k)
    then s1\<lparr>regulate_tag_count := regulate_tag_count s1 + 1\<rparr> else s1)"
  have a2: "at_tag h tags k s2" using s1(1) by (simp add: s2_def at_tag_def at_pos_def)
  have c2: "counted (if is_video (tags ! k) then 1 else 0) s s2"
    using s1(2) by (auto simp: s2_def counted_def moved_def)
  have nf: "\<not> at_first s" using at_first_at [OF ok Suc.prems(1)] by simp
  have step: "back_to_I_frame is_i s =
    (if is_key (tags ! k) then Some (Inr (True, s2)) else back_to_I_frame False s2)"
    using nf s1(3) by (subst back_to_I_frame.simps) (simp add: s2_def is_video_def)
  show ?case
  proof (cases "is_key (tags ! k)")
    case True
    then show ?thesis
      using step a2 c2 is_key_video [OF True] passed_Suc [of k k tags] by (simp add: I_frame_before_def)
  next
    case False
    have same: "I_frame_before tags (Suc k) = I_frame_before tags k"
      using False by (simp add: I_frame_before_def)
    obtain s3 i where s3: "back_to_I_frame False s2 = Some (Inr (I_frame_before tags k \<noteq> None, s3))"
      and i: "i = (case I_frame_before tags k of None \<Rightarrow> 0 | Some i \<Rightarrow> i)" "i \<le> k"
      and a3: "at_tag h tags i s3" and c3: "counted (passed tags i k) s2 s3"
      using Suc.IH [OF a2 k, of False] by auto
    have "counted (passed tags i (Suc k)) s s3"
      using counted_trans [OF c2 c3] passed_Suc [OF i(2), of tags] by simp
    with s3 i a3 step False same show ?thesis by auto
  qed
qed

lemma step_bwd_le: "step_bwd tags c k \<le> k"
  by (induction tags c k rule: step_bwd.induct) auto

lemma step_fwd_le: "step_fwd c ts k \<le> k + length ts"
  by (induction c ts k rule: step_fwd.induct) auto

lemma step_loop_raw:
  assumes ok: "flv_ok h tags" and at: "at_tag h tags k s" and n: "n \<noteq> 0" and ne: "tags \<noteq> []"
  shows "\<exists>s'. step_loop (sgn n) (nat \<bar>n\<bar>) s = Some (Inr s')
    \<and> at_tag h tags (step_raw tags n k) s' \<and> moved s s'"
proof (cases "0 < n")
  case True
  then show ?thesis
    using step_loop_fwd [OF ok at refl, of "nat n"] by (simp add: step_raw_def)
next
  case False
  with n have "nat \<bar>n\<bar> = nat (- n)" "sgn n = - 1" "0 < nat (- n)" by simp_all
  then show ?thesis
    using step_loop_bwd [OF ok at _ ne, of "nat (- n)"] False by (simp add: step_raw_def)
qed

lemma step_dest_less:
  assumes "step_dest tags n k = Some j" and "k \<le> length tags"
  shows "j < length tags"
proof -
  have "step_raw tags n k \<le> length tags"
    using step_bwd_le [of tags _ k] step_fwd_le [of _ "drop k tags" k] assms(2)
    by (auto simp: step_raw_def intro: le_trans)
  then show ?thesis
    using assms(1) by (auto simp: step_dest_def Let_def split: if_splits dest: last_below_SomeD)
qed

text \<open>The first two loops together stop at \<open>step_dest\<close>.\<close>

lemma step_loops_at:
  assumes ok: "flv_ok h tags" and at: "at_tag h tags k s" and n: "n \<noteq> 0" and ne: "tags \<noteq> []"
    and dest: "step_dest tags n k = Some j"
  obtains s1 s2 where "step_loop (sgn n) (nat \<bar>n\<bar>) s = Some (Inr s1)"
    and "(if at_end s1 then back_to_video s1 else Some (Inr s1)) = Some (Inr s2)"
    and "at_tag h tags j s2" and "moved s s2"
proof -
  obtain s1 where s1: "step_loop (sgn n) (nat \<bar>n\<bar>) s = Some (Inr s1)"
    "at_tag h tags (step_raw tags n k) s1" "moved s s1"
    using step_loop_raw [OF ok at n ne] by auto
  show thesis
  proof (cases "step_raw tags n k = length tags")
    case True
    then obtain s2 where "back_to_video s1 = Some (Inr s2)" "at_tag h tags j s2" "moved s1 s2"
      using back_to_video_at [OF ok s1(2), of j] dest by (auto simp: step_dest_def)
    then show thesis
      using that [OF s1(1)] at_end_at [OF ok s1(2)] True moved_trans [OF s1(3)] by simp
  next
    case False
    then show thesis
      using that [OF s1(1)] at_end_at [OF ok s1(2)] s1 dest by (simp add: step_dest_def)
  qed
qed

section \<open>The whole step\<close>

text \<open>
  Where the player is after a step whose frame is tag \<open>j\<close>: on it, if it is an I-frame; else on
  the I-frame before it, regulating over the video tags up to it; else on the first tag, waiting
  for an I-frame.
\<close>

definition stepped :: "u8 list \<Rightarrow> flv_tag list \<Rightarrow> nat \<Rightarrow> flv_player \<Rightarrow> flv_player \<Rightarrow> bool" where
  "stepped h tags j s s' \<longleftrightarrow>
    (if is_key (tags ! j) then at_tag h tags j s' \<and> moved (s\<lparr>request_step := False\<rparr>) s'
     else case I_frame_before tags j of
       Some i \<Rightarrow> at_tag h tags i s' \<and> moved (s\<lparr>request_step := False, is_regulating := True,
         regulate_tag_count := passed tags i j\<rparr>) s'
     | None \<Rightarrow> at_tag h tags 0 s' \<and> moved (s\<lparr>request_step := False, need_I_frame := True,
         regulate_tag_count := passed tags 0 j\<rparr>) s')"

lemma step_locked_stepped:
  assumes ok: "flv_ok h tags" and at: "at_tag h tags k s" and n: "n \<noteq> 1"
    and reg: "\<not> is_regulating s" and dest: "step_dest tags (n - 1) k = Some j"
  shows "\<exists>s'. step_locked n s = Some (Inr s') \<and> stepped h tags j s s'"
proof -
  have j: "j < length tags" using step_dest_less [OF dest] at by (simp add: at_tag_def)
  then have ne: "tags \<noteq> []" by auto
  let ?s = "s\<lparr>request_step := False, is_regulating := True\<rparr>"
  have at': "at_tag h tags k ?s" using at by (simp add: at_tag_def at_pos_def)
  have n': "n - 1 \<noteq> 0" using n by simp
  obtain s1 s2 where s1: "step_loop (sgn (n - 1)) (nat \<bar>n - 1\<bar>) ?s = Some (Inr s1)"
    and s2: "(if at_end s1 then back_to_video s1 else Some (Inr s1)) = Some (Inr s2)"
    and at2: "at_tag h tags j s2" and m2: "moved ?s s2"
    by (rule step_loops_at [OF ok at' n' ne dest])
  obtain s3 where at3: "at_tag h tags j s3" and m3: "moved s2 s3"
    and mv: "move 0 s2 = Inr (is_key (tags ! j), tg_type (tags ! j) AND 0x1F, s3)"
    by (rule move_at [OF ok at2, of j 0]) (use j in \<open>simp_all add: target_def\<close>)
  have run: "step_locked n s =
    (if is_key (tags ! j) then Some (Inr (s3\<lparr>is_regulating := False\<rparr>))
     else then_do (back_to_I_frame False (s3\<lparr>regulate_tag_count := 0\<rparr>)) (\<lambda>(is_i, s).
       if \<not> is_i then Some (Inr (s\<lparr>need_I_frame := True, is_regulating := False\<rparr>))
       else Some (Inr s)))"
    using s1 s2 mv reg n is_key_video [of "tags ! j"]
    by (simp add: step_locked_def Let_def is_video_def)
  have m: "moved ?s s3" by (rule moved_trans [OF m2 m3])
  show ?thesis
  proof (cases "is_key (tags ! j)")
    case True
    have "at_tag h tags j (s3\<lparr>is_regulating := False\<rparr>)" using at3 by (simp add: at_tag_def at_pos_def)
    moreover have "moved (s\<lparr>request_step := False\<rparr>) (s3\<lparr>is_regulating := False\<rparr>)"
      using m reg by (simp add: moved_def)
    ultimately show ?thesis using run True by (simp add: stepped_def)
  next
    case False
    let ?s3 = "s3\<lparr>regulate_tag_count := 0\<rparr>"
    have "at_tag h tags j ?s3" using at3 by (simp add: at_tag_def at_pos_def)
    from back_to_I_frame_at [OF ok this j, of False] obtain s4 i where
      b: "back_to_I_frame False ?s3 = Some (Inr (I_frame_before tags j \<noteq> None, s4))"
      and i: "i = (case I_frame_before tags j of None \<Rightarrow> 0 | Some i \<Rightarrow> i)"
      and at4: "at_tag h tags i s4" and c4: "counted (passed tags i j) ?s3 s4"
      by auto
    have m4: "moved (s\<lparr>request_step := False, is_regulating := True,
        regulate_tag_count := passed tags i j\<rparr>) s4"
      using c4 m by (simp add: counted_def moved_def)
    show ?thesis
    proof (cases "I_frame_before tags j")
      case None
      have "at_tag h tags 0 (s4\<lparr>need_I_frame := True, is_regulating := False\<rparr>)"
        using at4 i None by (simp add: at_tag_def at_pos_def)
      then show ?thesis
        using run False b None m4 reg i by (simp add: stepped_def moved_def)
    next
      case (Some i')
      then show ?thesis using run False b m4 i at4 by (simp add: stepped_def)
    qed
  qed
qed

section \<open>A file without video\<close>

lemma back_to_video_diverges:
  assumes ok: "flv_ok h tags" and none: "\<forall>t \<in> set tags. \<not> is_video t"
  shows "at_tag h tags k s \<Longrightarrow> back_to_video s = None"
proof -
  have "\<not> (\<exists>k. at_tag h tags k s)" if "back_to_video s = Some r" for s r
  proof (rule back_to_video.raw_induct [of "\<lambda>s r. \<not> (\<exists>k. at_tag h tags k s)", OF _ that])
    fix f s r
    assume 1: "\<And>s r. f s = Some r \<Longrightarrow> \<not> (\<exists>k. at_tag h tags k s)"
      "(case move (- 1) s of Inl e \<Rightarrow> Some (Inl e) | Inr (_, ty, s) \<Rightarrow>
         if ty = TAG_VIDEO then Some (Inr s) else f s) = Some r"
    show "\<not> (\<exists>k. at_tag h tags k s)"
    proof (rule notI, elim exE)
      fix k assume at: "at_tag h tags k s"
      obtain s1 where at1: "at_tag h tags (k - 1) s1"
        and mv: "\<exists>is_i ty. move (- 1) s = Inr (is_i, ty, s1) \<and> ty \<noteq> TAG_VIDEO"
      proof (rule move_at [OF ok at, of "k - 1" "- 1"])
        fix s1 assume "at_tag h tags (k - 1) s1" and
          e: "k - 1 = length tags \<Longrightarrow> move (- 1) s = Inr (False, TAG_AUDIO, s1)" and
          l: "k - 1 < length tags \<Longrightarrow> move (- 1) s =
            Inr (is_key (tags ! (k - 1)), tg_type (tags ! (k - 1)) AND 0x1F, s1)"
        moreover have "\<exists>is_i ty. move (- 1) s = Inr (is_i, ty, s1) \<and> ty \<noteq> TAG_VIDEO"
        proof (cases "k - 1 < length tags")
          case True
          then show ?thesis using l none by (auto simp: is_video_def)
        next
          case False
          then have "k - 1 = length tags"
            using \<open>at_tag h tags (k - 1) s1\<close> by (simp add: at_tag_def)
          then show ?thesis using e by (auto simp: TAG_AUDIO_def TAG_VIDEO_def)
        qed
        ultimately show thesis using that by blast
      qed (simp_all add: target_minus_1)
      from mv 1(2) have "f s1 = Some r" by auto
      from 1(1) [OF this] at1 show False by blast
    qed
  qed
  then show "at_tag h tags k s \<Longrightarrow> back_to_video s = None" for k s
    by (cases "back_to_video s") auto
qed

end
