(* ===== verification/Flv_Feed.thy ===== *)
theory Flv_Feed
  imports Flv_Step
begin

text \<open>
  The feeding loop of \<^verbatim>\<open>src/FlvPlayer.cpp\<close> on a well-formed file: what each
  kind of tag delivers to the callbacks, and that one pass of the loop from the start of a tag
  delivers exactly that and stands at the start of the next tag. \<open>tag_content\<close> is the payload
  format the recorder writes; \<open>content_events\<close> what the user of the player sees of it.
\<close>

section \<open>Payloads\<close>

datatype flv_content =
    Config "u8 list list" "u8 list list"
  | Picture bool "u8 list"
  | Audio_Config audio_channel_type "u8 list"
  | Audio_Block audio_channel_type "u8 list"
  | Other

definition be16_bytes :: "int \<Rightarrow> u8 list" where
  "be16_bytes n = [byte_of 8 n, byte_of 0 n]"

definition set_bytes16 :: "u8 list \<Rightarrow> u8 list" where
  "set_bytes16 d = be16_bytes (int (length d)) @ d"

definition sound_byte :: "audio_channel_type \<Rightarrow> u8" where
  "sound_byte ch = (if ch = AUDIO_CHANNEL_MONO then 0xAE else 0xAF)"

text \<open>\<open>tag_content t c\<close>: the data of tag \<open>t\<close> is the payload \<open>c\<close>.\<close>

fun tag_content :: "flv_tag \<Rightarrow> flv_content \<Rightarrow> bool" where
  "tag_content t (Config spss ppss) \<longleftrightarrow> is_video t \<and> length spss < 32 \<and> length ppss < 32
     \<and> (\<forall>d \<in> set (spss @ ppss). length d < 2 ^ 16) \<and> take 2 (tg_data t) = [0x17, 0]
     \<and> drop 10 (tg_data t) = (word_of_nat (length spss) OR 0xE0) # concat (map set_bytes16 spss)
         @ word_of_nat (length ppss) # concat (map set_bytes16 ppss)"
| "tag_content t (Picture key d) \<longleftrightarrow> is_video t \<and> length d < 2 ^ 32
     \<and> (\<exists>c0 c1 c2. tg_data t = [if key then 0x17 else 0x27, 1, c0, c1, c2]
         @ be32_bytes (int (length d)) @ d)"
| "tag_content t (Audio_Config ch d) \<longleftrightarrow> tg_type t AND 0x1F = TAG_AUDIO
     \<and> tg_data t = [sound_byte ch, 0] @ d"
| "tag_content t (Audio_Block ch d) \<longleftrightarrow> tg_type t AND 0x1F = TAG_AUDIO
     \<and> tg_data t = [sound_byte ch, 1] @ d"
| "tag_content t Other \<longleftrightarrow> tg_type t AND 0x1F \<noteq> TAG_VIDEO \<and> tg_type t AND 0x1F \<noteq> TAG_AUDIO"

fun content_video :: "flv_content \<Rightarrow> bool" where
  "content_video (Config _ _) = True"
| "content_video (Picture _ _) = True"
| "content_video _ = False"

text \<open>What a payload delivers, when \<open>need\<close> says that pictures wait for an I-frame.\<close>

fun content_events :: "bool \<Rightarrow> bool \<Rightarrow> flv_content \<Rightarrow> flv_event list" where
  "content_events need play (Config spss ppss) =
     map (\<lambda>d. VideoCB NALU_TYPE_SPS d play) spss @ map (\<lambda>d. VideoCB NALU_TYPE_PPS d play) ppss"
| "content_events need play (Picture key d) =
     (if key then [VideoCB NALU_TYPE_IDR d play]
      else if need then [] else [VideoCB NALU_TYPE_OTHER d play])"
| "content_events need play (Audio_Config ch d) = [AudioCB AUDIO_INFO ch d play]"
| "content_events need play (Audio_Block ch d) = [AudioCB AUDIO_DATA ch d play]"
| "content_events need play Other = []"

fun content_need :: "bool \<Rightarrow> flv_content \<Rightarrow> bool" where
  "content_need need (Picture key d) = (need \<and> \<not> key)"
| "content_need need _ = need"

lemma content_video: "tag_content t c \<Longrightarrow> is_video t = content_video c"
  by (cases c) (auto simp: is_video_def TAG_VIDEO_def TAG_AUDIO_def)

section \<open>Delivering events\<close>

text \<open>
  The part of the state a callback or a tag handler can change. \<open>asked cb past es\<close>: the rate of the
  last call of \<open>sleep_once\<close> that the callbacks of the events \<open>es\<close>, coming after \<open>past\<close>, make.
\<close>

fun asked :: "callbacks \<Rightarrow> flv_event list \<Rightarrow> flv_event list \<Rightarrow> u32 option" where
  "asked cb past [] = None"
| "asked cb past (e # es) =
    (case asked cb (past @ [e]) es of None \<Rightarrow> cb (past @ [e]) | Some f \<Rightarrow> Some f)"

definition sleep_after :: "callbacks \<Rightarrow> flv_event list \<Rightarrow> flv_player \<Rightarrow> bool \<times> u32" where
  "sleep_after cb es s =
    (case asked cb (event_log s) es of None \<Rightarrow> (need_sleep s, fps s) | Some f \<Rightarrow> (True, f))"

definition delivered :: "callbacks \<Rightarrow> flv_event list \<Rightarrow> flv_player \<Rightarrow> flv_player \<Rightarrow> bool" where
  "delivered cb es s s' \<longleftrightarrow> s' = s\<lparr>event_log := event_log s @ es, fps := fps s',
     need_sleep := need_sleep s', need_I_frame := need_I_frame s'\<rparr>
     \<and> (need_sleep s', fps s') = sleep_after cb es s"

definition fps_set :: "callbacks \<Rightarrow> bool" where
  "fps_set cb \<longleftrightarrow> (\<forall>es. cb es \<noteq> Some 0)"

lemma asked_append:
  "asked cb past (es @ fs) =
    (case asked cb (past @ es) fs of None \<Rightarrow> asked cb past es | Some f \<Rightarrow> Some f)"
  by (induction es arbitrary: past) (auto split: option.split)

lemma asked_set: "fps_set cb \<Longrightarrow> asked cb past es \<noteq> Some 0"
  by (induction es arbitrary: past) (auto simp: fps_set_def split: option.split)

lemma sleep_after_set:
  "fps_set cb \<Longrightarrow> (need_sleep s \<longrightarrow> fps s \<noteq> 0) \<Longrightarrow> sleep_after cb es s = (b, f) \<Longrightarrow> b \<longrightarrow> f \<noteq> 0"
  using asked_set [of cb "event_log s" es] by (auto simp: sleep_after_def split: option.splits)

lemma delivered_refl [simp]: "delivered cb [] s s"
  by (simp add: delivered_def sleep_after_def)

lemma sleep_after_append:
  assumes "event_log s' = event_log s @ es" and "(need_sleep s', fps s') = sleep_after cb es s"
  shows "sleep_after cb fs s' = sleep_after cb (es @ fs) s"
  using assms by (auto simp: sleep_after_def asked_append split: option.splits)

lemma delivered_trans:
  assumes "delivered cb es s s'" and "delivered cb fs s' s''"
  shows "delivered cb (es @ fs) s s''"
proof -
  have "s'' = s\<lparr>event_log := event_log s @ es @ fs, fps := fps s'',
      need_sleep := need_sleep s'', need_I_frame := need_I_frame s''\<rparr>"
    using assms unfolding delivered_def by (cases s; cases s'; cases s'') auto
  moreover have "event_log s' = event_log s @ es"
    using assms(1) unfolding delivered_def by (cases s; cases s') auto
  from sleep_after_append [OF this, of cb fs] assms
  have "(need_sleep s'', fps s'') = sleep_after cb (es @ fs) s" by (simp add: delivered_def)
  ultimately show ?thesis unfolding delivered_def by simp
qed

lemma delivered_sels:
  assumes "delivered cb es s s'"
  shows "event_log s' = event_log s @ es" "is_regulating s' = is_regulating s"
    "tag_header s' = tag_header s" "tag_data s' = tag_data s"
  using assms unfolding delivered_def by (cases s; cases s'; auto)+

lemma emit_delivered:
  assumes "fps_set cb"
  shows "delivered cb [e] s (emit cb e s)" "need_I_frame (emit cb e s) = need_I_frame s"
  using assms by (auto simp: emit_def delivered_def sleep_after_def sleep_once_def Let_def split: option.splits)

lemma flv_param_sets_run:
  assumes "fps_set cb" and "buf_holds b off (concat (map set_bytes16 ds))"
    and "\<forall>d \<in> set ds. length d < 2 ^ 16"
  shows "\<exists>s'. flv_param_sets cb ty b (length ds) off s =
      Inr (off + length (concat (map set_bytes16 ds)), s')
    \<and> delivered cb (map (\<lambda>d. VideoCB ty d (\<not> is_regulating s)) ds) s s'
    \<and> need_I_frame s' = need_I_frame s"
  using assms(2,3)
proof (induction ds arbitrary: off s)
  case Nil
  then show ?case by simp
next
  case (Cons d ds)
  let ?n = "int (length d)" and ?e = "VideoCB ty d (\<not> is_regulating s)"
  have b: "rd b off = Inr (byte_of 8 ?n)" "rd b (off + 1) = Inr (byte_of 0 ?n)"
    "buf_holds b (off + 2) d" "buf_holds b (off + 2 + length d) (concat (map set_bytes16 ds))"
    using Cons.prems(1)
    by (auto simp: set_bytes16_def [of d] be16_bytes_def buf_holds_append buf_holds_Cons rd_def
        numeral_2_eq_2 algebra_simps)
  have len: "unat (get_be16 (byte_of 8 ?n) (byte_of 0 ?n)) = length d"
    using unat_get_be16 [of ?n] Cons.prems(2) by simp
  let ?s = "emit cb ?e s"
  obtain s' where s': "flv_param_sets cb ty b (length ds) (off + 2 + length d) ?s =
      Inr (off + 2 + length d + length (concat (map set_bytes16 ds)), s')"
    and d: "delivered cb (map (\<lambda>d. VideoCB ty d (\<not> is_regulating ?s)) ds) ?s s'"
    and n: "need_I_frame s' = need_I_frame ?s"
    using Cons.IH [OF b(4)] Cons.prems(2) by auto
  have e: "delivered cb [?e] s ?s" and r: "is_regulating ?s = is_regulating s"
    using emit_delivered(1) [OF assms(1)] delivered_sels(2) [OF emit_delivered(1) [OF assms(1)]] by blast+
  have "delivered cb (map (\<lambda>d. VideoCB ty d (\<not> is_regulating s)) (d # ds)) s s'"
    using delivered_trans [OF e d] r by simp
  moreover have "flv_param_sets cb ty b (length (d # ds)) off s =
      flv_param_sets cb ty b (length ds) (off + 2 + length d) ?s"
    by (simp only: list.size(4) add_Suc_right add_0_right flv_param_sets.simps b(1,2) rbind.simps
        Let_def len rd_slice_holds [OF b(3)])
  moreover have "off + 2 + length d + length (concat (map set_bytes16 ds)) =
      off + length (concat (map set_bytes16 (d # ds)))"
    by (simp add: set_bytes16_def [of d] be16_bytes_def)
  ultimately show ?case using s' n emit_delivered(2) [OF assms(1)] by auto
qed

section \<open>One tag\<close>

lemma tag_content_length:
  assumes "tag_content t c" and "c \<noteq> Other"
  shows "2 \<le> length (tg_data t)"
  using assms by (cases c) (auto dest: arg_cong [where f = length])

lemma set_count_and:
  assumes "n < 32"
  shows "unat ((word_of_nat n OR 0xE0 :: u8) AND 0x1F) = n" "unat ((word_of_nat n :: u8) AND 0x1F) = n"
proof -
  have m: "(0x1F :: u8) = mask 5" by (simp add: mask_eq_exp_minus_1)
  have z: "(0xE0 :: u8) AND 0x1F = 0" by simp
  have "(word_of_nat n :: u8) AND 0x1F = take_bit 5 (word_of_nat n)" by (simp only: m take_bit_eq_mask)
  then show "unat ((word_of_nat n :: u8) AND 0x1F) = n"
    using assms by (simp add: unsigned_take_bit_eq unsigned_of_nat take_bit_nat_eq_self)
  then show "unat ((word_of_nat n OR 0xE0 :: u8) AND 0x1F) = n"
    by (simp only: bit.conj_disj_distrib2 z bit.disj_zero_right or.right_neutral)
qed

lemma handle_sps_pps_run:
  assumes cb: "fps_set cb" and c: "tag_content t (Config spss ppss)" and b: "buf_holds b 0 (tg_data t)"
  shows "\<exists>s'. handle_sps_pps cb b s = Inr s' \<and> need_I_frame s' = need_I_frame s
    \<and> delivered cb (content_events (need_I_frame s) (\<not> is_regulating s) (Config spss ppss)) s s'"
proof -
  let ?n = "word_of_nat (length spss) OR 0xE0 :: u8" and ?m = "word_of_nat (length ppss) :: u8"
  let ?l = "length (concat (map set_bytes16 spss))"
  have d: "drop 10 (tg_data t) = ?n # concat (map set_bytes16 spss) @ ?m # concat (map set_bytes16 ppss)"
    and len: "length spss < 32" "length ppss < 32" "\<forall>d \<in> set spss. length d < 2 ^ 16"
      "\<forall>d \<in> set ppss. length d < 2 ^ 16"
    using c by auto
  have "10 \<le> length (tg_data t)" using arg_cong [OF d, of length] by simp
  then have "buf_holds b 10 (drop 10 (tg_data t))"
    using b buf_holds_append [of b 0 "take 10 (tg_data t)" "drop 10 (tg_data t)"]
    by (simp add: min_absorb2)
  then have h: "rd b 10 = Inr ?n" "buf_holds b 11 (concat (map set_bytes16 spss))"
    "rd b (11 + ?l) = Inr ?m" "buf_holds b (11 + ?l + 1) (concat (map set_bytes16 ppss))"
    unfolding d by (auto simp: buf_holds_Cons buf_holds_append rd_def)
  obtain s1 where s1: "flv_param_sets cb NALU_TYPE_SPS b (length spss) 11 s = Inr (11 + ?l, s1)"
    and d1: "delivered cb (map (\<lambda>d. VideoCB NALU_TYPE_SPS d (\<not> is_regulating s)) spss) s s1"
    and n1: "need_I_frame s1 = need_I_frame s"
    using flv_param_sets_run [OF cb h(2) len(3)] by blast
  obtain s2 x where s2: "flv_param_sets cb NALU_TYPE_PPS b (length ppss) (11 + ?l + 1) s1 = Inr (x, s2)"
    and d2: "delivered cb (map (\<lambda>d. VideoCB NALU_TYPE_PPS d (\<not> is_regulating s1)) ppss) s1 s2"
    and n2: "need_I_frame s2 = need_I_frame s1"
    using flv_param_sets_run [OF cb h(4) len(4)] by blast
  have "handle_sps_pps cb b s = Inr s2"
    using s1 s2 h(1,3) by (simp add: handle_sps_pps_def set_count_and len)
  then show ?thesis
    using delivered_trans [OF d1 d2] delivered_sels(2) [OF d1] n1 n2 by simp
qed

lemma handle_frame_run:
  assumes cb: "fps_set cb" and c: "tag_content t (Picture key d)" and b: "buf_holds b 0 (tg_data t)"
  shows "\<exists>s'. handle_frame cb b s = Inr s' \<and> need_I_frame s' = (need_I_frame s \<and> \<not> key)
    \<and> delivered cb (content_events (need_I_frame s) (\<not> is_regulating s) (Picture key d)) s s'"
proof -
  let ?n = "int (length d)"
  obtain c0 c1 c2 where t: "tg_data t = [if key then 0x17 else 0x27, 1, c0, c1, c2]
      @ be32_bytes ?n @ d" and len: "length d < 2 ^ 32"
    using c by auto
  have h: "rd b 0 = Inr (if key then 0x17 else 0x27)" "rd b 5 = Inr (byte_of 24 ?n)"
    "rd b 6 = Inr (byte_of 16 ?n)" "rd b 7 = Inr (byte_of 8 ?n)" "rd b 8 = Inr (byte_of 0 ?n)"
    "buf_holds b 9 d"
    using b unfolding t be32_bytes_def by (auto simp: buf_holds_Cons buf_holds_append rd_def eval_nat_numeral)
  have n: "unat (get_be32 (byte_of 24 ?n) (byte_of 16 ?n) (byte_of 8 ?n) (byte_of 0 ?n)) = length d"
    using unat_get_be32 [of ?n] len by simp
  note run = h(1-5) n rd_slice_holds [OF h(6)]
  show ?thesis
  proof (cases key)
    case True
    let ?e = "VideoCB NALU_TYPE_IDR d (\<not> is_regulating s)"
    have "handle_frame cb b s = Inr ((emit cb ?e s)\<lparr>need_I_frame := False\<rparr>)"
      using True by (simp add: handle_frame_def run)
    moreover have "delivered cb [?e] s ((emit cb ?e s)\<lparr>need_I_frame := False\<rparr>)"
      using emit_delivered(1) [OF cb, of ?e s] unfolding delivered_def
      by (cases s; cases "emit cb ?e s") (auto simp: sleep_after_def)
    ultimately show ?thesis using True by simp
  next
    case False
    then have "handle_frame cb b s = (if need_I_frame s then Inr s
        else Inr (emit cb (VideoCB NALU_TYPE_OTHER d (\<not> is_regulating s)) s))"
      by (simp add: handle_frame_def run)
    then show ?thesis using False emit_delivered [OF cb] by simp
  qed
qed

lemma handle_audio_run:
  assumes cb: "fps_set cb" and t: "tg_data t = [sound_byte ch, k] @ d" and b: "buf_holds b 0 (tg_data t)"
    and ok: "tag_ok t"
  shows "\<exists>s'. handle_audio cb kind b (word_of_int (tag_len t)) s = Inr s' \<and> need_I_frame s' = need_I_frame s
    \<and> delivered cb [AudioCB kind ch d (\<not> is_regulating s)] s s'"
proof -
  have h: "rd b 0 = Inr (sound_byte ch)" "buf_holds b 2 d"
    using b unfolding t by (auto simp: buf_holds_Cons rd_def eval_nat_numeral)
  have "tag_len t = int (length d) + 2" using arg_cong [OF t, of length] by (simp add: tag_len_def)
  then have "word_of_int (tag_len t) - 2 = (word_of_int (int (length d)) :: u32)"
    and "int (length d) < 2 ^ 32"
    using tag_len_bounds [OF ok] by simp_all
  then have n: "unat (word_of_int (tag_len t) - 2 :: u32) = length d"
    using unat_u32 [of "int (length d)"] by simp
  have ch: "(if sound_byte ch = 0xAE then AUDIO_CHANNEL_MONO else AUDIO_CHANNEL_STEREO) = ch"
    by (cases ch) (simp_all add: sound_byte_def)
  have "handle_audio cb kind b (word_of_int (tag_len t)) s =
      Inr (emit cb (AudioCB kind ch d (\<not> is_regulating s)) s)"
    using rd_slice_holds [OF h(2)] by (simp add: handle_audio_def Let_def n h(1) ch)
  then show ?thesis using emit_delivered [OF cb] by simp
qed

lemma handle_tag_run:
  assumes cb: "fps_set cb" and c: "tag_content t c" and b: "buf_holds b 0 (tg_data t)" and ok: "tag_ok t"
  shows "\<exists>s'. handle_tag cb (tg_type t AND 0x1F) b (word_of_int (tag_len t)) s = Inr s'
    \<and> need_I_frame s' = content_need (need_I_frame s) c
    \<and> delivered cb (content_events (need_I_frame s) (\<not> is_regulating s) c) s s'"
proof (cases c)
  case (Config spss ppss)
  have "rd b 1 = Inr 0"
    using b c Config by (cases "tg_data t" rule: remdups_adj.cases) (auto simp: buf_holds_Cons rd_def)
  then show ?thesis
    using handle_sps_pps_run [OF cb c [unfolded Config] b] c Config
    by (simp add: handle_tag_def handle_video_tag_data_def is_video_def)
next
  case (Picture key d)
  have "rd b 1 = Inr 1" using b c Picture by (auto simp: buf_holds_Cons rd_def)
  then show ?thesis
    using handle_frame_run [OF cb c [unfolded Picture] b] c Picture
    by (simp add: handle_tag_def handle_video_tag_data_def is_video_def)
next
  case (Audio_Config ch d)
  have "rd b 1 = Inr 0" using b c Audio_Config by (auto simp: buf_holds_Cons rd_def)
  then show ?thesis
    using handle_audio_run [OF cb _ b ok, of ch 0 d AUDIO_INFO] c Audio_Config
    by (simp add: handle_tag_def handle_audio_tag_data_def handle_audio_decode_info_def
        TAG_AUDIO_def TAG_VIDEO_def)
next
  case (Audio_Block ch d)
  have "rd b 1 = Inr 1" using b c Audio_Block by (auto simp: buf_holds_Cons rd_def)
  then show ?thesis
    using handle_audio_run [OF cb _ b ok, of ch 1 d AUDIO_DATA] c Audio_Block
    by (simp add: handle_tag_def handle_audio_tag_data_def handle_audio_data_def
        TAG_AUDIO_def TAG_VIDEO_def)
next
  case Other
  then show ?thesis using c by (simp add: handle_tag_def)
qed

section \<open>One pass\<close>

definition content_picture :: "flv_content \<Rightarrow> bool" where
  "content_picture c \<longleftrightarrow> (case c of Picture _ _ \<Rightarrow> True | _ \<Rightarrow> False)"

definition reg_step :: "bool \<Rightarrow> bool \<times> int \<Rightarrow> bool \<times> int" where
  "reg_step video r = (if fst r \<and> video then (snd r \<noteq> 1, snd r - 1) else r)"

text \<open>The effect of one pass over a tag with the payload \<open>c\<close>.\<close>

definition fed :: "callbacks \<Rightarrow> flv_content \<Rightarrow> flv_player \<Rightarrow> flv_player \<Rightarrow> bool" where
  "fed cb c s s' \<longleftrightarrow>
     event_log s' = event_log s @ content_events (need_I_frame s) (\<not> is_regulating s) c
     \<and> need_I_frame s' = content_need (need_I_frame s) c
     \<and> (is_regulating s', regulate_tag_count s') =
         reg_step (content_video c) (is_regulating s, regulate_tag_count s)
     \<and> step_one_frame s' = (step_one_frame s \<and> (is_regulating s \<or> \<not> content_picture c))
     \<and> is_playing s' = is_playing s \<and> is_pause s' = is_pause s \<and> feed_thread s' = feed_thread s
     \<and> (need_sleep s' \<longrightarrow> fps s' \<noteq> 0)
     \<and> (case sleep_after cb (content_events (need_I_frame s) (\<not> is_regulating s) c) s of (b, f) \<Rightarrow>
          need_sleep s' = (b \<and> (is_regulating s \<or> step_one_frame s)) \<and> fps s' = f
          \<and> slept s' = slept s @ (if b \<and> \<not> is_regulating s \<and> \<not> step_one_frame s then [1000000 div f] else []))"

lemma nalu_byte:
  assumes "tag_content t c" and "buf_holds b 0 (tg_data t)"
  shows "tg_type t AND 0x1F = TAG_VIDEO \<and> buf_at b 1 = 0x01 \<longleftrightarrow> content_picture c"
proof (cases "is_video t")
  case True
  then have "c \<noteq> Other" using assms(1) by (auto simp: is_video_def)
  then obtain x y xs where d: "tg_data t = x # y # xs"
    using tag_content_length [OF assms(1)] by (cases "tg_data t" rule: remdups_adj.cases) auto
  then have "buf_at b 1 = y" using assms(2) by (simp add: buf_holds_Cons)
  then show ?thesis
    using True assms(1) d content_video [OF assms(1)]
    by (cases c) (auto simp: content_picture_def is_video_def)
next
  case False
  then show ?thesis
    using content_video [OF assms(1)] by (cases c) (auto simp: content_picture_def is_video_def)
qed

lemma feed_regulate_run:
  assumes p: "at_pos bs p s" and ok: "need_sleep s \<longrightarrow> fps s \<noteq> 0"
    and v: "tag_type (tag_header s) = TAG_VIDEO \<longleftrightarrow> content_video c"
    and k: "tag_type (tag_header s) = TAG_VIDEO \<and> buf_at (tag_data s) 1 = 0x01 \<longleftrightarrow> content_picture c"
  shows "\<exists>s'. feed_regulate s = Inr s' \<and> at_pos bs (p + 4) s' \<and> cur_idx s' = cur_idx s + 4
    \<and> total_bytes s' = total_bytes s
    \<and> event_log s' = event_log s \<and> need_I_frame s' = need_I_frame s
    \<and> (is_regulating s', regulate_tag_count s') =
         reg_step (content_video c) (is_regulating s, regulate_tag_count s)
    \<and> step_one_frame s' = (step_one_frame s \<and> (is_regulating s \<or> \<not> content_picture c))
    \<and> is_playing s' = is_playing s \<and> is_pause s' = is_pause s \<and> feed_thread s' = feed_thread s
    \<and> (need_sleep s' \<longrightarrow> fps s' \<noteq> 0)
    \<and> need_sleep s' = (need_sleep s \<and> (is_regulating s \<or> step_one_frame s)) \<and> fps s' = fps s
    \<and> slept s' = slept s @
        (if need_sleep s \<and> \<not> is_regulating s \<and> \<not> step_one_frame s then [1000000 div fps s] else [])"
proof -
  define s1 where "s1 = (if need_sleep s \<and> \<not> is_regulating s \<and> \<not> step_one_frame s
    then s\<lparr>slept := slept s @ [1000000 div fps s], need_sleep := False\<rparr> else s)"
  define s2 where "s2 = (if step_one_frame s \<and> \<not> is_regulating s \<and> content_picture c
    then s1\<lparr>step_one_frame := False\<rparr> else s1)"
  define s3 where "s3 = (if is_regulating s \<and> content_video c then
      (if regulate_tag_count s = 1 then s2\<lparr>regulate_tag_count := 0, is_regulating := False\<rparr>
       else s2\<lparr>regulate_tag_count := regulate_tag_count s - 1\<rparr>) else s2)"
  let ?s' = "(lseek_cur 4 s3)\<lparr>cur_idx := cur_idx s3 + 4\<rparr>"
  have "feed_regulate s = Inr ?s'"
    using v k ok by (simp add: feed_regulate_def Let_def s1_def s2_def s3_def)
  moreover have "at_pos bs p s3" using p by (simp add: s1_def s2_def s3_def at_pos_def)
  from at_pos_lseek [OF this, of 4] have "at_pos bs (p + 4) ?s'"
    by (simp add: at_pos_def nat_add_distrib)
  moreover have "cur_idx s3 = cur_idx s" "total_bytes s3 = total_bytes s" "event_log s3 = event_log s"
    "need_I_frame s3 = need_I_frame s" "is_playing s3 = is_playing s" "is_pause s3 = is_pause s"
    "feed_thread s3 = feed_thread s" "need_sleep s3 \<longrightarrow> fps s3 \<noteq> 0" "fps s3 = fps s"
    "need_sleep s3 = (need_sleep s \<and> (is_regulating s \<or> step_one_frame s))"
    "slept s3 = slept s @
        (if need_sleep s \<and> \<not> is_regulating s \<and> \<not> step_one_frame s then [1000000 div fps s] else [])"
    using ok by (auto simp add: s1_def s2_def s3_def)
  moreover have "(is_regulating s3, regulate_tag_count s3) =
      reg_step (content_video c) (is_regulating s, regulate_tag_count s)"
    by (simp add: s1_def s2_def s3_def reg_step_def)
  moreover have "step_one_frame s3 = (step_one_frame s \<and> (is_regulating s \<or> \<not> content_picture c))"
    by (auto simp: s1_def s2_def s3_def)
  ultimately show ?thesis by (intro exI [of _ ?s']) (simp add: lseek_cur_def)
qed

lemma flv_header_tag:
  assumes "buf_holds b 0 (take 9 (tag_head t))" and "tag_ok t"
  shows "\<not> is_flv_header b"
proof -
  have "buf_at b 0 = tg_type t" using assms(1) by (simp add: tag_head_def buf_holds_Cons)
  then show ?thesis using assms(2) by (auto simp: is_flv_header_def flv_header_def tag_ok_def)
qed

text \<open>Reading a whole tag: its header in two pieces, then its data.\<close>

lemma read_tag:
  assumes ok: "flv_ok h tags" and at: "at_tag h tags k s" and k: "k < length tags"
  obtains s1 s2 s3 where "read_header 0 FLV_HEADER_LENGTH s = Inr (9, s1)"
    and "\<not> is_flv_header (tag_header s1)"
    and "read_header FLV_HEADER_LENGTH (TAG_HEADER_SIZE - FLV_HEADER_LENGTH)
           (s1\<lparr>cur_idx := cur_idx s + 9\<rparr>) = Inr (2, s2)"
    and "data_size (tag_header s2) = word_of_int (tag_len (tags ! k))"
    and "read_data (length (tg_data (tags ! k))) (s2\<lparr>cur_idx := cur_idx s + 11,
           buf_len := word_of_int (tag_len (tags ! k))\<rparr>) = Inr (tag_len (tags ! k), s3)"
    and "cur_idx s1 = cur_idx s" and "cur_idx s2 = cur_idx s + 9" and "cur_idx s3 = cur_idx s + 11"
    and "buf_len s3 = word_of_int (tag_len (tags ! k))"
    and "at_pos (flv_bytes h tags) (tag_off tags k + 11 + length (tg_data (tags ! k))) s3"
    and "tag_type (tag_header s3) = tg_type (tags ! k) AND 0x1F"
    and "buf_holds (tag_data s3) 0 (tg_data (tags ! k))" and "moved s s3"
proof -
  let ?t = "tags ! k" and ?bs = "flv_bytes h tags"
  have t: "tag_ok ?t" by (rule flv_okD(2) [OF ok k])
  have lh: "length (tag_head ?t) = 11" by (rule length_tag_head [OF t])
  have p: "at_pos ?bs (tag_off tags k) s" using at by (simp add: at_tag_def)
  let ?more = "be32_bytes (11 + tag_len ?t) @ concat (map tag_bytes (drop (Suc k) tags))"
  have d: "drop (tag_off tags k) ?bs =
      take 9 (tag_head ?t) @ (drop 9 (tag_head ?t) @ tg_data ?t @ ?more)"
    using flv_bytes_at [OF flv_okD(1) [OF ok] k] by (simp add: tag_bytes_def)
  have d9: "drop (tag_off tags k + 9) ?bs = drop 9 (tag_head ?t) @ (tg_data ?t @ ?more)"
    using arg_cong [OF d, of "drop 9"] lh by (simp add: add.commute)
  have d11: "drop (tag_off tags k + 9 + 2) ?bs = tg_data ?t @ ?more"
    using arg_cong [OF d9, of "drop 2"] lh by (simp add: add.commute)
  obtain s1 where r1: "read_header 0 9 s = Inr (int 9, s1)"
    and p1: "at_pos ?bs (tag_off tags k + 9) s1" and h1: "buf_holds (tag_header s1) 0 ([] @ take 9 (tag_head ?t))"
    and m1: "moved s s1" and c1: "cur_idx s1 = cur_idx s"
    by (rule read_header_at [OF p d, of 9 0 "[]"])
      (use lh p in \<open>simp_all add: TAG_HEADER_SIZE_def buf_holds_Nil\<close>)
  let ?s1 = "s1\<lparr>cur_idx := cur_idx s + 9\<rparr>"
  have p1': "at_pos ?bs (tag_off tags k + 9) ?s1" and h1': "buf_holds (tag_header ?s1) 0 (take 9 (tag_head ?t))"
    using p1 h1 by (simp_all add: at_pos_def)
  obtain s2 where r2: "read_header 9 2 ?s1 = Inr (int 2, s2)"
    and p2: "at_pos ?bs (tag_off tags k + 9 + 2) s2"
    and h2: "buf_holds (tag_header s2) 0 (take 9 (tag_head ?t) @ drop 9 (tag_head ?t))"
    and m2: "moved ?s1 s2" and c2: "cur_idx s2 = cur_idx ?s1"
    by (rule read_header_at [OF p1' d9, of 2 9 "take 9 (tag_head ?t)"])
      (use lh h1' in \<open>simp_all add: TAG_HEADER_SIZE_def\<close>)
  have h2': "buf_holds (tag_header s2) 0 (tag_head ?t)" using h2 by simp
  let ?s2 = "s2\<lparr>cur_idx := cur_idx s + 11, buf_len := word_of_int (tag_len ?t)\<rparr>"
  have p2': "at_pos ?bs (tag_off tags k + 9 + 2) ?s2" using p2 by (simp add: at_pos_def)
  obtain s3 where r3: "read_data (length (tg_data ?t)) ?s2 = Inr (int (length (tg_data ?t)), s3)"
    and p3: "at_pos ?bs (tag_off tags k + 9 + 2 + length (tg_data ?t)) s3"
    and h3: "buf_holds (tag_data s3) 0 (tg_data ?t)"
    and m3: "moved ?s2 s3" and c3: "cur_idx s3 = cur_idx ?s2" and th3: "tag_header s3 = tag_header ?s2"
    and bl3: "buf_len s3 = buf_len ?s2"
    by (rule read_data_at [OF p2' d11, of "length (tg_data ?t)"]) (use t in \<open>simp_all add: tag_ok_def\<close>)
  have "moved s s3" using m1 m2 m3 by (simp add: moved_def)
  moreover have "\<not> is_flv_header (tag_header s1)" using flv_header_tag [of "tag_header s1" ?t] h1 t by simp
  moreover have "at_pos ?bs (tag_off tags k + 11 + length (tg_data ?t)) s3"
    using p3 by (simp add: eval_nat_numeral)
  ultimately show thesis
    using r1 r2 r3 data_size_head [OF h2' t] c1 c2 c3 bl3 h3 th3
    by (intro that [of s1 s2 s3]) (simp_all add: FLV_HEADER_LENGTH_def TAG_HEADER_SIZE_def tag_len_def)
qed

lemma feed_pass_at:
  assumes cb: "fps_set cb" and ok: "flv_ok h tags" and at: "at_tag h tags k s" and k: "k < length tags"
    and c: "tag_content (tags ! k) c" and run: "is_playing s" "feed_enter s"
    and ns: "need_sleep s \<longrightarrow> fps s \<noteq> 0"
  obtains s' where "feed_pass cb s = Inr s'" and "at_tag h tags (Suc k) s'" and "fed cb c s s'"
proof -
  let ?t = "tags ! k" and ?bs = "flv_bytes h tags"
  have t: "tag_ok ?t" by (rule flv_okD(2) [OF ok k])
  obtain s1 s2 s3 where r1: "read_header 0 FLV_HEADER_LENGTH s = Inr (9, s1)"
    and nh: "\<not> is_flv_header (tag_header s1)"
    and r2: "read_header FLV_HEADER_LENGTH (TAG_HEADER_SIZE - FLV_HEADER_LENGTH)
           (s1\<lparr>cur_idx := cur_idx s + 9\<rparr>) = Inr (2, s2)"
    and size: "data_size (tag_header s2) = word_of_int (tag_len ?t)"
    and r3: "read_data (length (tg_data ?t)) (s2\<lparr>cur_idx := cur_idx s + 11,
           buf_len := word_of_int (tag_len ?t)\<rparr>) = Inr (tag_len ?t, s3)"
    and idx: "cur_idx s1 = cur_idx s" "cur_idx s2 = cur_idx s + 9" "cur_idx s3 = cur_idx s + 11"
    and bl: "buf_len s3 = word_of_int (tag_len ?t)"
    and p3: "at_pos ?bs (tag_off tags k + 11 + length (tg_data ?t)) s3"
    and ty: "tag_type (tag_header s3) = tg_type ?t AND 0x1F"
    and h3: "buf_holds (tag_data s3) 0 (tg_data ?t)" and m3: "moved s s3"
    by (rule read_tag [OF ok at k])
  define s4 where "s4 = s3\<lparr>cur_idx := cur_idx s + 11 + tag_len ?t\<rparr>"
  have b4: "buf_holds (tag_data s4) 0 (tg_data ?t)" using h3 by (simp add: s4_def)
  obtain s5 where s5: "handle_tag cb (tg_type ?t AND 0x1F) (tag_data s4) (word_of_int (tag_len ?t)) s4 = Inr s5"
    and n5: "need_I_frame s5 = content_need (need_I_frame s4) c"
    and d5: "delivered cb (content_events (need_I_frame s4) (\<not> is_regulating s4) c) s4 s5"
    using handle_tag_run [OF cb c b4 t] by blast
  have len: "unat (word_of_int (tag_len ?t) :: u32) = length (tg_data ?t)"
    using unat_u32 [of "tag_len ?t"] tag_len_bounds [OF t] by (simp add: tag_len_def)
  have room: "\<not> cur_idx s + int FLV_HEADER_LENGTH > total_bytes s"
    using at_tag_not_end [OF ok at] k by (simp add: TAG_HEADER_SIZE_def FLV_HEADER_LENGTH_def)
  have run5: "feed_pass cb s = feed_regulate s5"
    using room r1 nh r2 size r3 idx bl ty s5 run len
    by (simp add: feed_pass_def feed_locked_def s4_def tag_len_def add.commute [of "cur_idx s" 11])
  have keep: "file_fd s5 = file_fd s4" "tag_header s5 = tag_header s4" "tag_data s5 = tag_data s4"
    "cur_idx s5 = cur_idx s4" "total_bytes s5 = total_bytes s4" "is_regulating s5 = is_regulating s4"
    "regulate_tag_count s5 = regulate_tag_count s4" "step_one_frame s5 = step_one_frame s4"
    "is_playing s5 = is_playing s4" "is_pause s5 = is_pause s4" "feed_thread s5 = feed_thread s4"
    "event_log s5 = event_log s4 @ content_events (need_I_frame s4) (\<not> is_regulating s4) c"
    "slept s5 = slept s4"
    using d5 unfolding delivered_def by (cases s5; cases s4; simp)+
  have ns5: "need_sleep s5 \<longrightarrow> fps s5 \<noteq> 0"
    by (rule sleep_after_set [OF cb, of s4]) (use d5 ns m3 in \<open>auto simp: delivered_def s4_def moved_def\<close>)
  have p5: "at_pos ?bs (tag_off tags k + 11 + length (tg_data ?t)) s5"
    using p3 keep(1-3) by (simp add: at_pos_def s4_def)
  have v5: "tag_type (tag_header s5) = TAG_VIDEO \<longleftrightarrow> content_video c"
    using keep(2) ty content_video [OF c] by (simp add: s4_def is_video_def)
  have k5: "tag_type (tag_header s5) = TAG_VIDEO \<and> buf_at (tag_data s5) 1 = 0x01 \<longleftrightarrow> content_picture c"
    using keep(2,3) ty nalu_byte [OF c h3] by (simp add: s4_def)
  obtain s' where s': "feed_regulate s5 = Inr s'"
    and p': "at_pos ?bs (tag_off tags k + 11 + length (tg_data ?t) + 4) s'"
    and i': "cur_idx s' = cur_idx s5 + 4" and tb': "total_bytes s' = total_bytes s5"
    and f': "event_log s' = event_log s5" "need_I_frame s' = need_I_frame s5"
      "(is_regulating s', regulate_tag_count s') =
         reg_step (content_video c) (is_regulating s5, regulate_tag_count s5)"
      "step_one_frame s' = (step_one_frame s5 \<and> (is_regulating s5 \<or> \<not> content_picture c))"
      "is_playing s' = is_playing s5" "is_pause s' = is_pause s5" "feed_thread s' = feed_thread s5"
      "need_sleep s' \<longrightarrow> fps s' \<noteq> 0" "fps s' = fps s5"
      "need_sleep s' = (need_sleep s5 \<and> (is_regulating s5 \<or> step_one_frame s5))"
      "slept s' = slept s5 @
        (if need_sleep s5 \<and> \<not> is_regulating s5 \<and> \<not> step_one_frame s5 then [1000000 div fps s5] else [])"
    using feed_regulate_run [OF p5 ns5 v5 k5] by blast
  have off: "tag_off tags k + 11 + length (tg_data ?t) + 4 = tag_off tags (Suc k)"
    using tag_off_Suc [OF k] length_tag_bytes [OF t] by simp
  have "at_tag h tags (Suc k) s'"
    using p' [unfolded off] i' tb' keep(4,5) off k at m3
    by (simp add: at_tag_def s4_def tag_len_def moved_def)
  moreover have "fed cb c s s'"
  proof -
    have "sleep_after cb es s4 = sleep_after cb es s" for es
      using m3 by (simp add: sleep_after_def s4_def moved_def split: option.split)
    then have "sleep_after cb (content_events (need_I_frame s) (\<not> is_regulating s) c) s = (need_sleep s5, fps s5)"
      using d5 m3 by (simp add: delivered_def s4_def moved_def)
    then show ?thesis using f' keep n5 m3 by (simp add: fed_def s4_def moved_def)
  qed
  ultimately show thesis using s' run5 that by simp
qed

end
