(* ===== verification/Flv_Claims.thy ===== *)
theory Flv_Claims
  imports Flv_Feed
begin

text \<open>
  What the record player of \<^verbatim>\<open>src/FlvPlayer.cpp\<close> promises on a well-formed file:
  playing from the start delivers every tag once and in order and then idles; moving forward and
  backward by the same number of tags comes back; a frame step stops at the frame asked for and
  the decoder is fed from the I-frame before it without showing anything until then; a single step
  delivers up to one picture and pauses again; a step on a file without video never returns.
\<close>

section \<open>Runs of the feeding loop\<close>

fun feed_passes :: "callbacks \<Rightarrow> nat \<Rightarrow> flv_player \<Rightarrow> flv_player result" where
  "feed_passes cb 0 s = Inr s"
| "feed_passes cb (Suc n) s = rbind (feed_pass cb s) (feed_passes cb n)"

text \<open>
  The same run on payloads: the events delivered, whether pictures still wait for an I-frame, and
  the regulation, from a flag and the number of video tags left.
\<close>

fun feed_spec ::
    "bool \<Rightarrow> bool \<times> int \<Rightarrow> flv_content list \<Rightarrow> flv_event list \<times> bool \<times> bool \<times> int"
where
  "feed_spec need r [] = ([], need, r)"
| "feed_spec need r (c # cs) =
    (let (es, z) = feed_spec (content_need need c) (reg_step (content_video c) r) cs in
     (content_events need (\<not> fst r) c @ es, z))"

lemma feed_passes_add:
  "feed_passes cb (m + n) s = rbind (feed_passes cb m s) (feed_passes cb n)"
proof (induction m arbitrary: s)
  case (Suc m)
  have "feed_passes cb (m + n) = (\<lambda>s. rbind (feed_passes cb m s) (feed_passes cb n))"
    using Suc by auto
  then show ?case by (simp add: rbind_assoc)
qed simp

lemma feed_run:
  assumes cb: "fps_set cb" and ok: "flv_ok h tags" and cs: "list_all2 tag_content tags cs"
    and "at_tag h tags k s" and "k + n \<le> length tags"
    and "is_playing s" "\<not> is_pause s" "need_sleep s \<longrightarrow> fps s \<noteq> 0"
  shows "\<exists>s' es. feed_passes cb n s = Inr s' \<and> at_tag h tags (k + n) s'
    \<and> event_log s' = event_log s @ es
    \<and> feed_spec (need_I_frame s) (is_regulating s, regulate_tag_count s) (take n (drop k cs)) =
        (es, need_I_frame s', is_regulating s', regulate_tag_count s')
    \<and> is_playing s' \<and> \<not> is_pause s' \<and> (need_sleep s' \<longrightarrow> fps s' \<noteq> 0)"
  using assms(4-)
proof (induction n arbitrary: k s)
  case 0
  then show ?case by simp
next
  case (Suc n)
  have k: "k < length tags" using Suc.prems(2) by simp
  have kc: "k < length cs" using k cs by (simp add: list_all2_lengthD)
  have c: "tag_content (tags ! k) (cs ! k)" using cs k by (rule list_all2_nthD)
  have fe: "feed_enter s" using Suc.prems(4) by (simp add: feed_enter_def)
  obtain s1 where s1: "feed_pass cb s = Inr s1" "at_tag h tags (Suc k) s1" "fed cb (cs ! k) s s1"
    by (rule feed_pass_at [OF cb ok Suc.prems(1) k c Suc.prems(3) fe Suc.prems(5)])
  obtain s2 es where s2: "feed_passes cb n s1 = Inr s2" "at_tag h tags (k + Suc n) s2"
    "event_log s2 = event_log s1 @ es"
    "feed_spec (need_I_frame s1) (is_regulating s1, regulate_tag_count s1) (take n (drop (Suc k) cs)) =
        (es, need_I_frame s2, is_regulating s2, regulate_tag_count s2)"
    "is_playing s2" "\<not> is_pause s2" "need_sleep s2 \<longrightarrow> fps s2 \<noteq> 0"
    using Suc.IH [OF s1(2)] Suc.prems s1(3) by (auto simp: fed_def)
  have "take (Suc n) (drop k cs) = cs ! k # take n (drop (Suc k) cs)"
    using kc by (simp flip: Cons_nth_drop_Suc)
  then show ?case using s1 s2 by (auto simp: fed_def)
qed

text \<open>
  The sleeps of a run that neither regulates nor steps: one after each tag whose callbacks asked for
  it, of a whole number of microseconds.
\<close>

fun sleeps :: "callbacks \<Rightarrow> bool \<Rightarrow> flv_event list \<Rightarrow> flv_content list \<Rightarrow> u32 list" where
  "sleeps cb need past [] = []"
| "sleeps cb need past (c # cs) =
    (let es = content_events need True c in
     (case asked cb past es of None \<Rightarrow> [] | Some f \<Rightarrow> [1000000 div f])
     @ sleeps cb (content_need need c) (past @ es) cs)"

lemma feed_run_sleeps:
  assumes cb: "fps_set cb" and ok: "flv_ok h tags" and cs: "list_all2 tag_content tags cs"
    and "at_tag h tags k s" and "k + n \<le> length tags"
    and "is_playing s" "\<not> is_pause s" "\<not> need_sleep s" "\<not> is_regulating s" "\<not> step_one_frame s"
  shows "\<exists>s'. feed_passes cb n s = Inr s'
    \<and> slept s' = slept s @ sleeps cb (need_I_frame s) (event_log s) (take n (drop k cs))"
  using assms(4-)
proof (induction n arbitrary: k s)
  case 0
  then show ?case by simp
next
  case (Suc n)
  have k: "k < length tags" using Suc.prems(2) by simp
  have kc: "k < length cs" using k cs by (simp add: list_all2_lengthD)
  have c: "tag_content (tags ! k) (cs ! k)" using cs k by (rule list_all2_nthD)
  have fe: "feed_enter s" using Suc.prems(4) by (simp add: feed_enter_def)
  obtain s1 where s1: "feed_pass cb s = Inr s1" "at_tag h tags (Suc k) s1" "fed cb (cs ! k) s s1"
    by (rule feed_pass_at [OF cb ok Suc.prems(1) k c Suc.prems(3) fe]) (use Suc.prems(5) in simp)
  let ?es = "content_events (need_I_frame s) True (cs ! k)"
  have f: "event_log s1 = event_log s @ ?es" "need_I_frame s1 = content_need (need_I_frame s) (cs ! k)"
    "is_playing s1" "\<not> is_pause s1" "\<not> need_sleep s1" "\<not> is_regulating s1" "\<not> step_one_frame s1"
    "slept s1 = slept s @ (case asked cb (event_log s) ?es of None \<Rightarrow> [] | Some f \<Rightarrow> [1000000 div f])"
    using s1(3) Suc.prems by (auto simp: fed_def reg_step_def sleep_after_def split: option.splits)
  have "take (Suc n) (drop k cs) = cs ! k # take n (drop (Suc k) cs)"
    using kc by (simp flip: Cons_nth_drop_Suc)
  then show ?case
    using Suc.IH [OF s1(2) _ f(3-7)] Suc.prems(2) s1(1) f(1,2,8) by (auto simp: Let_def)
qed

lemma feed_idle:
  assumes "flv_ok h tags" and "at_tag h tags (length tags) s"
  shows "feed_passes cb n s = Inr s"
proof (induction n)
  case (Suc n)
  have "cur_idx s + int FLV_HEADER_LENGTH > total_bytes s"
    using assms(2) tag_off_end [OF flv_okD(1) [OF assms(1)], of tags]
    by (simp add: at_tag_def FLV_HEADER_LENGTH_def)
  then show ?case using Suc by (simp add: feed_pass_def feed_locked_def)
qed simp

section \<open>Starting to play\<close>

lemma feed_start:
  assumes ok: "flv_ok h tags" and fs: "fs path = Some (flv_bytes h tags)"
    and s_def: "s = feed_init (start (set_file_path fs path (new_FlvPlayer raw)))"
  obtains s' where "feed_pass cb s = Inr s'" and "at_tag h tags 0 s'"
    and "moved s s'"
proof -
  let ?bs = "flv_bytes h tags"
  have h: "length h = 9" "header_ok h" using flv_okD(1) [OF ok] by (simp_all add: header_ok_def)
  have p: "at_pos ?bs 0 s"
    using fs by (simp add: s_def feed_init_def start_def set_file_path_def new_FlvPlayer_def at_pos_def)
  have f: "is_playing s" "feed_enter s" "cur_idx s = 0" "total_bytes s = int (length ?bs)"
    using fs by (simp_all add: s_def feed_init_def start_def set_file_path_def new_FlvPlayer_def
        feed_enter_def)
  have d: "drop 0 ?bs = h @ ([0, 0, 0, 0] @ concat (map tag_bytes tags))" by (simp add: flv_bytes_def)
  obtain s1 where r: "read_header 0 9 s = Inr (int 9, s1)" and p1: "at_pos ?bs (0 + 9) s1"
    and b: "buf_holds (tag_header s1) 0 ([] @ h)" and m: "moved s s1" and c: "cur_idx s1 = cur_idx s"
    by (rule read_header_at [OF p d, of 9 0 "[]"]) (use h in \<open>simp_all add: TAG_HEADER_SIZE_def buf_holds_Nil\<close>)
  have hd: "is_flv_header (tag_header s1)"
    using b h by (auto simp: is_flv_header_def header_ok_def buf_holds_def)
  let ?s1 = "s1\<lparr>cur_idx := 9\<rparr>"
  let ?s' = "(lseek_cur 4 ?s1)\<lparr>cur_idx := 13\<rparr>"
  have "at_pos ?bs 9 ?s1" using p1 by (simp add: at_pos_def)
  from at_pos_lseek [OF this, of 4] have "at_pos ?bs 13 ?s'" by (simp add: at_pos_def)
  then have "at_tag h tags 0 ?s'" using f m by (simp add: at_tag_def moved_def)
  moreover have "feed_pass cb s = Inr ?s'"
  proof -
    have "\<not> cur_idx s + int FLV_HEADER_LENGTH > total_bytes s"
      using f h by (simp add: flv_bytes_def FLV_HEADER_LENGTH_def)
    then show ?thesis using f r c hd by (simp add: feed_pass_def feed_locked_def FLV_HEADER_LENGTH_def)
  qed
  moreover have "moved s ?s'" using m by (simp add: moved_def lseek_cur_def)
  ultimately show thesis by (intro that [of ?s'])
qed

section \<open>Regulation\<close>

fun shows_picture :: "flv_event \<Rightarrow> bool" where
  "shows_picture (VideoCB _ _ play) = play"
| "shows_picture (AudioCB _ _ _ _) = False"

text \<open>
  The tags fed from an I-frame up to a picture: everything is delivered, marked as not to be shown up
  to the last video tag, and played after it.
\<close>

fun silently :: "flv_content list \<Rightarrow> flv_event list" where
  "silently [] = []"
| "silently (c # cs) = content_events False (\<forall>c' \<in> set (c # cs). \<not> content_video c') c @ silently cs"

lemma feed_spec_silently:
  "feed_spec False (\<exists>c \<in> set cs. content_video c, int (length (filter content_video cs))) cs =
    (silently cs, False, False, 0)"
proof (induction cs)
  case (Cons c cs)
  have n: "content_need False c = False" by (cases c) auto
  have f: "(\<exists>c \<in> set cs. content_video c) = (length (filter content_video cs) \<noteq> 0)"
    by (simp add: filter_empty_conv)
  show ?case
  proof (cases "content_video c")
    case True
    then have "reg_step (content_video c) (\<exists>c \<in> set (c # cs). content_video c, int (length (filter content_video (c # cs)))) =
        (\<exists>c \<in> set cs. content_video c, int (length (filter content_video cs)))"
      unfolding f by (simp add: reg_step_def)
    then show ?thesis using Cons.IH True n by (simp only: feed_spec.simps Let_def case_prod_conv) simp
  next
    case False
    then have "reg_step (content_video c) (\<exists>c \<in> set (c # cs). content_video c, int (length (filter content_video (c # cs)))) =
        (\<exists>c \<in> set cs. content_video c, int (length (filter content_video cs)))"
      by (simp add: reg_step_def)
    then show ?thesis using Cons.IH False n by (simp only: feed_spec.simps Let_def case_prod_conv) simp
  qed
qed simp

lemma silently_shows: "e \<in> set (silently cs) \<Longrightarrow> \<not> shows_picture e"
proof (induction cs)
  case (Cons c cs)
  then show ?case by (cases c) (auto split: if_splits)
qed simp

lemma key_content:
  assumes "tag_content t c" and "is_key t"
  obtains d where "c = Picture True d"
proof -
  have "content_video c" using content_video [OF assms(1)] is_key_video [OF assms(2)] by simp
  moreover have "c \<noteq> Config spss ppss" for spss ppss
  proof
    assume "c = Config spss ppss"
    then have "take 2 (tg_data t) = [0x17, 0]" using assms(1) by simp
    then have "peek t = [0x17, 0]"
      by (cases "tg_data t" rule: remdups_adj.cases) (auto simp: peek_def)
    then show False using assms(2) by (simp add: is_key_def)
  qed
  moreover have "c \<noteq> Picture False d" for d
    using assms by (auto simp: is_key_def peek_def)
  ultimately show thesis using that by (cases c) auto
qed

lemma passed_contents:
  assumes cs: "list_all2 tag_content tags cs" and "i + n \<le> length tags"
  shows "passed tags i (i + n) = int (length (filter content_video (take n (drop i cs))))"
  using assms(2)
proof (induction n)
  case (Suc n)
  have "i + n < length tags" using Suc.prems by simp
  then have "is_video (tags ! (i + n)) = content_video (cs ! (i + n))"
    using content_video list_all2_nthD [OF cs] by blast
  moreover have "take (Suc n) (drop i cs) = take n (drop i cs) @ [cs ! (i + n)]"
    using \<open>i + n < length tags\<close> list_all2_lengthD [OF cs] by (simp add: take_Suc_conv_app_nth)
  ultimately show ?case
    using Suc.IH Suc.prems passed_Suc [of i "i + n" tags] by simp
qed simp

section \<open>A recorded file\<close>

text \<open>Metadata, the parameter sets, an I-frame, a block of audio and two pictures.\<close>

definition demo_tag :: "u8 \<Rightarrow> u8 list \<Rightarrow> flv_tag" where
  "demo_tag ty d = \<lparr>tg_type = ty, tg_rest = replicate 7 0, tg_data = d\<rparr>"

definition demo_flv_header :: "u8 list" where
  "demo_flv_header = [0x46, 0x4C, 0x56, 0x01, 0x05, 0x00, 0x00, 0x00, 0x09]"

definition demo_tags :: "flv_tag list" where
  "demo_tags =
     [demo_tag 18 [2],
      demo_tag 9 ([0x17, 0, 0, 0, 0, 1, 0x64, 0, 0x1F, 0xFF, 0xE1] @ [0, 2, 0x67, 0x64] @ [1] @ [0, 1, 0x68]),
      demo_tag 9 [0x17, 1, 0, 0, 0, 0, 0, 0, 2, 0x65, 0x88],
      demo_tag 8 [0xAE, 1, 0x21],
      demo_tag 9 [0x27, 1, 0, 0, 0, 0, 0, 0, 1, 0x41],
      demo_tag 9 [0x27, 1, 0, 0, 0, 0, 0, 0, 1, 0x42]]"

definition demo_contents :: "flv_content list" where
  "demo_contents =
     [Other, Config [[0x67, 0x64]] [[0x68]], Picture True [0x65, 0x88],
      Audio_Block AUDIO_CHANNEL_MONO [0x21], Picture False [0x41], Picture False [0x42]]"

definition demo_raw :: flv_player where
  "demo_raw = \<lparr>file_path = [], file_fd = None, fps = 0, is_playing = False, is_pause = False,
     need_sleep = False, need_I_frame = False, is_regulating = False, request_step = False,
     step_one_frame = False, regulate_tag_count = 0, feed_thread = False, cur_idx = 0,
     total_bytes = 0, tag_header = \<lparr>buf_cap = 0, buf_at = (\<lambda>_. 0)\<rparr>,
     tag_data = \<lparr>buf_cap = 0, buf_at = (\<lambda>_. 0)\<rparr>, buf_len = 0, event_log = [], slept = []\<rparr>"

definition demo_fs :: "string \<Rightarrow> u8 list option" where
  "demo_fs p = (if p = ''a.flv'' then Some (flv_bytes demo_flv_header demo_tags) else None)"

definition demo_cb :: callbacks where
  "demo_cb es = (case last es of VideoCB NALU_TYPE_OTHER _ _ \<Rightarrow> Some 25 | _ \<Rightarrow> None)"

text \<open>A player of \<open>tags\<close> that stands at the start of tag \<open>k\<close>.\<close>

definition player_at :: "flv_tag list \<Rightarrow> nat \<Rightarrow> flv_player" where
  "player_at tags k = (start (set_file_path (\<lambda>_. Some (flv_bytes demo_flv_header tags)) ''a.flv''
     (new_FlvPlayer demo_raw)))
     \<lparr>file_fd := Some \<lparr>f_bytes = flv_bytes demo_flv_header tags, f_pos = tag_off tags k\<rparr>,
      cur_idx := int (tag_off tags k), total_bytes := int (length (flv_bytes demo_flv_header tags))\<rparr>"

lemma player_at_tag: "k \<le> length tags \<Longrightarrow> at_tag demo_flv_header tags k (player_at tags k)"
  by (simp add: at_tag_def at_pos_def player_at_def start_def set_file_path_def new_FlvPlayer_def)

lemma player_at_sels:
  "is_playing (player_at tags k)" "\<not> is_pause (player_at tags k)"
  "\<not> is_regulating (player_at tags k)" "\<not> need_sleep (player_at tags k)"
  by (simp_all add: player_at_def start_def set_file_path_def new_FlvPlayer_def)

lemma demo_ok: "flv_ok demo_flv_header demo_tags"
  by (simp add: flv_ok_def header_ok_def demo_flv_header_def demo_tags_def demo_tag_def flv_header_def
      tag_ok_def TAG_DATA_SIZE_def flv_bytes_def tag_bytes_def tag_head_def)

lemma demo_contents_ok: "list_all2 tag_content demo_tags demo_contents"
  by (simp add: demo_tags_def demo_contents_def demo_tag_def is_video_def TAG_VIDEO_def TAG_AUDIO_def
      set_bytes16_def be16_bytes_def be32_bytes_def byte_of_def sound_byte_def)

lemma demo_cb_set: "fps_set demo_cb"
  by (simp add: fps_set_def demo_cb_def split: flv_event.splits nalu_type.splits)

lemma demo_keys:
  "map is_key demo_tags = [False, False, True, False, False, False]"
  "map is_nalu demo_tags = [False, False, True, False, True, True]"
  by (simp_all add: demo_tags_def demo_tag_def is_key_def is_nalu_def is_video_def peek_def
      TAG_VIDEO_def)

lemma demo_key:
  "is_key (demo_tags ! 2)" "\<not> is_key (demo_tags ! 3)" "\<not> is_key (demo_tags ! 4)" "\<not> is_key (demo_tags ! 5)"
  using arg_cong [OF demo_keys(1), of "\<lambda>xs. xs ! 2"] arg_cong [OF demo_keys(1), of "\<lambda>xs. xs ! 3"]
    arg_cong [OF demo_keys(1), of "\<lambda>xs. xs ! 4"] arg_cong [OF demo_keys(1), of "\<lambda>xs. xs ! 5"]
  by (simp_all add: demo_tags_def)

lemma demo_dest: "step_dest demo_tags 2 2 = Some 5"
  using demo_keys(2)
  by (simp add: step_dest_def step_raw_def demo_tags_def eval_nat_numeral)

lemma demo_before: "I_frame_before demo_tags 5 = Some 2"
  using demo_key by (simp add: I_frame_before_def eval_nat_numeral)

section \<open>The properties\<close>

text \<open>C14: moving forward by \<open>n\<close> tags and then backward by \<open>n\<close> tags ends where it started, on
  any tag boundary of any well-formed file: reading the 24-bit data sizes forwards and the 32-bit
  previous-tag sizes backwards are inverse to each other, and nothing but the position and the
  read buffers changes.\<close>

theorem move_forward_backward:
  assumes "flv_ok h tags" and "at_tag h tags k s" and "k + n \<le> length tags"
  shows "\<exists>s'. rbind (move_forward n s) (move_backward n) = Inr s' \<and> at_tag h tags k s' \<and> moved s s'"
proof -
  obtain s1 where "move_forward n s = Inr s1" "at_tag h tags (k + n) s1" "moved s s1"
    using move_forward_at [OF assms(1,2), of n] assms(3) by (auto simp: min_def)
  moreover obtain s2 where "move_backward n s1 = Inr s2" "at_tag h tags k s2" "moved s1 s2"
    using move_backward_at [OF assms(1) \<open>at_tag h tags (k + n) s1\<close>, of n] by auto
  ultimately show ?thesis by (auto intro: moved_trans)
qed

theorem move_forward_backward_witness:
  "\<exists>s'. rbind (move_forward 3 (player_at demo_tags 2)) (move_backward 3) = Inr s'
     \<and> at_tag demo_flv_header demo_tags 2 s' \<and> moved (player_at demo_tags 2) s'"
  by (rule move_forward_backward [OF demo_ok player_at_tag]) (simp_all add: demo_tags_def)

text \<open>Playing a well-formed file from the start delivers every tag exactly once and in file
  order: all parameter sets, from the first I-frame on every picture, and all audio, each to be
  shown; after the last tag the loop idles and delivers nothing more.\<close>

lemma play_from_start:
  assumes "fps_set cb" and "flv_ok h tags" and "list_all2 tag_content tags cs"
    and "fs path = Some (flv_bytes h tags)"
  shows "\<exists>s'. (\<forall>n. feed_passes cb (Suc (length tags) + n)
        (feed_init (start (set_file_path fs path (new_FlvPlayer raw)))) = Inr s')
    \<and> event_log s' = fst (feed_spec True (False, 0) cs) \<and> is_playing s'
    \<and> slept s' = sleeps cb True [] cs"
proof -
  define s where "s = feed_init (start (set_file_path fs path (new_FlvPlayer raw)))"
  have f: "is_playing s" "\<not> is_pause s" "\<not> need_sleep s" "\<not> is_regulating s" "need_I_frame s" "event_log s = []"
    "slept s = []" "\<not> step_one_frame s"
    using assms(4) by (simp_all add: s_def feed_init_def start_def set_file_path_def new_FlvPlayer_def)
  obtain s1 where s1: "feed_pass cb s = Inr s1" "at_tag h tags 0 s1" "moved s s1"
    by (rule feed_start [OF assms(2,4) s_def])
  have "take (length tags) cs = cs" using list_all2_lengthD [OF assms(3)] by simp
  then obtain s2 es where s2: "feed_passes cb (length tags) s1 = Inr s2" "at_tag h tags (length tags) s2"
    "event_log s2 = event_log s1 @ es" "is_playing s2"
    "feed_spec (need_I_frame s1) (is_regulating s1, regulate_tag_count s1) cs =
      (es, need_I_frame s2, is_regulating s2, regulate_tag_count s2)"
    using feed_run [OF assms(1-3) s1(2), of "length tags"] f s1(3) by (auto simp: moved_def)
  have "slept s2 = sleeps cb True [] cs"
    using feed_run_sleeps [OF assms(1-3) s1(2), of "length tags"] \<open>take (length tags) cs = cs\<close> s2(1) f s1(3)
    by (auto simp: moved_def)
  have spec: "fst (feed_spec need (False, x) cs) = fst (feed_spec need (False, y) cs)" for need x y
    by (induction cs arbitrary: need) (simp_all add: reg_step_def case_prod_beta)
  have "feed_passes cb (Suc (length tags) + n) s = Inr s2" for n
    using s1(1) s2(1) feed_idle [OF assms(2) s2(2)] by (simp add: feed_passes_add [of cb "length tags"])
  moreover have "event_log s2 = fst (feed_spec True (False, 0) cs)"
    using s2(3,5) f s1(3) spec [of True "regulate_tag_count s1" 0] by (simp add: moved_def)
  ultimately show ?thesis using s2(4) \<open>slept s2 = sleeps cb True [] cs\<close> by (auto simp: s_def)
qed

text \<open>C9: a frame step to a tag that is not an I-frame goes back to the I-frame before it and feeds the
  decoder everything from there: the I-frame and then each parameter set and each picture up to the tag
  asked for, all marked as not to be shown. The player then stands on that tag with the regulation over,
  and the next pass delivers its content, marked to be shown.\<close>

theorem step_regulates:
  assumes "fps_set cb" and "flv_ok h tags" and "list_all2 tag_content tags cs"
    and "at_tag h tags k s" and "n \<noteq> 1" and "step_dest tags (n - 1) k = Some j"
    and "\<not> is_key (tags ! j)" and "I_frame_before tags j = Some i"
    and "is_playing s" and "\<not> is_pause s" and "\<not> is_regulating s" and "need_sleep s \<longrightarrow> fps s \<noteq> 0"
  shows "\<exists>s1 s2 s3 d. step_locked n s = Some (Inr s1) \<and> at_tag h tags i s1
    \<and> cs ! i = Picture True d
    \<and> feed_passes cb (j - i) s1 = Inr s2 \<and> at_tag h tags j s2 \<and> \<not> is_regulating s2
    \<and> event_log s2 = event_log s @ silently (take (j - i) (drop i cs))
    \<and> (\<forall>e \<in> set (silently (take (j - i) (drop i cs))). \<not> shows_picture e)
    \<and> feed_pass cb s2 = Inr s3 \<and> at_tag h tags (Suc j) s3
    \<and> event_log s3 = event_log s2 @ content_events False True (cs ! j)"
proof -
  obtain s1 where s1: "step_locked n s = Some (Inr s1)" and st: "stepped h tags j s s1"
    using step_locked_stepped [OF assms(2,4,5) _ assms(6)] assms(11) by auto
  have at1: "at_tag h tags i s1" and m1: "moved (s\<lparr>request_step := False, is_regulating := True,
      regulate_tag_count := passed tags i j\<rparr>) s1"
    using st assms(7,8) by (simp_all add: stepped_def)
  have ij: "i < j" and key: "is_key (tags ! i)"
    using last_below_SomeD [OF assms(8) [unfolded I_frame_before_def]] by auto
  have j: "j < length tags" using step_dest_less [OF assms(6)] assms(4) by (simp add: at_tag_def)
  define ds where "ds = take (j - i) (drop i cs)"
  have p: "passed tags i j = int (length (filter content_video ds))"
    using passed_contents [OF assms(3), of i "j - i"] ij j by (simp add: ds_def)
  obtain d where d: "cs ! i = Picture True d"
    using key_content [OF list_all2_nthD [OF assms(3), of i] key] ij j by auto
  have ds: "ds = cs ! i # take (j - Suc i) (drop (Suc i) cs)"
  proof -
    have "j - i = Suc (j - Suc i)" using ij by simp
    then show ?thesis
      using ij j list_all2_lengthD [OF assms(3)] by (simp add: ds_def flip: Cons_nth_drop_Suc [of i])
  qed
  have pos: "passed tags i j \<noteq> 0" by (simp add: p ds d)
  obtain s2 es where s2: "feed_passes cb (j - i) s1 = Inr s2" "at_tag h tags j s2"
    "event_log s2 = event_log s1 @ es"
    "feed_spec (need_I_frame s1) (is_regulating s1, regulate_tag_count s1) ds =
      (es, need_I_frame s2, is_regulating s2, regulate_tag_count s2)"
    "is_playing s2" "\<not> is_pause s2" "need_sleep s2 \<longrightarrow> fps s2 \<noteq> 0"
    using feed_run [OF assms(1-3) at1, of "j - i"] ij j assms(9,10,12) m1
    by (auto simp: moved_def ds_def)
  have "feed_spec (need_I_frame s1) (True, passed tags i j) ds = feed_spec False (True, passed tags i j) ds"
    by (simp add: ds d)
  also have "\<dots> = (silently ds, False, False, 0)"
    using feed_spec_silently [of ds] p pos by (simp add: ds d)
  finally have sp: "es = silently ds" "\<not> need_I_frame s2" "\<not> is_regulating s2"
    using s2(4) m1 pos by (auto simp: moved_def)
  have fe: "feed_enter s2" using s2(6) by (simp add: feed_enter_def)
  obtain s3 where s3: "feed_pass cb s2 = Inr s3" "at_tag h tags (Suc j) s3" "fed cb (cs ! j) s2 s3"
    by (rule feed_pass_at [OF assms(1,2) s2(2) j list_all2_nthD [OF assms(3) j] s2(5) fe s2(7)])
  have "event_log s2 = event_log s @ silently ds" using s2(3) sp(1) m1 by (simp add: moved_def)
  moreover have "event_log s3 = event_log s2 @ content_events False True (cs ! j)"
    using s3(3) sp(2,3) by (simp add: fed_def)
  ultimately show ?thesis
    using s1 at1 d s2(1,2) sp(3) s3(1,2) silently_shows unfolding ds_def by blast
qed

theorem step_regulates_witness:
  "\<exists>s1 s2 s3. step_locked 3 (player_at demo_tags 2) = Some (Inr s1)
    \<and> feed_passes demo_cb 3 s1 = Inr s2 \<and> at_tag demo_flv_header demo_tags 5 s2
    \<and> event_log s2 = [VideoCB NALU_TYPE_IDR [0x65, 0x88] False,
        AudioCB AUDIO_DATA AUDIO_CHANNEL_MONO [0x21] False, VideoCB NALU_TYPE_OTHER [0x41] False]
    \<and> feed_pass demo_cb s2 = Inr s3
    \<and> event_log s3 = event_log s2 @ [VideoCB NALU_TYPE_OTHER [0x42] True]"
proof -
  have l: "event_log (player_at demo_tags 2) = []"
    by (simp add: player_at_def start_def set_file_path_def new_FlvPlayer_def)
  have c: "silently (take (5 - 2) (drop 2 demo_contents)) = [VideoCB NALU_TYPE_IDR [0x65, 0x88] False,
        AudioCB AUDIO_DATA AUDIO_CHANNEL_MONO [0x21] False, VideoCB NALU_TYPE_OTHER [0x41] False]"
    "content_events False True (demo_contents ! 5) = [VideoCB NALU_TYPE_OTHER [0x42] True]"
    by (simp_all add: demo_contents_def)
  show ?thesis
    using step_regulates [OF demo_cb_set demo_ok demo_contents_ok player_at_tag, of 2 3 5 2] c l
    by (auto simp: demo_dest demo_before demo_key player_at_sels demo_tags_def [THEN arg_cong [where f = length]])
qed

text \<open>C10: a frame step onto an I-frame stands on it, and onto a frame with no I-frame before it on
  the first tag, waiting for an I-frame; neither leaves the player regulating. In all cases the
  step returns whenever the file has a video tag to stop at.\<close>

theorem step_lands:
  assumes "flv_ok h tags" and "at_tag h tags k s" and "n \<noteq> 1" and "\<not> is_regulating s"
    and "step_dest tags (n - 1) k = Some j"
  shows "\<exists>s'. step_by_frame n s = Some (Inr s') \<and>
    (if is_key (tags ! j) then at_tag h tags j s' \<and> \<not> is_regulating s' \<and> need_I_frame s' = need_I_frame s
     else case I_frame_before tags j of
       Some i \<Rightarrow> at_tag h tags i s' \<and> is_regulating s' \<and> regulate_tag_count s' = passed tags i j
     | None \<Rightarrow> at_tag h tags 0 s' \<and> \<not> is_regulating s' \<and> need_I_frame s')"
proof -
  let ?s = "s\<lparr>request_step := True\<rparr>"
  have "at_tag h tags k ?s" using assms(2) by (simp add: at_tag_def at_pos_def)
  from step_locked_stepped [OF assms(1) this assms(3) _ assms(5)] assms(4)
  obtain s' where "step_locked n ?s = Some (Inr s')" "stepped h tags j ?s s'" by auto
  then show ?thesis
    using assms(4) by (auto simp: step_by_frame_def stepped_def moved_def split: option.splits)
qed

theorem step_lands_witness:
  "\<exists>s'. step_by_frame 3 (player_at demo_tags 2) = Some (Inr s') \<and> is_regulating s'
     \<and> at_tag demo_flv_header demo_tags 2 s'"
  using step_lands [OF demo_ok player_at_tag, of 2 3 5]
  by (auto simp: demo_dest demo_before demo_key player_at_sels demo_tags_def [THEN arg_cong [where f = length]])

text \<open>C16: a forward frame step on a file without a video tag never returns: it reaches the end of
  the file and then searches backward for a video tag for ever, holding the file mutex.\<close>

theorem step_without_video_diverges:
  assumes "flv_ok h tags" and "at_tag h tags k s" and "\<forall>t \<in> set tags. \<not> is_video t"
    and "1 < n" and "\<not> is_regulating s"
  shows "step_by_frame n s = None"
proof -
  let ?s = "s\<lparr>request_step := False, is_regulating := True\<rparr>"
  have at: "at_tag h tags k ?s" using assms(2) by (simp add: at_tag_def at_pos_def)
  have fwd: "\<forall>t \<in> set ts. \<not> is_nalu t \<Longrightarrow> step_fwd (Suc c) ts i = i + length ts" for c ts i
    by (induction "Suc c" ts i rule: step_fwd.induct) auto
  obtain m where m: "nat (n - 1) = Suc m" "sgn (n - 1) = 1" "nat \<bar>n - 1\<bar> = nat (n - 1)"
    using assms(4) by (cases "nat (n - 1)") auto
  have "step_fwd (nat (n - 1)) (drop k tags) k = length tags"
    using fwd [of "drop k tags" m k] m(1) assms(2,3) in_set_dropD
    by (fastforce simp: at_tag_def is_nalu_def)
  then obtain s1 where s1: "step_loop 1 (nat (n - 1)) ?s = Some (Inr s1)" "at_tag h tags (length tags) s1"
    using step_loop_fwd [OF assms(1) at refl, of "nat (n - 1)"] m(1) by auto
  have "at_end s1" using at_end_at [OF assms(1) s1(2)] by simp
  with back_to_video_diverges [OF assms(1,3) s1(2)] s1 m assms(4,5) show ?thesis
    by (simp add: step_by_frame_def step_locked_def Let_def)
qed

theorem step_without_video_diverges_witness:
  "step_by_frame 2 (player_at [demo_tag 18 [2]] 0) = None"
proof (rule step_without_video_diverges)
  show "flv_ok demo_flv_header [demo_tag 18 [2]]"
    by (simp add: flv_ok_def header_ok_def demo_flv_header_def demo_tag_def flv_header_def
        tag_ok_def TAG_DATA_SIZE_def flv_bytes_def tag_bytes_def tag_head_def)
  show "at_tag demo_flv_header [demo_tag 18 [2]] 0 (player_at [demo_tag 18 [2]] 0)"
    by (rule player_at_tag) simp
qed (simp_all add: player_at_sels demo_tag_def is_video_def TAG_VIDEO_def)

lemma single_step_run:
  assumes cb: "fps_set cb" and ok: "flv_ok h tags" and cs: "list_all2 tag_content tags cs"
    and "at_tag h tags k s" and "is_playing s" "is_pause s" "step_one_frame s" "\<not> is_regulating s"
    and "need_sleep s \<longrightarrow> fps s \<noteq> 0" and "k + m < length tags"
    and "\<forall>i < m. \<not> content_picture (cs ! (k + i))" and "content_picture (cs ! (k + m))"
  shows "\<exists>s'. feed_passes cb (Suc m) s = Inr s' \<and> at_tag h tags (Suc (k + m)) s'
    \<and> is_playing s' \<and> is_pause s' \<and> \<not> step_one_frame s'
    \<and> event_log s' = event_log s @ concat (map (content_events (need_I_frame s) True) (take (Suc m) (drop k cs)))"
  using assms(4-)
proof (induction m arbitrary: k s)
  case (0 k s)
  have fe: "feed_enter s" using 0 by (simp add: feed_enter_def)
  have c: "tag_content (tags ! k) (cs ! k)" using cs 0 by (auto intro: list_all2_nthD)
  obtain s1 where "feed_pass cb s = Inr s1" "at_tag h tags (Suc k) s1" "fed cb (cs ! k) s s1"
    by (rule feed_pass_at [OF cb ok 0(1) _ c 0(2) fe 0(6)]) (use 0 in simp)
  moreover have "take (Suc 0) (drop k cs) = [cs ! k]"
    using 0(7) list_all2_lengthD [OF cs] by (simp flip: Cons_nth_drop_Suc)
  ultimately show ?case using 0 by (auto simp: fed_def)
next
  case (Suc m k s)
  have fe: "feed_enter s" using Suc.prems by (simp add: feed_enter_def)
  have c: "tag_content (tags ! k) (cs ! k)" using cs Suc.prems by (auto intro: list_all2_nthD)
  obtain s1 where s1: "feed_pass cb s = Inr s1" "at_tag h tags (Suc k) s1" "fed cb (cs ! k) s s1"
    by (rule feed_pass_at [OF cb ok Suc.prems(1) _ c Suc.prems(2) fe Suc.prems(6)])
      (use Suc.prems in simp)
  have n: "\<not> content_picture (cs ! k)" using Suc.prems(8) by auto
  have i: "\<forall>i < m. \<not> content_picture (cs ! (Suc k + i))"
    using Suc.prems(8) by (metis Suc_less_eq add_Suc_shift)
  have "\<exists>s'. feed_passes cb (Suc m) s1 = Inr s' \<and> at_tag h tags (Suc (Suc k + m)) s'
    \<and> is_playing s' \<and> is_pause s' \<and> \<not> step_one_frame s'
    \<and> event_log s' = event_log s1 @ concat (map (content_events (need_I_frame s1) True) (take (Suc m) (drop (Suc k) cs)))"
    using Suc.prems s1(3) n i
    by (intro Suc.IH [OF s1(2)]) (auto simp: fed_def reg_step_def)
  moreover have "need_I_frame s1 = need_I_frame s"
    using s1(3) n by (cases "cs ! k") (auto simp: fed_def content_picture_def)
  moreover have "event_log s1 = event_log s @ content_events (need_I_frame s) True (cs ! k)"
    using s1(3) Suc.prems(5) by (simp add: fed_def)
  moreover have "take (Suc (Suc m)) (drop k cs) = cs ! k # take (Suc m) (drop (Suc k) cs)"
    using Suc.prems(7) list_all2_lengthD [OF cs] by (simp flip: Cons_nth_drop_Suc)
  ultimately show ?case using s1(1) by auto
qed

text \<open>C15: a single step on a playing file delivers the contents of the tags up to and including the next
  picture, in order and marked to be shown (a picture that waits for an I-frame is passed over), and then
  pauses the player behind it: however long the feeding loop runs on, nothing more is delivered.\<close>

theorem single_step:
  assumes "fps_set cb" and "flv_ok h tags" and "list_all2 tag_content tags cs"
    and "at_tag h tags k s" and "is_playing s" and "\<not> is_regulating s"
    and "need_sleep s \<longrightarrow> fps s \<noteq> 0" and "k + m < length tags"
    and "\<forall>i < m. \<not> content_picture (cs ! (k + i))" and "content_picture (cs ! (k + m))"
  shows "\<exists>s'. (\<forall>n. feed_passes cb (Suc m + n) (step_one_frame_forward s) = Inr s')
    \<and> at_tag h tags (Suc (k + m)) s' \<and> is_pause s' \<and> \<not> step_one_frame s'
    \<and> event_log s' = event_log s @ concat (map (content_events (need_I_frame s) True) (take (Suc m) (drop k cs)))"
proof -
  have at: "at_tag h tags k (step_one_frame_forward s)"
    using assms(4) by (simp add: at_tag_def at_pos_def step_one_frame_forward_def)
  obtain s' where s': "feed_passes cb (Suc m) (step_one_frame_forward s) = Inr s'"
    "at_tag h tags (Suc (k + m)) s'" "is_playing s'" "is_pause s'" "\<not> step_one_frame s'"
    "event_log s' = event_log s @ concat (map (content_events (need_I_frame s) True) (take (Suc m) (drop k cs)))"
    using single_step_run [OF assms(1-3) at, of m] assms(5-)
    by (auto simp: step_one_frame_forward_def)
  have idle: "feed_passes cb n s' = Inr s'" for n
    using s' by (induction n) (simp_all add: feed_pass_def feed_enter_def)
  have "feed_passes cb (Suc m + n) (step_one_frame_forward s) = Inr s'" for n
    unfolding feed_passes_add s'(1) rbind.simps by (rule idle)
  then show ?thesis using s' by blast
qed

theorem single_step_witness:
  "\<exists>s'. (\<forall>n. feed_passes demo_cb (2 + n)
        (step_one_frame_forward ((player_at demo_tags 3)\<lparr>need_I_frame := False\<rparr>)) = Inr s')
    \<and> at_tag demo_flv_header demo_tags 5 s' \<and> is_pause s' \<and> \<not> step_one_frame s'
    \<and> event_log s' = [AudioCB AUDIO_DATA AUDIO_CHANNEL_MONO [0x21] True, VideoCB NALU_TYPE_OTHER [0x41] True]"
proof -
  have at: "at_tag demo_flv_header demo_tags 3 ((player_at demo_tags 3)\<lparr>need_I_frame := False\<rparr>)"
    using player_at_tag [of 3 demo_tags] by (simp add: at_tag_def at_pos_def demo_tags_def)
  have l: "event_log (player_at demo_tags 3) = []"
    by (simp add: player_at_def start_def set_file_path_def new_FlvPlayer_def)
  have c: "\<forall>i < 1. \<not> content_picture (demo_contents ! (3 + i))" "content_picture (demo_contents ! (3 + 1))"
    "concat (map (content_events False True) (take (Suc 1) (drop 3 demo_contents))) =
      [AudioCB AUDIO_DATA AUDIO_CHANNEL_MONO [0x21] True, VideoCB NALU_TYPE_OTHER [0x41] True]"
    by (simp_all add: demo_contents_def content_picture_def)
  show ?thesis
    using single_step [OF demo_cb_set demo_ok demo_contents_ok at, of 1] c l
    by (auto simp: player_at_sels demo_tags_def [THEN arg_cong [where f = length]])
qed

end
