(* ===== verification/Adts.thy ===== *)
theory Adts
  imports Media_Types
begin

text \<open>
  The ADTS headers that \<^verbatim>\<open>src/VideoCtrl.cpp\<close> and
  \<^verbatim>\<open>src/RecordCtrl.cpp\<close> put before each block of AAC data: built once from the
  two bytes of decoder info and patched in place with the length of every block. Both files have
  the same code; the header is the member array of seven bytes.
\<close>

section \<open>The code\<close>

definition info_sampleIdx :: "u8 \<Rightarrow> u8 \<Rightarrow> u32" where
  "info_sampleIdx d0 d1 =
    (let num0 = ucast d0 AND 0x7; num1 = ucast d1 AND 0x80 in push_bit 1 num0 OR drop_bit 7 num1)"

definition info_channelsIdx :: "u8 \<Rightarrow> u32" where
  "info_channelsIdx d1 = drop_bit 3 (ucast d1 AND 0x78)"

definition adts_temp :: "u32 \<Rightarrow> u32 \<Rightarrow> u8 list" where
  "adts_temp sampleIdx channelsIdx =
    (let temp2 = (0x40 :: u8);
         temp2 = (ucast (ucast temp2 OR (push_bit 2 sampleIdx AND 0x3C) :: u32) :: u8);
         temp2 = ucast (ucast temp2 OR (drop_bit 2 (channelsIdx AND 0x4) AND 0x1) :: u32);
         temp3 = (0x00 :: u8);
         temp3 = ucast (ucast temp3 OR (push_bit 6 (channelsIdx AND 0x3) AND 0xC0) :: u32) in
     [0xFF, 0xF1, temp2, temp3, 0x00, 0x1F, 0xFC])"

definition adts_info :: "u8 \<Rightarrow> u8 \<Rightarrow> u8 list" where
  "adts_info d0 d1 = adts_temp (info_sampleIdx d0 d1) (info_channelsIdx d1)"

definition adts_patch :: "u32 \<Rightarrow> u8 list \<Rightarrow> u8 list" where
  "adts_patch len adts_header =
    (let all_len = 7 + len;
         num0 = (ucast (drop_bit 11 (all_len AND 0x1800) AND 0x3) :: u8);
         num1 = (ucast (drop_bit 3 (all_len AND 0x7F8) AND 0xFF) :: u8);
         num2 = (ucast (push_bit 5 (all_len AND 0x7) AND 0xE0) :: u8);
         h = adts_header[3 := adts_header ! 3 AND 0xFC];
         h = h[4 := h ! 4 AND 0x00];
         h = h[5 := h ! 5 AND 0x1F];
         h = h[3 := h ! 3 OR num0];
         h = h[4 := h ! 4 OR num1] in
     h[5 := h ! 5 OR num2])"

section \<open>The fields of an ADTS header\<close>

definition frame_length :: "u8 list \<Rightarrow> u32" where
  "frame_length h =
     push_bit 11 (ucast (h ! 3) AND 0x3) OR push_bit 3 (ucast (h ! 4)) OR drop_bit 5 (ucast (h ! 5))"

definition sampling_index :: "u8 list \<Rightarrow> u32" where
  "sampling_index h = drop_bit 2 (ucast (h ! 2)) AND 0xF"

definition channel_config :: "u8 list \<Rightarrow> u32" where
  "channel_config h = push_bit 2 (ucast (h ! 2) AND 0x1) OR drop_bit 6 (ucast (h ! 3))"

lemma list7:
  assumes "length h = 7"
  obtains a b c d e f g where "h = [a, b, c, d, e, f, g]"
  using assms by (auto simp: eval_nat_numeral length_Suc_conv)

lemma adts_patch_eq:
  "adts_patch len [a, b, c, d, e, f, g] =
    [a, b, c, (d AND 0xFC) OR ucast (drop_bit 11 ((7 + len) AND 0x1800) AND 0x3 :: u32),
     ucast (drop_bit 3 ((7 + len) AND 0x7F8) AND 0xFF :: u32),
     (f AND 0x1F) OR ucast (push_bit 5 ((7 + len) AND 0x7) AND 0xE0 :: u32), g]"
  by (simp add: adts_patch_def Let_def)

text \<open>The bit positions of a word, to be looked at one by one.\<close>

lemma less_8_cases: "(i :: nat) < 8 \<Longrightarrow> i \<in> {7, 6, 5, 4, 3, 2, 1, 0}"
  by (simp flip: lessThan_iff add: lessThan_nat_numeral lessThan_Suc)

lemma less_32_cases:
  "(i :: nat) < 32 \<Longrightarrow> i \<in> {31, 30, 29, 28, 27, 26, 25, 24, 23, 22, 21, 20, 19, 18, 17, 16,
     15, 14, 13, 12, 11, 10, 9, 8, 7, 6, 5, 4, 3, 2, 1, 0}"
  by (simp flip: lessThan_iff add: lessThan_nat_numeral lessThan_Suc)

lemma byte_high_bit: "8 \<le> j \<Longrightarrow> \<not> bit (d :: u8) j"
  using bit_imp_le_length [of d j] by auto

lemma bit_twice: "bit (a * 2 :: u32) j \<longleftrightarrow> 0 < j \<and> j < 32 \<and> bit a (j - 1)"
  by (auto simp: mult.commute [of a 2] bit_double_iff)

lemma frame_length_bits:
  fixes n :: u32 and d f :: u8
  assumes "n < 2 ^ 13"
  shows "frame_length [a, b, c, (d AND 0xFC) OR ucast (drop_bit 11 (n AND 0x1800) AND 0x3),
     ucast (drop_bit 3 (n AND 0x7F8) AND 0xFF), (f AND 0x1F) OR ucast (push_bit 5 (n AND 0x7) AND 0xE0), g] = n"
proof (rule bit_word_eqI)
  fix i :: nat assume "i < LENGTH(32)"
  then have i: "i < 32" by simp
  have hi: "\<not> bit n j" if "13 \<le> j" for j
  proof -
    have "unat (take_bit 13 n) = unat n"
      using assms by (simp add: unsigned_take_bit_eq take_bit_nat_eq_self word_less_nat_alt)
    then have "take_bit 13 n = n" by (rule unsigned_word_eqI)
    then show ?thesis using that by (metis bit_take_bit_iff linorder_not_le)
  qed
  from less_32_cases [OF i] show "bit (frame_length [a, b, c,
     (d AND 0xFC) OR ucast (drop_bit 11 (n AND 0x1800) AND 0x3),
     ucast (drop_bit 3 (n AND 0x7F8) AND 0xFF), (f AND 0x1F) OR ucast (push_bit 5 (n AND 0x7) AND 0xE0), g]) i
     = bit n i"
    by (elim insertE emptyE) (simp_all add: frame_length_def bit_simps hi byte_high_bit)
qed

text \<open>After the patch for a block of \<open>len\<close> bytes the frame-length field of the ADTS header says
  \<open>len + 7\<close>, for every length the 13-bit field can hold and whatever the header held before; the
  fields that the decoder info set are as they were.\<close>

lemma adts_frame_length:
  assumes "length h = 7" and "unat len + 7 < 2 ^ 13"
  shows "frame_length (adts_patch len h) = len + 7
    \<and> sampling_index (adts_patch len h) = sampling_index h
    \<and> channel_config (adts_patch len h) = channel_config h \<and> length (adts_patch len h) = 7"
proof -
  obtain a b c d e f g where h: "h = [a, b, c, d, e, f, g]" by (rule list7 [OF assms(1)])
  have "unat (7 + len) = 7 + unat len" using assms(2) by (simp add: unat_add_lem [THEN iffD1])
  then have "7 + len < 2 ^ 13" using assms(2) by (simp add: word_less_nat_alt)
  from frame_length_bits [OF this] have "frame_length (adts_patch len h) = len + 7"
    unfolding h adts_patch_eq by (simp add: add.commute)
  moreover have "channel_config (adts_patch len h) = channel_config h"
  proof -
    have "drop_bit 6 (ucast ((d AND 0xFC) OR ucast (drop_bit 11 ((7 + len) AND 0x1800) AND 0x3 :: u32) :: u8))
        = (drop_bit 6 (ucast d) :: u32)"
    proof (rule bit_word_eqI)
      fix i :: nat assume "i < LENGTH(32)"
      then have "i < 32" by simp
      from less_32_cases [OF this] show "bit (drop_bit 6 (ucast ((d AND 0xFC) OR
          ucast (drop_bit 11 ((7 + len) AND 0x1800) AND 0x3 :: u32) :: u8)) :: u32) i
          = bit (drop_bit 6 (ucast d) :: u32) i"
        by (elim insertE emptyE) (simp_all add: bit_simps byte_high_bit)
    qed
    then show ?thesis unfolding h adts_patch_eq channel_config_def by simp
  qed
  ultimately show ?thesis unfolding h adts_patch_eq sampling_index_def by simp
qed

text \<open>Patching in place leaves no trace of earlier blocks: after any earlier patch, the header for a
  block is the one it would have been without it.\<close>

lemma adts_patch_forgets:
  assumes "length h = 7"
  shows "adts_patch m (adts_patch len h) = adts_patch m h"
proof -
  obtain a b c d e f g where h: "h = [a, b, c, d, e, f, g]" by (rule list7 [OF assms])
  have "(((d AND 0xFC) OR ucast (drop_bit 11 (n AND 0x1800) AND 0x3 :: u32)) AND 0xFC) = d AND (0xFC :: u8)" for n :: u32
  proof (rule bit_word_eqI)
    fix i :: nat assume "i < LENGTH(8)"
    then have "i < 8" by simp
    from less_8_cases [OF this] show "bit (((d AND 0xFC) OR ucast (drop_bit 11 (n AND 0x1800) AND 0x3 :: u32)) AND 0xFC) i
        = bit (d AND 0xFC) i" by (elim insertE emptyE) (auto simp: bit_simps)
  qed
  moreover have "(((f AND 0x1F) OR ucast (push_bit 5 (n AND 0x7) AND 0xE0 :: u32)) AND 0x1F) = f AND (0x1F :: u8)" for n :: u32
  proof (rule bit_word_eqI)
    fix i :: nat assume "i < LENGTH(8)"
    then have "i < 8" by simp
    from less_8_cases [OF this] show "bit (((f AND 0x1F) OR ucast (push_bit 5 (n AND 0x7) AND 0xE0 :: u32)) AND 0x1F) i
        = bit (f AND 0x1F) i" by (elim insertE emptyE) (auto simp: bit_simps)
  qed
  ultimately show ?thesis unfolding h adts_patch_eq by simp
qed

text \<open>The header built from the decoder info carries its sampling index, and its channel
  configuration when that is below eight; the info has four bits for it and the header three.\<close>

lemma adts_info_fields:
  "sampling_index (adts_info d0 d1) = info_sampleIdx d0 d1
    \<and> channel_config (adts_info d0 d1) = take_bit 3 (info_channelsIdx d1)"
proof
  show "sampling_index (adts_info d0 d1) = info_sampleIdx d0 d1"
  proof (rule bit_word_eqI)
    fix i :: nat assume "i < LENGTH(32)"
    then have "i < 32" by simp
    from less_32_cases [OF this] show "bit (sampling_index (adts_info d0 d1)) i = bit (info_sampleIdx d0 d1) i"
      by (elim insertE emptyE) (simp_all add: sampling_index_def adts_info_def adts_temp_def info_sampleIdx_def
          info_channelsIdx_def Let_def bit_simps bit_twice byte_high_bit)
  qed
  show "channel_config (adts_info d0 d1) = take_bit 3 (info_channelsIdx d1)"
  proof (rule bit_word_eqI)
    fix i :: nat assume "i < LENGTH(32)"
    then have "i < 32" by simp
    from less_32_cases [OF this] show "bit (channel_config (adts_info d0 d1)) i = bit (take_bit 3 (info_channelsIdx d1)) i"
      by (elim insertE emptyE) (simp_all add: channel_config_def adts_info_def adts_temp_def info_sampleIdx_def
          info_channelsIdx_def Let_def bit_simps bit_twice byte_high_bit)
  qed
qed

text \<open>C28: after the patch for a block of \<open>len\<close> bytes the frame-length field of the ADTS header says
  \<open>len + 7\<close>, for every length the 13-bit field can hold and whatever the header held before, earlier
  patches included; the fields that the decoder info set are as they were, and they are the
  sampling index of the info and the low three bits of its channel configuration.\<close>

theorem adts_header:
  assumes "length h = 7" and "unat len + 7 < 2 ^ 13"
  shows "frame_length (adts_patch len h) = len + 7
    \<and> sampling_index (adts_patch len h) = sampling_index h
    \<and> channel_config (adts_patch len h) = channel_config h \<and> length (adts_patch len h) = 7
    \<and> adts_patch len (adts_patch m h) = adts_patch len h
    \<and> sampling_index (adts_info d0 d1) = info_sampleIdx d0 d1
    \<and> channel_config (adts_info d0 d1) = take_bit 3 (info_channelsIdx d1)"
  using adts_frame_length [OF assms] adts_patch_forgets [OF assms(1)] adts_info_fields by simp

theorem adts_header_witness:
  "frame_length (adts_patch 371 (adts_info 0x12 0x10)) = 378
    \<and> sampling_index (adts_patch 371 (adts_info 0x12 0x10)) = 4
    \<and> channel_config (adts_patch 371 (adts_info 0x12 0x10)) = 2"
  using adts_header [of "adts_info 0x12 0x10" 371 0 "0x12" "0x10"]
  by (simp add: adts_info_def adts_temp_def info_sampleIdx_def info_channelsIdx_def sampling_index_def
      channel_config_def)

end
