(* ===== verification/Ffmpeg_Decoder.thy ===== *)
theory Ffmpeg_Decoder
  imports Media_Types
begin

text \<open>
  \<^verbatim>\<open>src/FFmpeg_Decoder.cpp\<close>: the decoding loop both decoders share. The bytes go into
  the input buffer; the parser cuts packets from them; each packet is sent to the codec, whose
  frames are handed to \<open>handleOneFrame\<close>. libavcodec is the parameter \<open>ffmpeg_lib\<close>; a
  call of \<open>avcodec_receive_frame\<close> works on the one frame of the object. The results are
  stored in a \<open>UINT32\<close>, as the source does, so that its tests for negative values never
  succeed. Both loops are partial functions: \<open>None\<close> is a call that never returns.
\<close>

section \<open>The code\<close>

record av_frame =
  fr_width :: int
  fr_height :: int
  fr_nb_samples :: int
  fr_data :: "buffer list"

record ('p, 'c) ffmpeg_lib =
  av_parser_parse2 :: "'p \<Rightarrow> u8 list \<Rightarrow> 'p \<times> int \<times> u8 list"
  avcodec_send_packet :: "'c \<Rightarrow> u8 list \<Rightarrow> 'c \<times> int"
  avcodec_receive_frame :: "'c \<Rightarrow> av_frame \<Rightarrow> 'c \<times> int \<times> av_frame"

record ('p, 'c) decoder =
  codec_parser_ctx :: 'p
  codec_ctx :: 'c
  dec_frame :: av_frame
  inputBuf :: buffer

definition EAGAIN :: int where "EAGAIN = 11"
definition AVERROR :: "int \<Rightarrow> int" where "AVERROR e = - e"
definition AVERROR_EOF :: int where "AVERROR_EOF = - (0x20464F45)"
definition AV_INPUT_BUFFER_PADDING_SIZE :: nat where "AV_INPUT_BUFFER_PADDING_SIZE = 64"
definition INPUT_BUFFER_SIZE :: nat where "INPUT_BUFFER_SIZE = 1920 * 1080 * 2"

definition new_decoder :: "'p \<Rightarrow> 'c \<Rightarrow> av_frame \<Rightarrow> (nat \<Rightarrow> u8) \<Rightarrow> ('p, 'c) decoder" where
  "new_decoder p c fr raw = \<lparr>codec_parser_ctx = p, codec_ctx = c, dec_frame = fr,
     inputBuf = \<lparr>buf_cap = INPUT_BUFFER_SIZE + AV_INPUT_BUFFER_PADDING_SIZE, buf_at = raw\<rparr>\<rparr>"

partial_function (option) receive_frames ::
    "('p, 'c) ffmpeg_lib \<Rightarrow> u32 \<Rightarrow> 'c \<Rightarrow> av_frame \<Rightarrow> av_frame list \<Rightarrow> ('c \<times> av_frame \<times> av_frame list) option"
where
  "receive_frames lib ret c fr out =
    (if ret \<ge> 0 then
       (case avcodec_receive_frame lib c fr of (c, r, fr) \<Rightarrow>
          let ret = (word_of_int r :: u32) in
          if ret = word_of_int (AVERROR EAGAIN) \<or> ret = word_of_int AVERROR_EOF then Some (c, fr, out)
          else if ret < 0 then Some (c, fr, out)
          else receive_frames lib ret c fr (out @ [fr]))
     else Some (c, fr, out))"

partial_function (option) parse_loop ::
    "('p, 'c) ffmpeg_lib \<Rightarrow> nat \<Rightarrow> u32 \<Rightarrow> ('p, 'c) decoder \<Rightarrow> av_frame list \<Rightarrow>
     (('p, 'c) decoder \<times> av_frame list) result option"
where
  "parse_loop lib parserData len d out =
    (if len > 0 then
       (case rd_slice (inputBuf d) parserData (unat len) of Inl e \<Rightarrow> Some (Inl e) | Inr bs \<Rightarrow>
       (case av_parser_parse2 lib (codec_parser_ctx d) bs of (p, r, pkt) \<Rightarrow>
          let ret = (word_of_int r :: u32); d = d\<lparr>codec_parser_ctx := p\<rparr> in
          if ret < 0 then Some (Inl (Exit 1))
          else if pkt = [] then parse_loop lib (parserData + unat ret) (len - ret) d out
          else
            (case avcodec_send_packet lib (codec_ctx d) pkt of (c, errcode) \<Rightarrow>
               if errcode < 0 then Some (Inl (Exit 1))
               else
                 (case receive_frames lib ret c (dec_frame d) [] of None \<Rightarrow> None
                  | Some (c, fr, fs) \<Rightarrow>
                    parse_loop lib (parserData + unat ret) (len - ret)
                      (d\<lparr>codec_ctx := c, dec_frame := fr\<rparr>) (out @ fs)))))
     else Some (Inr (d, out)))"

text \<open>The result lists the frames passed to \<open>handleOneFrame\<close>, in order.\<close>

definition receiveData ::
    "('p, 'c) ffmpeg_lib \<Rightarrow> u8 list \<Rightarrow> ('p, 'c) decoder \<Rightarrow> (('p, 'c) decoder \<times> av_frame list) result option"
where
  "receiveData lib data d =
    (case rbind (wr (inputBuf d) 0 data) (\<lambda>b.
        wr b (length data) (replicate AV_INPUT_BUFFER_PADDING_SIZE 0)) of
       Inl e \<Rightarrow> Some (Inl e)
     | Inr b \<Rightarrow> parse_loop lib 0 (word_of_nat (length data)) (d\<lparr>inputBuf := b\<rparr>) [])"

section \<open>What the library does\<close>

text \<open>
  The calls of the library as relations, in the order in which a stream of data and packets meets
  them. A call of the parser reports how many bytes it has used, none up to all; \<open>cuts\<close> are the
  packets of a whole piece of data. A call of \<open>avcodec_receive_frame\<close> that reports neither "more
  input" nor "end of file" hands over the frame, whatever it reports. A packet can be refused.
\<close>

definition no_more :: "int \<Rightarrow> bool" where
  "no_more r \<longleftrightarrow> (word_of_int r :: u32) \<in> {word_of_int (AVERROR EAGAIN), word_of_int AVERROR_EOF}"

inductive cuts :: "('p, 'c) ffmpeg_lib \<Rightarrow> 'p \<Rightarrow> u8 list \<Rightarrow> u8 list list \<Rightarrow> 'p \<Rightarrow> bool" for lib where
  cuts_end: "cuts lib p [] [] p"
| cuts_call: "bs \<noteq> [] \<Longrightarrow> av_parser_parse2 lib p bs = (p', r, pkt) \<Longrightarrow> 0 \<le> r \<Longrightarrow> r \<le> int (length bs) \<Longrightarrow>
    cuts lib p' (drop (nat r) bs) ps p2 \<Longrightarrow> cuts lib p bs ((if pkt = [] then [] else [pkt]) @ ps) p2"

inductive drains :: "('p, 'c) ffmpeg_lib \<Rightarrow> 'c \<Rightarrow> av_frame \<Rightarrow> av_frame list \<Rightarrow> 'c \<Rightarrow> av_frame \<Rightarrow> bool" for lib where
  drains_end: "avcodec_receive_frame lib c fr = (c', r, fr') \<Longrightarrow> no_more r \<Longrightarrow> drains lib c fr [] c' fr'"
| drains_frame: "avcodec_receive_frame lib c fr = (c1, r, f) \<Longrightarrow> \<not> no_more r \<Longrightarrow> drains lib c1 f fs c' fr' \<Longrightarrow>
    drains lib c fr (f # fs) c' fr'"

inductive decodes ::
    "('p, 'c) ffmpeg_lib \<Rightarrow> 'c \<Rightarrow> av_frame \<Rightarrow> u8 list list \<Rightarrow> av_frame list \<Rightarrow> bool \<Rightarrow> 'c \<Rightarrow> av_frame \<Rightarrow> bool"
  for lib
where
  decodes_end: "decodes lib c fr [] [] True c fr"
| decodes_refused: "avcodec_send_packet lib c p = (c1, e) \<Longrightarrow> e < 0 \<Longrightarrow> decodes lib c fr (p # ps) [] False c1 fr"
| decodes_accepted: "avcodec_send_packet lib c p = (c1, e) \<Longrightarrow> 0 \<le> e \<Longrightarrow> drains lib c1 fr fs c2 fr2 \<Longrightarrow>
    decodes lib c2 fr2 ps gs accepted c3 fr3 \<Longrightarrow> decodes lib c fr (p # ps) (fs @ gs) accepted c3 fr3"

inductive_cases decodes_NilE: "decodes lib c fr [] fs accepted c' fr'"
inductive_cases decodes_ConsE: "decodes lib c fr (p # ps) fs accepted c' fr'"

lemma receive_frames_drains:
  "drains lib c fr fs c' fr' \<Longrightarrow> receive_frames lib ret c fr out = Some (c', fr', out @ fs)"
proof (induction arbitrary: ret out rule: drains.induct)
  case (drains_end c fr c' r fr')
  then show ?case by (subst receive_frames.simps) (auto simp: Let_def no_more_def)
next
  case (drains_frame c fr c1 r f fs c' fr')
  then show ?case by (subst receive_frames.simps) (auto simp: Let_def no_more_def)
qed

text \<open>The loop on a piece of the input buffer.\<close>

lemma parse_loop_run:
  assumes "cuts lib p bs ps p2" and "codec_parser_ctx d = p" and "buf_holds (inputBuf d) off bs" and "length bs < 2 ^ 32"
    and "decodes lib (codec_ctx d) (dec_frame d) ps fs accepted c' fr'"
  shows "parse_loop lib off (word_of_nat (length bs)) d out =
    Some (if accepted then Inr (d\<lparr>codec_parser_ctx := p2, codec_ctx := c', dec_frame := fr'\<rparr>, out @ fs) else Inl (Exit 1))"
  using assms
proof (induction arbitrary: d off out fs rule: cuts.induct)
  case (cuts_end p)
  then show ?case by (subst parse_loop.simps) (auto elim!: decodes_NilE)
next
  case (cuts_call bs p p' r pkt ps p2)
  note r = cuts_call.hyps(3,4)
  have len: "unat (word_of_nat (length bs) :: u32) = length bs"
    using cuts_call.prems(3) by (simp add: unsigned_of_nat take_bit_nat_eq_self)
  have ret: "unat (word_of_int r :: u32) = nat r" using r cuts_call.prems(3) by (intro unat_u32) auto
  have sub: "word_of_nat (length bs) - word_of_int r = (word_of_nat (length (drop (nat r) bs)) :: u32)"
  proof -
    have "(word_of_int r :: u32) = word_of_nat (nat r)" using r(1) by simp
    moreover have "nat r \<le> length bs" using r(2) by simp
    ultimately show ?thesis by (simp only: length_drop of_nat_diff)
  qed
  have pos: "(word_of_nat (length bs) :: u32) > 0"
    unfolding word_less_nat_alt len unat_0 using cuts_call.hyps(1) by blast
  have sl: "rd_slice (inputBuf d) off (unat (word_of_nat (length bs) :: u32)) = Inr bs"
    using rd_slice_holds [OF cuts_call.prems(2)] len by simp
  have rest: "buf_holds (inputBuf d) (off + nat r) (drop (nat r) bs)" "length (drop (nat r) bs) < 2 ^ 32"
    using cuts_call.prems(2,3) r buf_holds_append [of "inputBuf d" off "take (nat r) bs" "drop (nat r) bs"]
    by (auto simp: min_absorb2 nat_le_iff)
  have enter: "parse_loop lib off (word_of_nat (length bs)) d out =
    (let d = d\<lparr>codec_parser_ctx := p'\<rparr>; k = off + nat r; len = word_of_nat (length (drop (nat r) bs)) in
     if pkt = [] then parse_loop lib k len d out
     else case avcodec_send_packet lib (codec_ctx d) pkt of (c, errcode) \<Rightarrow>
       if errcode < 0 then Some (Inl (Exit 1))
       else case receive_frames lib (word_of_int r) c (dec_frame d) [] of None \<Rightarrow> None
         | Some (c, fr, fs) \<Rightarrow> parse_loop lib k len (d\<lparr>codec_ctx := c, dec_frame := fr\<rparr>) (out @ fs))"
    using pos sl cuts_call.hyps(2) cuts_call.prems(1) ret sub
    by (subst parse_loop.simps) (simp add: Let_def del: length_drop split: prod.split option.split)
  show ?case
  proof (cases "pkt = []")
    case True
    then have "decodes lib (codec_ctx d) (dec_frame d) ps fs accepted c' fr'" using cuts_call.prems(4) by simp
    then show ?thesis
      using cuts_call.IH [of "d\<lparr>codec_parser_ctx := p'\<rparr>" "off + nat r" fs out] rest True
      unfolding enter by (simp add: Let_def del: length_drop)
  next
    case False
    then have "decodes lib (codec_ctx d) (dec_frame d) (pkt # ps) fs accepted c' fr'" using cuts_call.prems(4) by simp
    then consider (refused) c1 e where "avcodec_send_packet lib (codec_ctx d) pkt = (c1, e)" "e < 0" "\<not> accepted"
      | (accepted) c1 e gs c2 fr2 hs where "avcodec_send_packet lib (codec_ctx d) pkt = (c1, e)" "0 \<le> e"
        "drains lib c1 (dec_frame d) gs c2 fr2" "decodes lib c2 fr2 ps hs accepted c' fr'" "fs = gs @ hs"
      by (auto elim!: decodes_ConsE)
    then show ?thesis
    proof cases
      case refused
      then show ?thesis using False unfolding enter by (simp add: Let_def)
    next
      case accepted
      then show ?thesis
        using cuts_call.IH [of "d\<lparr>codec_parser_ctx := p', codec_ctx := c2, dec_frame := fr2\<rparr>" "off + nat r" hs "out @ gs"] rest False
          receive_frames_drains [OF accepted(3)]
        unfolding enter by (simp add: Let_def del: length_drop)
    qed
  qed
qed

section \<open>A small codec\<close>

text \<open>A parser that makes packets of two bytes, and a codec that returns a frame for every byte of a packet.\<close>

definition demo_frame :: av_frame where
  "demo_frame = \<lparr>fr_width = 2, fr_height = 2, fr_nb_samples = 0, fr_data = []\<rparr>"

definition demo_ffmpeg :: "(unit, nat) ffmpeg_lib" where
  "demo_ffmpeg = \<lparr>av_parser_parse2 = (\<lambda>p bs. (p, int (length (take 2 bs)), take 2 bs)),
     avcodec_send_packet = (\<lambda>c pkt. if pkt = [9] then (c, - 22) else (length pkt, 0)),
     avcodec_receive_frame = (\<lambda>c fr. if c = 0 then (0, AVERROR EAGAIN, fr) else (c - 1, 0, fr\<lparr>fr_nb_samples := int c\<rparr>))\<rparr>"

lemma demo_cuts: "cuts demo_ffmpeg () [1, 2, 3] [[1, 2], [3]] ()" "cuts demo_ffmpeg () [1, 2, 9] [[1, 2], [9]] ()"
proof -
  have two: "cuts demo_ffmpeg () [1, 2, b] [[1, 2], [b]] ()" for b
  proof -
    have "cuts demo_ffmpeg () [b] ((if [b] = [] then [] else [[b]]) @ []) ()"
      by (rule cuts_call [where r = 1 and pkt = "[b]"]) (simp_all add: demo_ffmpeg_def cuts_end)
    then have "cuts demo_ffmpeg () [1, 2, b] ((if [1, 2] = ([] :: u8 list) then [] else [[1, 2]]) @ [[b]]) ()"
      by (intro cuts_call [where r = 2 and pkt = "[1, 2]"]) (simp_all add: demo_ffmpeg_def)
    then show ?thesis by simp
  qed
  show "cuts demo_ffmpeg () [1, 2, 3] [[1, 2], [3]] ()" "cuts demo_ffmpeg () [1, 2, 9] [[1, 2], [9]] ()" by (rule two)+
qed

definition samples :: "int \<Rightarrow> av_frame" where
  "samples n = demo_frame\<lparr>fr_nb_samples := n\<rparr>"

lemma demo_more: "no_more (AVERROR EAGAIN)" "\<not> no_more 0"
  by (simp_all add: no_more_def AVERROR_def EAGAIN_def AVERROR_EOF_def)

lemma demo_drains:
  "drains demo_ffmpeg 2 demo_frame [samples 2, samples 1] 0 (samples 1)"
  "drains demo_ffmpeg 1 (samples 1) [samples 1] 0 (samples 1)"
proof -
  have e: "drains demo_ffmpeg 0 (samples 1) [] 0 (samples 1)"
    by (rule drains_end [OF _ demo_more(1)]) (simp add: demo_ffmpeg_def)
  have s: "avcodec_receive_frame demo_ffmpeg 1 (samples n) = (0, 0, samples 1)" for n
    by (simp add: demo_ffmpeg_def samples_def)
  show "drains demo_ffmpeg 1 (samples 1) [samples 1] 0 (samples 1)" by (rule drains_frame [OF s demo_more(2) e])
  show "drains demo_ffmpeg 2 demo_frame [samples 2, samples 1] 0 (samples 1)"
    by (rule drains_frame [OF _ demo_more(2) drains_frame [OF s demo_more(2) e]]) (simp add: demo_ffmpeg_def samples_def)
qed

lemma demo_decodes:
  "decodes demo_ffmpeg 0 demo_frame [[1, 2], [3]] [samples 2, samples 1, samples 1] True 0 (samples 1)"
  "decodes demo_ffmpeg 0 demo_frame [[1, 2], [9]] [samples 2, samples 1] False 0 (samples 1)"
proof -
  have a: "avcodec_send_packet demo_ffmpeg 0 [1, 2] = (2, 0)" "avcodec_send_packet demo_ffmpeg 0 [3] = (1, 0)"
    "avcodec_send_packet demo_ffmpeg 0 [9] = (0, - 22)" by (simp_all add: demo_ffmpeg_def)
  show "decodes demo_ffmpeg 0 demo_frame [[1, 2], [3]] [samples 2, samples 1, samples 1] True 0 (samples 1)"
    using decodes_accepted [OF a(1) _ demo_drains(1) decodes_accepted [OF a(2) _ demo_drains(2) decodes_end]] by simp
  show "decodes demo_ffmpeg 0 demo_frame [[1, 2], [9]] [samples 2, samples 1] False 0 (samples 1)"
    using decodes_accepted [OF a(1) _ demo_drains(1) decodes_refused [OF a(3)]] by simp
qed

section \<open>The properties\<close>

text \<open>C26: \<open>receiveData\<close> on data that fit the input buffer cuts them into the packets of the parser and
  sends these to the codec one after the other; it hands over the frame of every call of
  \<open>avcodec_receive_frame\<close> that reports neither "more input" nor "end of file", each once and in
  order; and it returns, as long as the parser gets through the data and the codec reports one of the
  two after each packet. The first packet the codec refuses ends the process.\<close>

theorem receiveData_delivers:
  assumes "cuts lib (codec_parser_ctx d) data ps p"
    and "decodes lib (codec_ctx d) (dec_frame d) ps fs accepted c fr"
    and "buf_cap (inputBuf d) = INPUT_BUFFER_SIZE + AV_INPUT_BUFFER_PADDING_SIZE"
    and "length data \<le> INPUT_BUFFER_SIZE"
  shows "\<exists>b. receiveData lib data d = Some (if accepted
      then Inr (d\<lparr>inputBuf := b, codec_parser_ctx := p, codec_ctx := c, dec_frame := fr\<rparr>, fs)
      else Inl (Exit 1))
    \<and> buf_cap b = INPUT_BUFFER_SIZE + AV_INPUT_BUFFER_PADDING_SIZE"
proof -
  obtain b where b: "wr (inputBuf d) 0 data = Inr b" using wr_ok [of 0 data "inputBuf d"] assms(3,4) by auto
  obtain b' where b': "wr b (length data) (replicate AV_INPUT_BUFFER_PADDING_SIZE 0) = Inr b'"
    using wr_ok [of "length data" "replicate AV_INPUT_BUFFER_PADDING_SIZE 0" b] wr_cap [OF b] assms(3,4) by auto
  have h: "buf_holds b' 0 data" using wr_keeps [OF b' wr_holds [OF b]] by simp
  have l: "length data < 2 ^ 32" using assms(4) by (simp add: INPUT_BUFFER_SIZE_def)
  have "buf_cap b' = INPUT_BUFFER_SIZE + AV_INPUT_BUFFER_PADDING_SIZE"
    using wr_cap [OF b] wr_cap [OF b'] assms(3) by simp
  then show ?thesis
    using parse_loop_run [OF assms(1), of "d\<lparr>inputBuf := b'\<rparr>" 0 fs accepted c fr "[]"] assms(2) h l b b'
    by (auto simp: receiveData_def)
qed

theorem receiveData_delivers_witness:
  "\<exists>d'. receiveData demo_ffmpeg [1, 2, 3] (new_decoder () 0 demo_frame (\<lambda>_. 0)) =
      Some (Inr (d', [samples 2, samples 1, samples 1]))
    \<and> receiveData demo_ffmpeg [1, 2, 9] (new_decoder () 0 demo_frame (\<lambda>_. 0)) = Some (Inl (Exit 1))"
proof -
  let ?d = "new_decoder () 0 demo_frame (\<lambda>_. 0) :: (unit, nat) decoder"
  have d: "codec_parser_ctx ?d = ()" "codec_ctx ?d = 0" "dec_frame ?d = demo_frame"
    "buf_cap (inputBuf ?d) = INPUT_BUFFER_SIZE + AV_INPUT_BUFFER_PADDING_SIZE" by (simp_all add: new_decoder_def)
  have l: "length [1, 2, b :: u8] \<le> INPUT_BUFFER_SIZE" for b by (simp add: INPUT_BUFFER_SIZE_def)
  show ?thesis
    using receiveData_delivers [OF _ _ d(4) l, where lib = demo_ffmpeg, unfolded d, OF demo_cuts(1) demo_decodes(1)]
      receiveData_delivers [OF _ _ d(4) l, where lib = demo_ffmpeg, unfolded d, OF demo_cuts(2) demo_decodes(2)]
    by auto
qed

text \<open>An error of the codec other than "more input" and "end of file" is not noticed: the result is
  unsigned, so as long as the codec keeps reporting it, the loop goes on for ever.\<close>

theorem codec_error_diverges:
  fixes lib :: "('p, 'c) ffmpeg_lib"
  assumes "\<forall>c fr. \<exists>c' fr'. avcodec_receive_frame lib c fr = (c', e, fr')"
    and "(word_of_int e :: u32) \<notin> {word_of_int (AVERROR EAGAIN), word_of_int AVERROR_EOF}"
  shows "receive_frames lib ret c fr out = None"
proof -
  have "False" if "receive_frames lib ret c fr out = Some r" for ret c fr out r
  proof (rule receive_frames.raw_induct [where P = "\<lambda>l ret c fr out r. l = lib \<longrightarrow> False",
      OF _ that, THEN mp, OF _ refl])
    fix f and l :: "('p, 'c) ffmpeg_lib" and ret :: u32 and c fr out r
    assume IH: "\<And>l ret c fr out r. f l ret c fr out = Some r \<Longrightarrow> l = lib \<longrightarrow> False"
      and body: "(if ret \<ge> 0 then
       (case avcodec_receive_frame l c fr of (c, r, fr) \<Rightarrow>
          let ret = (word_of_int r :: u32) in
          if ret = word_of_int (AVERROR EAGAIN) \<or> ret = word_of_int AVERROR_EOF then Some (c, fr, out)
          else if ret < 0 then Some (c, fr, out)
          else f l ret c fr (out @ [fr]))
     else Some (c, fr, out)) = Some r"
    show "l = lib \<longrightarrow> False"
    proof
      assume l: "l = lib"
      obtain c' fr' where "avcodec_receive_frame lib c fr = (c', e, fr')" using assms(1) by blast
      then have "f lib (word_of_int e) c' fr' (out @ [fr']) = Some r"
        using body l assms(2) by (auto simp: Let_def)
      from IH [OF this] show False by simp
    qed
  qed
  then show ?thesis by (cases "receive_frames lib ret c fr out") auto
qed

theorem codec_error_diverges_witness:
  "receive_frames (demo_ffmpeg\<lparr>avcodec_receive_frame := (\<lambda>c fr. (c, - 22, fr))\<rparr>) 0 1 demo_frame [] = None"
  by (rule codec_error_diverges [where e = "- 22"])
    (simp_all add: AVERROR_def EAGAIN_def AVERROR_EOF_def)

text \<open>A negative result of the parser does not end the process with the error message either: it is
  taken for a huge length, and the next round reads outside the input buffer.\<close>

lemma parser_error_not_noticed:
  assumes "\<forall>p bs. av_parser_parse2 lib p bs = (p, - 1, [])" and "0 < len"
    and "buf_cap (inputBuf d) = INPUT_BUFFER_SIZE + AV_INPUT_BUFFER_PADDING_SIZE"
    and "off + unat len \<le> buf_cap (inputBuf d)"
  shows "parse_loop lib off len d out = Some (Inl OutOfBounds)"
proof -
  have m1: "unat (- 1 :: u32) = 2 ^ 32 - 1" by (simp add: unsigned_minus_1_eq_mask mask_eq_exp_minus_1)
  have small: "unat len < 2 ^ 32 - 1"
    using assms(3,4) by (simp add: INPUT_BUFFER_SIZE_def AV_INPUT_BUFFER_PADDING_SIZE_def)
  have l1: "unat (len + 1) = unat len + 1"
    using small by (simp add: unat_add_lem [THEN iffD1])
  then have "0 < len + 1" by (simp add: word_less_nat_alt)
  moreover have "rd_slice (inputBuf d) (off + (2 ^ 32 - 1)) (unat (len + 1)) = Inl OutOfBounds"
    using assms(3) by (simp add: rd_slice_def INPUT_BUFFER_SIZE_def AV_INPUT_BUFFER_PADDING_SIZE_def)
  ultimately have two: "parse_loop lib (off + (2 ^ 32 - 1)) (len + 1) d out = Some (Inl OutOfBounds)"
    by (subst parse_loop.simps) simp
  have "rd_slice (inputBuf d) off (unat len) = Inr (map (buf_at (inputBuf d)) [off..<off + unat len])"
    using assms(4) by (simp add: rd_slice_def)
  then have "parse_loop lib off len d out = parse_loop lib (off + (2 ^ 32 - 1)) (len + 1) d out"
    using assms(1,2) m1 by (subst parse_loop.simps) (simp add: Let_def)
  with two show ?thesis by simp
qed

end
