(* ===== verification/Frame_Decoders.thy ===== *)
theory Frame_Decoders
  imports Ffmpeg_Decoder
begin

text \<open>
  What the two decoders do with a decoded frame: \<^verbatim>\<open>src/H264Decoder.cpp\<close> copies
  the three planes of a picture behind each other, \<^verbatim>\<open>src/AACDecoder.cpp\<close>
  interleaves the samples of the channels. A plane is the memory its pointer refers to; a missing
  plane is a null pointer. The result is the argument of the callback: the bytes and their number.
\<close>

definition plane :: "av_frame \<Rightarrow> nat \<Rightarrow> buffer result" where
  "plane fr i = (if i < length (fr_data fr) then Inr (fr_data fr ! i) else Inl NullDeref)"

text \<open>\<open>memcpy(buf + off, plane, n)\<close>; a negative \<open>n\<close> is converted to a huge size.\<close>

definition copy_plane :: "buffer \<Rightarrow> int \<Rightarrow> buffer \<Rightarrow> int \<Rightarrow> buffer result" where
  "copy_plane buf off pl n =
    (if n < 0 \<or> off < 0 then Inl OutOfBounds
     else rbind (rd_slice pl 0 (nat n)) (\<lambda>bs. wr buf (nat off) bs))"

section \<open>Pictures\<close>

definition H264_BUF_SIZE :: nat where "H264_BUF_SIZE = 1920 * 1080 * 3 div 2"

record picture_out =
  out_data :: "u8 list"
  out_len :: u32
  out_width :: u32
  out_height :: u32
  out_fps :: u32

definition h264_handleOneFrame :: "u32 \<Rightarrow> av_frame \<Rightarrow> buffer \<Rightarrow> (buffer \<times> picture_out) result" where
  "h264_handleOneFrame fps fr buf =
    (let width = (word_of_int (fr_width fr) :: u32); height = word_of_int (fr_height fr);
         ysize = sint (width * height); uvsize = drop_bit 2 ysize;
         bufsize = ysize + push_bit 1 uvsize in
     rbind (plane fr 0) (\<lambda>p0. rbind (copy_plane buf 0 p0 ysize) (\<lambda>buf.
     rbind (plane fr 1) (\<lambda>p1. rbind (copy_plane buf ysize p1 uvsize) (\<lambda>buf.
     rbind (plane fr 2) (\<lambda>p2. rbind (copy_plane buf (ysize + uvsize) p2 uvsize) (\<lambda>buf.
     rbind (rd_slice buf 0 (nat bufsize)) (\<lambda>d.
       Inr (buf, \<lparr>out_data = d, out_len = word_of_int bufsize, out_width = width,
         out_height = height, out_fps = fps\<rparr>)))))))))"

section \<open>Sound\<close>

definition AAC_BUF_SIZE :: nat where "AAC_BUF_SIZE = 1024 * 1024"

text \<open>\<open>bps\<close>: the bytes of a sample; \<open>channels\<close>: the channels of the codec context.\<close>

definition aac_channel ::
    "nat \<Rightarrow> av_frame \<Rightarrow> nat \<Rightarrow> nat \<Rightarrow> buffer \<times> nat \<Rightarrow> (buffer \<times> nat) result" where
  "aac_channel bps fr i ch = (\<lambda>(buf, len).
     rbind (plane fr ch) (\<lambda>p. rbind (rd_slice p (bps * i) bps) (\<lambda>d.
     rbind (wr buf len d) (\<lambda>buf. Inr (buf, len + bps)))))"

definition aac_handleOneFrame :: "nat \<Rightarrow> nat \<Rightarrow> av_frame \<Rightarrow> buffer \<Rightarrow> (buffer \<times> u8 list) result" where
  "aac_handleOneFrame bps channels fr buf =
     rbind (for_range 0 (nat (fr_nb_samples fr))
         (\<lambda>i. for_range 0 channels (aac_channel bps fr i)) (buf, 0)) (\<lambda>(buf, len).
     rbind (rd_slice buf 0 len) (\<lambda>d. Inr (buf, d)))"

section \<open>What they compute\<close>

lemma copy_plane_ok:
  assumes "buf_holds pl 0 bs" and "off + length bs \<le> buf_cap buf"
  obtains buf' where "copy_plane buf (int off) pl (int (length bs)) = Inr buf'"
    and "wr buf off bs = Inr buf'"
  using wr_ok [OF assms(2)] rd_slice_holds [OF assms(1)] by (auto simp: copy_plane_def)

text \<open>C25: a decoded picture of at most 1920 by 1080 is handed on as the width times height first bytes of
  its luma memory followed by a quarter as many of each chroma memory, with its own width and height,
  the number of these bytes and the frame rate of the stream; nothing of the old contents of the output
  buffer is left among them.\<close>

theorem h264_planes:
  assumes "fr_data fr = [p0, p1, p2]" and "0 \<le> fr_width fr" and "0 \<le> fr_height fr"
    and "fr_width fr < 2 ^ 31" and "fr_height fr < 2 ^ 31"
    and "fr_width fr * fr_height fr \<le> 1920 * 1080"
    and "buf_holds p0 0 y" and "int (length y) = fr_width fr * fr_height fr"
    and "buf_holds p1 0 u" and "buf_holds p2 0 v"
    and "length u = length y div 4" and "length v = length y div 4"
    and "buf_cap buf = H264_BUF_SIZE"
  shows "\<exists>buf' po. h264_handleOneFrame fps fr buf = Inr (buf', po) \<and> out_data po = y @ u @ v
    \<and> unat (out_len po) = length (y @ u @ v)
    \<and> uint (out_width po) = fr_width fr \<and> uint (out_height po) = fr_height fr
    \<and> out_fps po = fps \<and> buf_cap buf' = H264_BUF_SIZE"
proof -
  let ?y = "length y" and ?q = "length y div 4"
  have y: "?y \<le> 1920 * 1080" using assms(6,8) by linarith
  have "(word_of_int (fr_width fr) * word_of_int (fr_height fr) :: u32) = word_of_int (int ?y)"
    using assms(8) by simp
  then have ysize: "sint (word_of_int (fr_width fr) * word_of_int (fr_height fr) :: u32) = int ?y"
    using y sint_u32 [of "int ?y"] by (simp only:) simp
  have uv: "drop_bit 2 (int ?y) = int ?q" by (simp add: drop_bit_eq_div zdiv_int)
  have sz: "int ?y + push_bit 1 (int ?q) = int (?y + 2 * ?q)" by (simp add: push_bit_eq_mult)
  have cap: "?y + 2 * ?q \<le> buf_cap buf" using y assms(13) by (simp add: H264_BUF_SIZE_def)
  obtain b1 where b1: "copy_plane buf (int 0) p0 (int ?y) = Inr b1" "wr buf 0 y = Inr b1"
    by (rule copy_plane_ok [OF assms(7), of 0 buf]) (use cap in auto)
  obtain b2 where b2: "copy_plane b1 (int ?y) p1 (int (length u)) = Inr b2" "wr b1 ?y u = Inr b2"
    by (rule copy_plane_ok [OF assms(9), of ?y b1]) (use cap assms(11) wr_cap [OF b1(2)] in auto)
  obtain b3 where b3: "copy_plane b2 (int (?y + ?q)) p2 (int (length v)) = Inr b3" "wr b2 (?y + ?q) v = Inr b3"
    by (rule copy_plane_ok [OF assms(10), of "?y + ?q" b2])
      (use cap assms(11,12) wr_cap [OF b1(2)] wr_cap [OF b2(2)] in auto)
  have "buf_holds b1 0 y" using wr_holds [OF b1(2)] .
  from wr_keeps [OF b2(2) this] have "buf_holds b2 0 (y @ u)"
    using wr_holds [OF b2(2)] by (simp add: buf_holds_append)
  from wr_keeps [OF b3(2) this] have h: "buf_holds b3 0 (y @ u @ v)"
    using wr_holds [OF b3(2)] assms(11) by (simp add: buf_holds_append)
  have len: "length (y @ u @ v) = ?y + 2 * ?q" using assms(11,12) by simp
  have s: "rd_slice b3 0 (?y + 2 * ?q) = Inr (y @ u @ v)" using rd_slice_holds [OF h] unfolding len .
  have nt: "nat (int ?y + 2 * int ?q) = ?y + 2 * ?q" by arith
  have run: "h264_handleOneFrame fps fr buf = Inr (b3, \<lparr>out_data = y @ u @ v,
      out_len = word_of_int (int (?y + 2 * ?q)), out_width = word_of_int (fr_width fr),
      out_height = word_of_int (fr_height fr), out_fps = fps\<rparr>)"
    unfolding h264_handleOneFrame_def Let_def ysize uv sz
    using b1(1) b2(1) b3(1) s assms(11,12) by (simp add: plane_def assms(1) nt)
  moreover have "unat (word_of_int (int (?y + 2 * ?q)) :: u32) = ?y + 2 * ?q"
    using y by (subst unat_u32) auto
  moreover have "buf_cap b3 = H264_BUF_SIZE"
    using wr_cap [OF b1(2)] wr_cap [OF b2(2)] wr_cap [OF b3(2)] assms(13) by simp
  moreover have "uint (word_of_int (fr_width fr) :: u32) = fr_width fr"
    using assms(2,4) by (simp add: uint_word_of_int)
  moreover have "uint (word_of_int (fr_height fr) :: u32) = fr_height fr"
    using assms(3,5) by (simp add: uint_word_of_int)
  ultimately show ?thesis using len by auto
qed

text \<open>The samples of one instant, channel by channel.\<close>

definition instant :: "nat \<Rightarrow> u8 list list \<Rightarrow> nat \<Rightarrow> nat \<Rightarrow> u8 list" where
  "instant bps chs i n = concat (map (\<lambda>ch. take bps (drop (bps * i) ch)) (take n chs))"

definition interleaved :: "nat \<Rightarrow> u8 list list \<Rightarrow> nat \<Rightarrow> u8 list" where
  "interleaved bps chs n = concat (map (\<lambda>i. instant bps chs i (length chs)) [0..<n])"

definition channels_hold :: "av_frame \<Rightarrow> nat \<Rightarrow> u8 list list \<Rightarrow> bool" where
  "channels_hold fr n chs \<longleftrightarrow> length (fr_data fr) = length chs
     \<and> (\<forall>ch < length chs. buf_holds (fr_data fr ! ch) 0 (chs ! ch) \<and> length (chs ! ch) = n)"

lemma aac_channel_ok:
  assumes "channels_hold fr (bps * n) chs" and "ch < length chs" and "i < n"
    and "buf_holds buf 0 acc" and "length acc + bps \<le> buf_cap buf"
  shows "\<exists>buf'. aac_channel bps fr i ch (buf, length acc) = Inr (buf', length acc + bps)
    \<and> buf_holds buf' 0 (acc @ take bps (drop (bps * i) (chs ! ch))) \<and> buf_cap buf' = buf_cap buf"
proof -
  let ?d = "take bps (drop (bps * i) (chs ! ch))"
  have h: "buf_holds (fr_data fr ! ch) 0 (chs ! ch)" "length (chs ! ch) = bps * n"
    using assms(1,2) by (auto simp: channels_hold_def)
  have "bps * i + bps \<le> bps * n" using assms(3) by (metis mult_Suc_right Suc_leI mult_le_mono2 add.commute)
  then have d: "length ?d = bps" using h(2) by simp
  have "take (bps * i) (chs ! ch) @ ?d @ drop bps (drop (bps * i) (chs ! ch)) = chs ! ch"
    by (simp only: append_take_drop_id)
  then have all: "buf_holds (fr_data fr ! ch) 0
      (take (bps * i) (chs ! ch) @ ?d @ drop bps (drop (bps * i) (chs ! ch)))"
    using h(1) by simp
  have "buf_holds (fr_data fr ! ch) (bps * i) ?d"
  proof -
    have "min (bps * n) (bps * i) = bps * i" using \<open>bps * i + bps \<le> bps * n\<close> by simp
    then show ?thesis
      using all h(2) by (simp add: buf_holds_append)
  qed
  then have s: "rd_slice (fr_data fr ! ch) (bps * i) bps = Inr ?d" using rd_slice_holds d by metis
  obtain b where w: "wr buf (length acc) ?d = Inr b" using wr_ok [of "length acc" ?d buf] assms(5) d by auto
  have "buf_holds b 0 (acc @ ?d)" using wr_keeps [OF w assms(4)] wr_holds [OF w] by (simp add: buf_holds_append)
  moreover have "plane fr ch = Inr (fr_data fr ! ch)"
    using assms(1,2) by (simp add: plane_def channels_hold_def)
  ultimately show ?thesis using s w wr_cap [OF w] by (simp add: aac_channel_def)
qed

lemma instant_Suc:
  "n < length chs \<Longrightarrow>
   instant bps chs i (Suc n) = instant bps chs i n @ take bps (drop (bps * i) (chs ! n))"
  by (simp add: instant_def take_Suc_conv_app_nth)

lemma length_instant:
  assumes "\<forall>ch < length chs. length (chs ! ch) = bps * n" and "i < n" and "k \<le> length chs"
  shows "length (instant bps chs i k) = k * bps"
  using assms(3)
proof (induction k)
  case (Suc k)
  have "bps * i + bps \<le> bps * n" using assms(2) by (metis mult_Suc_right Suc_leI mult_le_mono2 add.commute)
  then show ?case using Suc assms(1) by (simp add: instant_Suc)
qed (simp add: instant_def)

lemma aac_instant_ok:
  assumes c: "channels_hold fr (bps * n) chs" and i: "i < n"
    and b: "buf_holds buf 0 acc" and l: "length acc + length chs * bps \<le> buf_cap buf"
  shows "\<exists>buf'. for_range 0 (length chs) (aac_channel bps fr i) (buf, length acc) =
      Inr (buf', length acc + length chs * bps)
    \<and> buf_holds buf' 0 (acc @ instant bps chs i (length chs)) \<and> buf_cap buf' = buf_cap buf"
proof -
  have all: "\<forall>ch < length chs. length (chs ! ch) = bps * n" using c by (simp add: channels_hold_def)
  let ?P = "\<lambda>k (buf', len). k \<le> length chs \<and> len = length acc + k * bps
    \<and> buf_holds buf' 0 (acc @ instant bps chs i k) \<and> buf_cap buf' = buf_cap buf"
  have "\<exists>s'. for_range 0 (length chs) (aac_channel bps fr i) (buf, length acc) = Inr s' \<and> ?P (0 + length chs) s'"
  proof (rule for_range_inv)
    show "?P 0 (buf, length acc)" using b by (simp add: instant_def)
  next
    fix k s assume k: "k < 0 + length chs" and P: "?P k s"
    obtain b' len where s: "s = (b', len)" by (cases s)
    have li: "length (acc @ instant bps chs i k) = len"
      using length_instant [OF all i, of k] k P s by simp
    have "k * bps + bps \<le> length chs * bps"
      using k by (metis add.left_neutral mult_Suc Suc_leI mult_le_mono1 add.commute)
    then have fit: "length (acc @ instant bps chs i k) + bps \<le> buf_cap b'" using li P s l by simp
    have h: "buf_holds b' 0 (acc @ instant bps chs i k)" using P s by simp
    from aac_channel_ok [OF c _ i h fit, of k] k
    show "\<exists>s'. aac_channel bps fr i k s = Inr s' \<and> ?P (Suc k) s'"
      using P s li by (auto simp: instant_Suc)
  qed
  then show ?thesis by auto
qed

text \<open>A decoded block of sound is handed on with the samples of its channels interleaved: for every
  instant the sample of each channel in turn, every byte exactly once, as long as the block fits the
  output buffer.\<close>

lemma aac_interleaves:
  assumes "channels_hold fr (bps * nat (fr_nb_samples fr)) chs"
    and "nat (fr_nb_samples fr) * (length chs * bps) \<le> buf_cap buf"
  shows "\<exists>buf'. aac_handleOneFrame bps (length chs) fr buf =
    Inr (buf', interleaved bps chs (nat (fr_nb_samples fr)))"
proof -
  let ?n = "nat (fr_nb_samples fr)"
  have all: "\<forall>ch < length chs. length (chs ! ch) = bps * ?n" using assms(1) by (simp add: channels_hold_def)
  let ?P = "\<lambda>k (buf', len). len = k * (length chs * bps) \<and> length (interleaved bps chs k) = len
    \<and> buf_holds buf' 0 (interleaved bps chs k) \<and> buf_cap buf' = buf_cap buf"
  have "\<exists>s'. for_range 0 ?n (\<lambda>i. for_range 0 (length chs) (aac_channel bps fr i)) (buf, 0) = Inr s'
      \<and> ?P (0 + ?n) s'"
  proof (rule for_range_inv)
    show "?P 0 (buf, 0)" by (simp add: interleaved_def buf_holds_Nil)
  next
    fix k s assume k: "k < 0 + ?n" and P: "?P k s"
    obtain b' len where s: "s = (b', len)" by (cases s)
    have len: "len = length (interleaved bps chs k)" "len = k * (length chs * bps)"
      "buf_holds b' 0 (interleaved bps chs k)" using P s by auto
    have "k * (length chs * bps) + length chs * bps \<le> ?n * (length chs * bps)"
      using k by (metis add.left_neutral mult_Suc Suc_leI mult_le_mono1 add.commute)
    then have "length (interleaved bps chs k) + length chs * bps \<le> buf_cap b'"
      using len P s assms(2) by simp
    from aac_instant_ok [OF assms(1) _ len(3) this, of k] k
    obtain b'' where r: "for_range 0 (length chs) (aac_channel bps fr k) (b', len) =
        Inr (b'', len + length chs * bps)"
      and h: "buf_holds b'' 0 (interleaved bps chs k @ instant bps chs k (length chs))"
      and cap: "buf_cap b'' = buf_cap b'"
      using len(1) by auto
    have "interleaved bps chs (Suc k) = interleaved bps chs k @ instant bps chs k (length chs)"
      by (simp add: interleaved_def)
    then show "\<exists>s'. for_range 0 (length chs) (aac_channel bps fr k) s = Inr s' \<and> ?P (Suc k) s'"
      using r h cap len P s length_instant [OF all, of k "length chs"] k by auto
  qed
  then obtain b' where r: "for_range 0 ?n (\<lambda>i. for_range 0 (length chs) (aac_channel bps fr i)) (buf, 0) =
      Inr (b', length (interleaved bps chs ?n))" and h: "buf_holds b' 0 (interleaved bps chs ?n)"
    by auto
  from rd_slice_holds [OF h] r show ?thesis by (simp add: aac_handleOneFrame_def)
qed

lemma aac_interleaves_witness:
  "\<exists>buf'. aac_handleOneFrame 2 2 (demo_frame\<lparr>fr_nb_samples := 2,
      fr_data := [buf_of [1, 2, 3, 4], buf_of [5, 6, 7, 8]]\<rparr>) \<lparr>buf_cap = AAC_BUF_SIZE, buf_at = (\<lambda>_. 0)\<rparr>
    = Inr (buf', [1, 2, 5, 6, 3, 4, 7, 8])"
  using aac_interleaves [of "demo_frame\<lparr>fr_nb_samples := 2,
      fr_data := [buf_of [1, 2, 3, 4], buf_of [5, 6, 7, 8]]\<rparr>" 2 "[[1, 2, 3, 4], [5, 6, 7, 8]]"
      "\<lparr>buf_cap = AAC_BUF_SIZE, buf_at = (\<lambda>_. 0)\<rparr>"]
  by (simp add: channels_hold_def All_less_Suc AAC_BUF_SIZE_def interleaved_def instant_def
      upt_rec [of 0] upt_rec [of "Suc 0"] numeral_2_eq_2)

theorem h264_planes_witness:
  "\<exists>buf' po. h264_handleOneFrame 25 (demo_frame\<lparr>fr_width := 4, fr_height := 1,
        fr_data := [buf_of [1, 2, 3, 4], buf_of [5], buf_of [6]]\<rparr>)
      \<lparr>buf_cap = H264_BUF_SIZE, buf_at = (\<lambda>_. 0)\<rparr> = Inr (buf', po) \<and> out_data po = [1, 2, 3, 4, 5, 6]
    \<and> uint (out_width po) = 4 \<and> uint (out_height po) = 1"
  using h264_planes [of "demo_frame\<lparr>fr_width := 4, fr_height := 1,
        fr_data := [buf_of [1, 2, 3, 4], buf_of [5], buf_of [6]]\<rparr>"
      "buf_of [1, 2, 3, 4]" "buf_of [5]" "buf_of [6]" "[1, 2, 3, 4]" "[5]" "[6]"
      "\<lparr>buf_cap = H264_BUF_SIZE, buf_at = (\<lambda>_. 0)\<rparr>" 25]
  by (auto simp: demo_frame_def)

end
