(* ===== verification/Viewer.thy ===== *)
theory Viewer
  imports Crypto Adts Frame_Decoders
begin

text \<open>
  The callbacks that \<^verbatim>\<open>src/VideoCtrl.cpp\<close> and
  \<^verbatim>\<open>src/RecordCtrl.cpp\<close> share. A NAL unit is given to the H.264 decoder
  behind a start code, an I-frame decrypted in place first when there is a key; a block of AAC data
  behind its ADTS header. The result lists the byte strings passed to \<open>receiveData\<close>, in order.
  The key is the bytes of \<open>encryption\<close>. \<open>convertFormat\<close> is the table of pixel formats
  both classes have.
\<close>

section \<open>NAL units\<close>

definition nalu_callback ::
    "u8 list \<Rightarrow> nalu_type \<Rightarrow> buffer \<Rightarrow> nat \<Rightarrow> u32 \<Rightarrow> (buffer \<times> u8 list list) result option" where
  "nalu_callback encryption type b data len =
    (if type = NALU_TYPE_IDR then
       (let nalu_header = [0x00, 0x00, 0x01] in
        case (if encryption \<noteq> []
              then decrypt (buf_of encryption) (word_of_nat (length encryption)) b data len
              else Some (Inr b)) of
          None \<Rightarrow> None | Some (Inl e) \<Rightarrow> Some (Inl e)
        | Some (Inr b) \<Rightarrow>
            Some (rbind (rd_slice b data (unat len)) (\<lambda>d. Inr (b, [nalu_header, d]))))
     else
       (let nalu_header = [0x00, 0x00, 0x00, 0x01] in
        Some (rbind (rd_slice b data (unat len)) (\<lambda>d. Inr (b, [nalu_header, d])))))"

definition xor_cycle :: "u8 list \<Rightarrow> u8 list \<Rightarrow> u8 list" where
  "xor_cycle key d = map (\<lambda>i. d ! i XOR key ! (i mod length key)) [0..<length d]"

definition clear_payload :: "u8 list \<Rightarrow> nalu_type \<Rightarrow> u8 list \<Rightarrow> u8 list" where
  "clear_payload key ty d = (if ty = NALU_TYPE_IDR \<and> key \<noteq> [] then xor_cycle key d else d)"

definition start_code_of :: "nalu_type \<Rightarrow> u8 list" where
  "start_code_of ty = (if ty = NALU_TYPE_IDR then [0, 0, 1] else [0, 0, 0, 1])"

lemma length_xor_cycle [simp]: "length (xor_cycle key d) = length d"
  by (simp add: xor_cycle_def)

lemma xor_cycle_twice: "xor_cycle key (xor_cycle key d) = d"
  by (rule nth_equalityI) (simp_all add: xor_cycle_def xor.assoc)

lemma decrypt_holds:
  assumes "buf_holds b off d" and "key \<noteq> []" and "length key < 2 ^ 32" and "length d < 2 ^ 32"
  obtains b' where "decrypt (buf_of key) (word_of_nat (length key)) b off (word_of_nat (length d)) = Some (Inr b')"
    and "buf_holds b' off (xor_cycle key d)" and "buf_cap b' = buf_cap b"
proof -
  have k: "unat (word_of_nat (length key) :: u32) = length key"
    "unat (word_of_nat (length d) :: u32) = length d"
    using assms(3,4) by (simp_all add: unsigned_of_nat take_bit_nat_eq_self)
  have "(word_of_nat (length key) :: u32) \<noteq> 0"
    using k(1) assms(2) by (metis length_0_conv unat_0)
  moreover have "off + unat (word_of_nat (length d) :: u32) \<le> buf_cap b"
    using assms(1) k(2) by (simp add: buf_holds_def)
  ultimately have r: "decrypt (buf_of key) (word_of_nat (length key)) b off (word_of_nat (length d)) =
      Some (Inr (xor_region (buf_of key) (length key) off 0 (length d) b))"
    using crypt_region [of off "word_of_nat (length d)" b "word_of_nat (length key)" "buf_of key"] k
    by (simp add: decrypt_def)
  have "buf_holds (xor_region (buf_of key) (length key) off 0 (length d) b) off (xor_cycle key d)"
    using assms(1,2) by (auto simp: buf_holds_def xor_region_at xor_cycle_def buf_of_def)
  then show thesis using r that by simp
qed

lemma nalu_callback_holds:
  assumes "buf_holds b off d" and "length key < 2 ^ 32" and "length d < 2 ^ 32"
  obtains b' where "nalu_callback key ty b off (word_of_nat (length d)) =
      Some (Inr (b', [start_code_of ty, clear_payload key ty d]))"
    and "buf_cap b' = buf_cap b"
proof -
  have n: "unat (word_of_nat (length d) :: u32) = length d"
    using assms(3) by (simp add: unsigned_of_nat take_bit_nat_eq_self)
  show thesis
  proof (cases "ty = NALU_TYPE_IDR \<and> key \<noteq> []")
    case True
    obtain b' where b': "decrypt (buf_of key) (word_of_nat (length key)) b off (word_of_nat (length d)) = Some (Inr b')"
      "buf_holds b' off (xor_cycle key d)" "buf_cap b' = buf_cap b"
      by (rule decrypt_holds [OF assms(1) _ assms(2,3)]) (use True in auto)
    have "rd_slice b' off (length d) = Inr (xor_cycle key d)" using rd_slice_holds [OF b'(2)] by simp
    then show thesis
      using that [of b'] b' n True by (simp add: nalu_callback_def start_code_of_def clear_payload_def)
  next
    case False
    then show thesis
      using that [of b] n rd_slice_holds [OF assms(1)]
      by (auto simp: nalu_callback_def start_code_of_def clear_payload_def)
  qed
qed

text \<open>C24: the viewers' NAL unit callback always returns and, for a unit that lies in its buffer, gives the
  decoder a start code followed by the unit, an I-frame of an encrypted device decrypted with the
  repeating key; what an encrypting device made of an I-frame is thus undone.\<close>

theorem nalu_to_decoder:
  assumes "buf_holds b off (clear_payload key ty d)" and "length key < 2 ^ 32" and "length d < 2 ^ 32"
  shows "\<exists>b'. nalu_callback key ty b off (word_of_nat (length d)) = Some (Inr (b', [start_code_of ty, d]))"
proof -
  have l: "length (clear_payload key ty d) = length d" by (simp add: clear_payload_def)
  have "clear_payload key ty (clear_payload key ty d) = d"
    by (simp add: clear_payload_def xor_cycle_twice)
  then show ?thesis
    using nalu_callback_holds [OF assms(1,2), of ty] assms(3) l by metis
qed

theorem nalu_to_decoder_witness:
  "\<exists>b'. nalu_callback [3, 5] NALU_TYPE_IDR (buf_of [0, 0, 6, 0]) 1 (word_of_nat 2) =
    Some (Inr (b', [[0, 0, 1], [3, 3]]))"
  using nalu_to_decoder [of "buf_of [0, 0, 6, 0]" 1 "[3, 5]" NALU_TYPE_IDR "[3, 3]"]
  by (simp add: clear_payload_def xor_cycle_def start_code_of_def buf_holds_def buf_of_def
      less_Suc_eq upt_rec [of 0] upt_rec [of "Suc 0"])

section \<open>Audio blocks\<close>

text \<open>What the decoder info sets: the header, and the sample rate and channel count of the output.\<close>

definition audio_info_callback :: "u8 \<Rightarrow> u8 \<Rightarrow> u8 list \<times> int \<times> int" where
  "audio_info_callback d0 d1 =
    (adts_info d0 d1, (if info_sampleIdx d0 d1 = 4 then 44100 else 8000),
     (if info_channelsIdx d1 = 1 then 1 else 2))"

definition audio_data_callback :: "u8 list \<Rightarrow> u8 list \<Rightarrow> u8 list \<times> u8 list list" where
  "audio_data_callback adts_header d =
    (let h = adts_patch (word_of_nat (length d)) adts_header in (h, [h, d]))"

section \<open>Pixel formats\<close>

datatype av_pixel_format =
    AV_PIX_FMT_YUV444P | AV_PIX_FMT_YUV422P | AV_PIX_FMT_YUV420P | AV_PIX_FMT_YUYV422
  | AV_PIX_FMT_UYVY422 | AV_PIX_FMT_BGR24 | AV_PIX_FMT_BGR32 | AV_PIX_FMT_RGB24 | AV_PIX_FMT_RGB32
  | AV_PIX_FMT_BGR555 | AV_PIX_FMT_BGR565 | AV_PIX_FMT_NV12 | AV_PIX_FMT_NV21 | AV_PIX_FMT_OTHER int

datatype qt_pixel_format =
    Format_YUV444 | Format_YUV422P | Format_YUV420P | Format_YUYV | Format_UYVY | Format_BGR24
  | Format_BGR32 | Format_RGB24 | Format_RGB32 | Format_BGR555 | Format_BGR565 | Format_NV12
  | Format_NV21 | NPixelFormats

fun convertFormat :: "av_pixel_format \<Rightarrow> qt_pixel_format" where
  "convertFormat AV_PIX_FMT_YUV444P = Format_YUV444"
| "convertFormat AV_PIX_FMT_YUV422P = Format_YUV422P"
| "convertFormat AV_PIX_FMT_YUV420P = Format_YUV420P"
| "convertFormat AV_PIX_FMT_YUYV422 = Format_YUYV"
| "convertFormat AV_PIX_FMT_UYVY422 = Format_UYVY"
| "convertFormat AV_PIX_FMT_BGR24 = Format_BGR24"
| "convertFormat AV_PIX_FMT_BGR32 = Format_BGR32"
| "convertFormat AV_PIX_FMT_RGB24 = Format_RGB24"
| "convertFormat AV_PIX_FMT_RGB32 = Format_RGB32"
| "convertFormat AV_PIX_FMT_BGR555 = Format_BGR555"
| "convertFormat AV_PIX_FMT_BGR565 = Format_BGR565"
| "convertFormat AV_PIX_FMT_NV12 = Format_NV12"
| "convertFormat AV_PIX_FMT_NV21 = Format_NV21"
| "convertFormat (AV_PIX_FMT_OTHER n) = NPixelFormats"

end
