(* ===== verification/Record_Ctrl.thy ===== *)
theory Record_Ctrl
  imports Viewer Flv_Claims
begin

text \<open>
  \<^verbatim>\<open>src/RecordCtrl.cpp\<close>: the window that plays a recording. It owns a
  \<open>FlvPlayer\<close>, whose callbacks feed the decoders, and the callbacks of the decoders. The state
  record has the members of the class; \<open>audio\<close> is the sample rate and channel count of the sound
  output. The call of \<open>sleep_once\<close> is the result of the frame callback, since it goes back to
  the player that is just running the callback.
\<close>

section \<open>State\<close>

record record_ctrl =
  player :: flv_player
  view_frame :: "(u32 \<times> u32 \<times> u32 \<times> qt_pixel_format) option"
  is_playing_audio :: bool
  is_play_able :: bool
  encryption :: "u8 list"
  adts_header :: "u8 list"
  audio :: "(int \<times> int) option"

text \<open>\<open>is_play_able\<close> and \<open>adts_header\<close> are as the allocation has them.\<close>

definition new_RecordCtrl :: "record_ctrl \<Rightarrow> record_ctrl" where
  "new_RecordCtrl raw = raw\<lparr>player := new_FlvPlayer (player raw), view_frame := None,
     is_playing_audio := False, encryption := [], audio := None\<rparr>"

section \<open>The callbacks of the player\<close>

text \<open>The unit lies in the tag buffer of the player; the result is what the decoder receives.\<close>

definition nalu_cb ::
    "nalu_type \<Rightarrow> u8 list \<Rightarrow> bool \<Rightarrow> record_ctrl \<Rightarrow> (record_ctrl \<times> u8 list list) result option" where
  "nalu_cb type buf play s =
    (let s = s\<lparr>is_play_able := play\<rparr> in
     then_do (nalu_callback (encryption s) type (buf_of buf) 0 (word_of_nat (length buf)))
       (\<lambda>(_, fed). Some (Inr (s, fed))))"

text \<open>A block of decoder info of fewer than two bytes would be read past its end.\<close>

definition audio_cb ::
    "audio_type \<Rightarrow> u8 list \<Rightarrow> bool \<Rightarrow> record_ctrl \<Rightarrow> (record_ctrl \<times> u8 list list) result" where
  "audio_cb type data play s =
    (let s = s\<lparr>is_play_able := play\<rparr> in
     if type = AUDIO_INFO then
       (if audio s \<noteq> None then Inr (s, [])
        else rbind (check (2 \<le> length data) OutOfBounds) (\<lambda>_.
          let (h, rate, channels) = audio_info_callback (data ! 0) (data ! 1) in
          Inr (s\<lparr>adts_header := h, audio := Some (rate, channels)\<rparr>, [])))
     else if \<not> is_playing_audio s \<or> audio s = None then Inr (s, [])
     else (let (h, feed) = audio_data_callback (adts_header s) data in
       Inr (s\<lparr>adts_header := h\<rparr>, feed)))"

section \<open>The callbacks of the decoders\<close>

text \<open>The result says whether the picture was shown, and then with which rate the player sleeps.\<close>

definition frame_cb ::
    "bool \<Rightarrow> u32 \<Rightarrow> u32 \<Rightarrow> u32 \<Rightarrow> u32 \<Rightarrow> av_pixel_format \<Rightarrow> record_ctrl \<Rightarrow> (record_ctrl \<times> u32 option) result" where
  "frame_cb mapped len width height rate pix_fmt s =
    (let s = (case view_frame s of Some _ \<Rightarrow> s
              | None \<Rightarrow> s\<lparr>view_frame := Some (len, width, height, convertFormat pix_fmt)\<rparr>) in
     case view_frame s of None \<Rightarrow> Inl NullDeref | Some (cap, _) \<Rightarrow>
       if is_play_able s \<and> mapped
       then rbind (check (len \<le> cap) OutOfBounds) (\<lambda>_. Inr (s, Some rate))
       else Inr (s, None))"

definition pcm_cb :: "u8 list \<Rightarrow> record_ctrl \<Rightarrow> u8 list" where
  "pcm_cb data s = (if is_play_able s \<and> audio s \<noteq> None then data else [])"

section \<open>The user's operations\<close>

text \<open>\<open>fs\<close> is the file system, as for the player.\<close>

definition play ::
    "(string \<rightharpoonup> u8 list) \<Rightarrow> string \<Rightarrow> u8 list \<Rightarrow> record_ctrl \<Rightarrow> record_ctrl" where
  "play fs path enc s =
    (let s = s\<lparr>player := set_file_path fs path (player s), is_playing_audio := True, encryption := enc\<rparr> in
     s\<lparr>player := Flv_Player.start (player s)\<rparr>)"

definition stop :: "record_ctrl \<Rightarrow> record_ctrl" where
  "stop s = s\<lparr>player := Flv_Player.stop (player s)\<rparr>"

definition pause :: "record_ctrl \<Rightarrow> record_ctrl" where
  "pause s = s\<lparr>player := Flv_Player.pause (player s)\<rparr>"

definition step_by_second :: "int \<Rightarrow> record_ctrl \<Rightarrow> record_ctrl result option" where
  "step_by_second sec s =
     then_do (step_by_seconds sec (player s)) (\<lambda>p. Some (Inr (s\<lparr>player := p\<rparr>)))"

definition step_one_frame_forward :: "record_ctrl \<Rightarrow> record_ctrl" where
  "step_one_frame_forward s = s\<lparr>player := Flv_Player.step_one_frame_forward (player s)\<rparr>"

definition step_one_frame_backward :: "record_ctrl \<Rightarrow> record_ctrl result option" where
  "step_one_frame_backward s =
     then_do (Flv_Player.step_one_frame_backward (player s)) (\<lambda>p. Some (Inr (s\<lparr>player := p\<rparr>)))"

section \<open>A run of the player's events\<close>

text \<open>
  \<open>pics es\<close>: the pictures the H.264 decoder delivers while it handles the last of the events
  \<open>es\<close>, as whether the frame can be mapped, its length, width, height, rate and format. A run
  returns what both decoders are fed and, for every event, the last call of \<open>sleep_once\<close> it
  makes.
\<close>

type_synonym picture = "bool \<times> u32 \<times> u32 \<times> u32 \<times> u32 \<times> av_pixel_format"
type_synonym decoded = "flv_event list \<Rightarrow> picture list"

fun frames_cb :: "picture list \<Rightarrow> u32 option \<Rightarrow> record_ctrl \<Rightarrow> (record_ctrl \<times> u32 option) result" where
  "frames_cb [] z s = Inr (s, z)"
| "frames_cb ((mapped, len, w, h, rate, fmt) # ps) z s =
     rbind (frame_cb mapped len w h rate fmt s) (\<lambda>(s, z').
       frames_cb ps (if z' = None then z else z') s)"

fun on_event ::
    "decoded \<Rightarrow> flv_event list \<Rightarrow> flv_event \<Rightarrow> record_ctrl \<Rightarrow>
     (record_ctrl \<times> u8 list list \<times> u8 list list \<times> u32 option) result option" where
  "on_event pics past (VideoCB ty d pl) s =
     then_do (nalu_cb ty d pl s) (\<lambda>(s, fed).
       Some (rbind (frames_cb (pics (past @ [VideoCB ty d pl])) None s) (\<lambda>(s, z). Inr (s, fed, [], z))))"
| "on_event pics past (AudioCB kind ch d pl) s =
     Some (rbind (audio_cb kind d pl s) (\<lambda>(s, fed). Inr (s, [], fed, None)))"

fun on_events ::
    "decoded \<Rightarrow> flv_event list \<Rightarrow> flv_event list \<Rightarrow> record_ctrl \<Rightarrow>
     (record_ctrl \<times> u8 list list \<times> u8 list list \<times> u32 option list) result option" where
  "on_events pics past [] s = Some (Inr (s, [], [], []))"
| "on_events pics past (e # es) s =
     then_do (on_event pics past e s) (\<lambda>(s, v, a, z).
     then_do (on_events pics (past @ [e]) es s) (\<lambda>(s, v', a', zs).
       Some (Inr (s, v @ v', a @ a', z # zs))))"

text \<open>The callback of the player that the window is: what \<open>Flv_Player\<close> leaves open.\<close>

definition last_rate :: "picture list \<Rightarrow> u32 option" where
  "last_rate ps =
    (case filter fst ps of [] \<Rightarrow> None | q # qs \<Rightarrow> (case last (q # qs) of (_, _, _, _, rate, _) \<Rightarrow> Some rate))"

definition window_cb :: "decoded \<Rightarrow> callbacks" where
  "window_cb pics es =
    (if es = [] then None else
     case last es of VideoCB ty d pl \<Rightarrow> (if pl then last_rate (pics es) else None)
     | AudioCB kind ch d pl \<Rightarrow> None)"

text \<open>What the decoders should receive. \<open>h\<close>: the header of the first decoder info so far.\<close>

fun video_fed :: "u8 list \<Rightarrow> flv_event list \<Rightarrow> u8 list list" where
  "video_fed key [] = []"
| "video_fed key (VideoCB ty d pl # es) = start_code_of ty # clear_payload key ty d # video_fed key es"
| "video_fed key (AudioCB kind ch d pl # es) = video_fed key es"

fun audio_fed :: "u8 list option \<Rightarrow> flv_event list \<Rightarrow> u8 list list" where
  "audio_fed h [] = []"
| "audio_fed h (VideoCB ty d pl # es) = audio_fed h es"
| "audio_fed h (AudioCB kind ch d pl # es) =
    (case h of
       None \<Rightarrow> audio_fed (if kind = AUDIO_INFO then Some (adts_info (d ! 0) (d ! 1)) else None) es
     | Some x \<Rightarrow> (if kind = AUDIO_INFO then [] else [adts_patch (word_of_nat (length d)) x, d]) @ audio_fed h es)"

fun event_ok :: "flv_event \<Rightarrow> bool" where
  "event_ok (VideoCB ty d pl) \<longleftrightarrow> length d < 2 ^ 32"
| "event_ok (AudioCB kind ch d pl) \<longleftrightarrow> kind = AUDIO_INFO \<longrightarrow> 2 \<le> length d"

definition same_size :: "u32 \<Rightarrow> decoded \<Rightarrow> bool" where
  "same_size n pics \<longleftrightarrow> (\<forall>es. \<forall>p \<in> set (pics es). fst (snd p) = n)"

section \<open>What a run feeds\<close>

definition audio_state :: "u8 list option \<Rightarrow> record_ctrl \<Rightarrow> bool" where
  "audio_state h s \<longleftrightarrow> (audio s = None \<longleftrightarrow> h = None)
     \<and> (\<forall>x. h = Some x \<longrightarrow> length (adts_header s) = 7 \<and> length x = 7 \<and> (\<forall>m. adts_patch m (adts_header s) = adts_patch m x))"

definition frame_state :: "u32 \<Rightarrow> record_ctrl \<Rightarrow> bool" where
  "frame_state n s \<longleftrightarrow> (\<forall>cap w h fm. view_frame s = Some (cap, w, h, fm) \<longrightarrow> cap = n)"

definition same_window :: "record_ctrl \<Rightarrow> record_ctrl \<Rightarrow> bool" where
  "same_window s s' \<longleftrightarrow> encryption s' = encryption s \<and> is_playing_audio s' = is_playing_audio s
     \<and> player s' = player s"

lemma length_adts_patch [simp]: "length (adts_patch m h) = length h"
  by (simp add: adts_patch_def Let_def)

lemma length_adts_info [simp]: "length (adts_info d0 d1) = 7"
  by (simp add: adts_info_def adts_temp_def Let_def)

lemma last_rate_Cons:
  "last_rate ((mapped, len, w, h, rate, fmt) # ps) =
    (if mapped \<and> last_rate ps = None then Some rate else last_rate ps)"
  by (auto simp: last_rate_def split: list.splits prod.splits)

lemma frames_cb_run:
  assumes "frame_state n s" and "\<forall>p \<in> set ps. fst (snd p) = n"
  obtains s' where "frames_cb ps z s = Inr (s', if is_play_able s \<and> last_rate ps \<noteq> None then last_rate ps else z)"
    and "frame_state n s'" and "s' = s\<lparr>view_frame := view_frame s'\<rparr>"
proof -
  have "\<exists>s'. frames_cb ps z s = Inr (s', if is_play_able s \<and> last_rate ps \<noteq> None then last_rate ps else z)
      \<and> frame_state n s' \<and> s' = s\<lparr>view_frame := view_frame s'\<rparr>"
    using assms
  proof (induction ps arbitrary: z s)
    case Nil
    then show ?case by (simp add: last_rate_def)
  next
    case (Cons p ps)
    obtain mapped w h rate fmt where p: "p = (mapped, n, w, h, rate, fmt)"
      using Cons.prems(2) by (cases p) auto
    define s1 where "s1 = (if view_frame s = None then s\<lparr>view_frame := Some (n, w, h, convertFormat fmt)\<rparr> else s)"
    have cb: "frame_cb mapped n w h rate fmt s = Inr (s1, if is_play_able s \<and> mapped then Some rate else None)"
      using Cons.prems(1) by (auto simp: frame_cb_def s1_def frame_state_def Let_def split: option.splits)
    have s1: "frame_state n s1" "is_play_able s1 = is_play_able s" "s1\<lparr>view_frame := v\<rparr> = s\<lparr>view_frame := v\<rparr>" for v
      using Cons.prems(1) by (auto simp: s1_def frame_state_def)
    show ?case
      using Cons.IH [OF s1(1), of "if is_play_able s \<and> mapped then Some rate else z"] Cons.prems(2) s1(2,3) cb
      by (auto simp: p last_rate_Cons)
  qed
  then show thesis using that by blast
qed

lemma nalu_cb_run:
  assumes "length (encryption s) < 2 ^ 32" and "length d < 2 ^ 32"
  shows "nalu_cb ty d pl s =
    Some (Inr (s\<lparr>is_play_able := pl\<rparr>, [start_code_of ty, clear_payload (encryption s) ty d]))"
proof -
  have "buf_holds (buf_of d) 0 d" by (simp add: buf_holds_def buf_of_def)
  from nalu_callback_holds [OF this assms, of ty]
  obtain b' where "nalu_callback (encryption s) ty (buf_of d) 0 (word_of_nat (length d)) =
      Some (Inr (b', [start_code_of ty, clear_payload (encryption s) ty d]))" by auto
  then show ?thesis by (simp add: nalu_cb_def Let_def)
qed

text \<open>The header that counts after an event.\<close>

fun header_after :: "u8 list option \<Rightarrow> flv_event \<Rightarrow> u8 list option" where
  "header_after h (VideoCB ty d pl) = h"
| "header_after h (AudioCB kind ch d pl) =
    (case h of None \<Rightarrow> if kind = AUDIO_INFO then Some (adts_info (d ! 0) (d ! 1)) else None | Some x \<Rightarrow> Some x)"

lemma feds_Cons:
  "video_fed key (e # es) = video_fed key [e] @ video_fed key es"
  "audio_fed h (e # es) = audio_fed h [e] @ audio_fed (header_after h e) es"
  by (cases e; simp split: option.split)+

lemma audio_cb_run:
  assumes "audio_state h s" and "is_playing_audio s" and "kind = AUDIO_INFO \<longrightarrow> 2 \<le> length d"
  obtains s' where "audio_cb kind d pl s = Inr (s', audio_fed h [AudioCB kind ch d pl])"
    and "audio_state (header_after h (AudioCB kind ch d pl)) s'" and "same_window s s'"
    and "view_frame s' = view_frame s"
proof -
  have "adts_patch m (adts_patch n x) = adts_patch m x" if "length x = 7" for m n x
    using adts_patch_forgets [OF that] .
  then have "\<exists>s'. audio_cb kind d pl s = Inr (s', audio_fed h [AudioCB kind ch d pl])
      \<and> audio_state (header_after h (AudioCB kind ch d pl)) s' \<and> same_window s s' \<and> view_frame s' = view_frame s"
    using assms by (cases h) (auto simp: audio_cb_def audio_state_def same_window_def Let_def
        audio_info_callback_def audio_data_callback_def split: if_splits)
  then show thesis using that by blast
qed

lemma on_event_run:
  assumes "audio_state h s" and "is_playing_audio s" and "event_ok e" and "frame_state n s" and "same_size n pics"
    and "length (encryption s) < 2 ^ 32"
  obtains s' where "on_event pics past e s =
      Some (Inr (s', video_fed (encryption s) [e], audio_fed h [e], window_cb pics (past @ [e])))"
    and "audio_state (header_after h e) s'" and "same_window s s'" and "frame_state n s'"
proof (cases e)
  case (VideoCB ty d pl)
  have sz: "\<forall>p \<in> set (pics (past @ [e])). fst (snd p) = n" using assms(5) by (simp add: same_size_def)
  have d: "length d < 2 ^ 32" using assms(3) VideoCB by simp
  have fr: "frame_state n (s\<lparr>is_play_able := pl\<rparr>)" using assms(4) by (simp add: frame_state_def)
  obtain s' where s': "frames_cb (pics (past @ [e])) None (s\<lparr>is_play_able := pl\<rparr>) =
      Inr (s', window_cb pics (past @ [e]))" "frame_state n s'"
      "s' = s\<lparr>is_play_able := pl, view_frame := view_frame s'\<rparr>"
    by (rule frames_cb_run [OF fr sz, of None]) (auto simp: window_cb_def VideoCB)
  have "audio_state h s'" using assms(1) by (subst s'(3)) (simp add: audio_state_def)
  moreover have "same_window s s'" by (subst s'(3)) (simp add: same_window_def)
  ultimately show thesis
    using that [of s'] s'(1,2) nalu_cb_run [OF assms(6) d, of ty pl] by (simp add: VideoCB)
next
  case (AudioCB kind ch d pl)
  have d: "kind = AUDIO_INFO \<longrightarrow> 2 \<le> length d" using assms(3) AudioCB by simp
  obtain s' where s': "audio_cb kind d pl s = Inr (s', audio_fed h [e])" "audio_state (header_after h e) s'"
      "same_window s s'" "view_frame s' = view_frame s"
    unfolding AudioCB by (rule audio_cb_run [OF assms(1,2) d])
  have "frame_state n s'" using assms(4) s'(4) by (simp add: frame_state_def)
  then show thesis using that [of s'] s' by (simp add: AudioCB window_cb_def)
qed

lemma on_events_run:
  assumes "audio_state h s" and "is_playing_audio s" and "\<forall>e \<in> set es. event_ok e" and "frame_state n s"
    and "same_size n pics" and "length (encryption s) < 2 ^ 32"
  shows "\<exists>s'. on_events pics past es s = Some (Inr (s', video_fed (encryption s) es, audio_fed h es,
      map (\<lambda>i. window_cb pics (past @ take (Suc i) es)) [0..<length es]))"
  using assms(1-4,6)
proof (induction es arbitrary: past h s)
  case Nil
  then show ?case by simp
next
  case (Cons e es)
  obtain s1 where s1: "on_event pics past e s =
      Some (Inr (s1, video_fed (encryption s) [e], audio_fed h [e], window_cb pics (past @ [e])))"
      "audio_state (header_after h e) s1" "same_window s s1" "frame_state n s1"
    using on_event_run [OF Cons.prems(1,2) _ Cons.prems(4) assms(5) Cons.prems(5), of e past] Cons.prems(3) by auto
  obtain s2 where s2: "on_events pics (past @ [e]) es s1 = Some (Inr (s2, video_fed (encryption s) es,
      audio_fed (header_after h e) es, map (\<lambda>i. window_cb pics ((past @ [e]) @ take (Suc i) es)) [0..<length es]))"
    using Cons.IH [OF s1(2) _ _ s1(4), of "past @ [e]"] s1(3) Cons.prems(2,3,5) by (auto simp: same_window_def)
  have "[0..<Suc (length es)] = 0 # map Suc [0..<length es]" by (simp add: map_Suc_upt upt_conv_Cons del: upt_Suc)
  then show ?case
    using s1(1) s2 feds_Cons(1) [of "encryption s" e es] feds_Cons(2) [of h e es]
    by (simp add: comp_def del: upt_Suc)
qed

section \<open>The property\<close>

lemma feed_spec_ok:
  assumes "list_all2 tag_content tags cs" and "\<forall>ch d. Audio_Config ch d \<in> set cs \<longrightarrow> 2 \<le> length d"
  shows "\<forall>e \<in> set (fst (feed_spec need r cs)). event_ok e"
  using assms
proof (induction arbitrary: need r)
  case Nil
  then show ?case by simp
next
  case (Cons t tags c cs)
  have lt: "n < 2 ^ 32" if "n < 2 ^ 16" for n :: nat using that by simp
  have "\<forall>e \<in> set (content_events need (\<not> fst r) c). event_ok e"
  proof (cases c)
    case (Config spss ppss)
    have "length d < 2 ^ 32" if "d \<in> set (spss @ ppss)" for d
      using Cons.hyps(1) Config that by (intro lt) auto
    then show ?thesis by (auto simp: Config)
  qed (use Cons.hyps(1) Cons.prems in auto)
  then show ?case
    using Cons.IH Cons.prems by (cases "reg_step (content_video c) r") (auto simp: case_prod_beta)
qed

text \<open>C2: playing a well-formed recording from the start, with the window as the player's callbacks and
  a video whose pictures all have one size, delivers every tag once and in file order, except that
  pictures before the first I-frame are dropped. The H.264 decoder receives each parameter set and each
  delivered picture behind its start code, the I-frames decrypted with the device's key. The AAC decoder
  receives each block that comes after the first decoder info of the file behind a header for its length
  made from that info; earlier blocks and later infos are dropped. The player sleeps once after each tag
  whose callbacks showed a picture, for a million divided by the frame rate of the last one shown in
  microseconds, and after no other tag; after the last tag nothing more is delivered.\<close>

theorem record_plays_file:
  assumes "flv_ok h tags" and "list_all2 tag_content tags cs" and "fs path = Some (flv_bytes h tags)"
    and "\<forall>ch d. Audio_Config ch d \<in> set cs \<longrightarrow> 2 \<le> length d" and "length key < 2 ^ 32"
    and "same_size n pics" and "fps_set (window_cb pics)"
  shows "\<exists>p w. (\<forall>n. feed_passes (window_cb pics) (Suc (length tags) + n)
        (feed_init (player (play fs path key (new_RecordCtrl raw)))) = Inr p)
    \<and> event_log p = fst (feed_spec True (False, 0) cs) \<and> is_playing p
    \<and> slept p = sleeps (window_cb pics) True [] cs
    \<and> on_events pics [] (event_log p) (play fs path key (new_RecordCtrl raw)) =
        Some (Inr (w, video_fed key (event_log p), audio_fed None (event_log p),
          map (\<lambda>i. window_cb pics (take (Suc i) (event_log p))) [0..<length (event_log p)]))"
proof -
  let ?w = "play fs path key (new_RecordCtrl raw)"
  have pl: "player ?w = Flv_Player.start (set_file_path fs path (new_FlvPlayer (player raw)))"
    by (simp add: play_def new_RecordCtrl_def)
  obtain p where p: "\<forall>n. feed_passes (window_cb pics) (Suc (length tags) + n) (feed_init (player ?w)) = Inr p"
      "event_log p = fst (feed_spec True (False, 0) cs)" "is_playing p"
      "slept p = sleeps (window_cb pics) True [] cs"
    using play_from_start [OF assms(7,1,2), of fs path "player raw"] assms(3) unfolding pl by blast
  have "audio_state None ?w" "is_playing_audio ?w" "frame_state n ?w" "encryption ?w = key"
    by (simp_all add: play_def new_RecordCtrl_def audio_state_def frame_state_def)
  then have "\<exists>w. on_events pics [] (event_log p) ?w =
        Some (Inr (w, video_fed key (event_log p), audio_fed None (event_log p),
          map (\<lambda>i. window_cb pics (take (Suc i) (event_log p))) [0..<length (event_log p)]))"
    using on_events_run [of None ?w "event_log p" n pics "[]"] feed_spec_ok [OF assms(2,4)] assms(5,6)
    by (simp add: p(2))
  then show ?thesis using p by blast
qed

definition demo_pics :: decoded where
  "demo_pics es = (case last es of VideoCB ty d pl \<Rightarrow>
     (if ty = NALU_TYPE_OTHER then [(True, 152064, 352, 288, 25, AV_PIX_FMT_YUV420P)] else []) | _ \<Rightarrow> [])"

text \<open>The recorded file with a decoder info before everything else.\<close>

definition rec_tags :: "flv_tag list" where
  "rec_tags = demo_tag 8 [0xAE, 0, 0x12, 0x08] # demo_tags"

definition rec_contents :: "flv_content list" where
  "rec_contents = Audio_Config AUDIO_CHANNEL_MONO [0x12, 0x08] # demo_contents"

definition rec_fs :: "string \<Rightarrow> u8 list option" where
  "rec_fs p = (if p = ''a.flv'' then Some (flv_bytes demo_flv_header rec_tags) else None)"

definition demo_log :: "flv_event list" where
  "demo_log = [AudioCB AUDIO_INFO AUDIO_CHANNEL_MONO [0x12, 0x08] True,
     VideoCB NALU_TYPE_SPS [0x67, 0x64] True, VideoCB NALU_TYPE_PPS [0x68] True,
     VideoCB NALU_TYPE_IDR [0x65, 0x88] True, AudioCB AUDIO_DATA AUDIO_CHANNEL_MONO [0x21] True,
     VideoCB NALU_TYPE_OTHER [0x41] True, VideoCB NALU_TYPE_OTHER [0x42] True]"

lemma rec_ok: "flv_ok demo_flv_header rec_tags"
  using demo_ok
  by (simp add: flv_ok_def rec_tags_def demo_tag_def flv_header_def tag_ok_def TAG_DATA_SIZE_def
      flv_bytes_def tag_bytes_def tag_head_def demo_tags_def demo_flv_header_def)

lemma rec_contents_ok: "list_all2 tag_content rec_tags rec_contents"
  using demo_contents_ok
  by (simp add: rec_tags_def rec_contents_def demo_tag_def TAG_AUDIO_def sound_byte_def)

lemma demo_pics_set: "fps_set (window_cb demo_pics)"
proof -
  have "window_cb demo_pics es = Some z \<Longrightarrow> z \<noteq> 0" for es z
    by (auto simp: window_cb_def demo_pics_def last_rate_def split: if_splits flv_event.splits)
  then show ?thesis by (auto simp: fps_set_def)
qed

lemma demo_fed:
  "video_fed [1, 2] demo_log = [[0, 0, 0, 1], [0x67, 0x64], [0, 0, 0, 1], [0x68], [0, 0, 1], [0x64, 0x8A],
     [0, 0, 0, 1], [0x41], [0, 0, 0, 1], [0x42]]"
  "audio_fed None demo_log = [[0xFF, 0xF1, 0x50, 0x40, 0x01, 0x1F, 0xFC], [0x21]]"
proof -
  have x: "xor_cycle [1, 2] [0x65, 0x88] = [0x64, 0x8A]" by (simp add: xor_cycle_def)
  show "video_fed [1, 2] demo_log = [[0, 0, 0, 1], [0x67, 0x64], [0, 0, 0, 1], [0x68], [0, 0, 1], [0x64, 0x8A],
     [0, 0, 0, 1], [0x41], [0, 0, 0, 1], [0x42]]"
    by (simp add: demo_log_def start_code_of_def clear_payload_def x)
  show "audio_fed None demo_log = [[0xFF, 0xF1, 0x50, 0x40, 0x01, 0x1F, 0xFC], [0x21]]"
    by (simp add: demo_log_def adts_info_def adts_temp_def adts_patch_def Let_def
        info_sampleIdx_def info_channelsIdx_def)
qed

theorem record_plays_file_witness:
  "\<forall>raw. \<exists>p w. (\<forall>n. feed_passes (window_cb demo_pics) (Suc (length rec_tags) + n)
        (feed_init (player (play rec_fs ''a.flv'' [1, 2] (new_RecordCtrl raw)))) = Inr p)
    \<and> slept p = [40000, 40000]
    \<and> on_events demo_pics [] (event_log p) (play rec_fs ''a.flv'' [1, 2] (new_RecordCtrl raw)) =
        Some (Inr (w, [[0, 0, 0, 1], [0x67, 0x64], [0, 0, 0, 1], [0x68], [0, 0, 1], [0x64, 0x8A],
          [0, 0, 0, 1], [0x41], [0, 0, 0, 1], [0x42]],
          [[0xFF, 0xF1, 0x50, 0x40, 0x01, 0x1F, 0xFC], [0x21]],
          [None, None, None, None, None, Some 25, Some 25]))"
proof
  fix raw
  have z: "same_size 152064 demo_pics" by (simp add: same_size_def demo_pics_def split: flv_event.split)
  have c: "\<forall>ch d. Audio_Config ch d \<in> set rec_contents \<longrightarrow> 2 \<le> length d"
    by (simp add: rec_contents_def demo_contents_def)
  have fs: "rec_fs ''a.flv'' = Some (flv_bytes demo_flv_header rec_tags)" by (simp add: rec_fs_def)
  have l: "fst (feed_spec True (False, 0) rec_contents) = demo_log"
    by (simp add: rec_contents_def demo_contents_def demo_log_def reg_step_def)
  have sl: "sleeps (window_cb demo_pics) True [] rec_contents = [40000, 40000]"
    by (simp add: rec_contents_def demo_contents_def window_cb_def demo_pics_def last_rate_def Let_def)
  have k: "length [1, 2 :: u8] < 2 ^ 32" by simp
  have m: "map (\<lambda>i. window_cb demo_pics (take (Suc i) demo_log)) [0..<length demo_log] =
      [None, None, None, None, None, Some 25, Some 25]"
    by (simp add: demo_log_def window_cb_def demo_pics_def last_rate_def upt_rec)
  show "\<exists>p w. (\<forall>n. feed_passes (window_cb demo_pics) (Suc (length rec_tags) + n)
        (feed_init (player (play rec_fs ''a.flv'' [1, 2] (new_RecordCtrl raw)))) = Inr p)
    \<and> slept p = [40000, 40000]
    \<and> on_events demo_pics [] (event_log p) (play rec_fs ''a.flv'' [1, 2] (new_RecordCtrl raw)) =
        Some (Inr (w, [[0, 0, 0, 1], [0x67, 0x64], [0, 0, 0, 1], [0x68], [0, 0, 1], [0x64, 0x8A],
          [0, 0, 0, 1], [0x41], [0, 0, 0, 1], [0x42]],
          [[0xFF, 0xF1, 0x50, 0x40, 0x01, 0x1F, 0xFC], [0x21]],
          [None, None, None, None, None, Some 25, Some 25]))"
    using record_plays_file [where key = "[1, 2]" and raw = raw and pics = demo_pics and n = 152064
        and fs = rec_fs and path = "''a.flv''", OF rec_ok rec_contents_ok fs c k z demo_pics_set]
    unfolding l sl by (auto simp: demo_fed m)
qed

text \<open>Two members are never reset: the frame and the sound output. A second recording with larger
  pictures is copied past the end of the frame, and the decoder info of a second recording is
  ignored.\<close>

lemma second_recording_overflows:
  assumes "view_frame s = Some (cap, w, h, fm)" and "is_play_able s" and "cap < len"
  shows "frame_cb True len w' h' rate fmt (stop s) = Inl OutOfBounds"
  using assms by (simp add: frame_cb_def stop_def check_def not_le [symmetric])

lemma second_recording_info_ignored:
  assumes "audio s \<noteq> None"
  shows "audio_cb AUDIO_INFO d pl (play fs path key (stop s)) = Inr ((play fs path key (stop s))\<lparr>is_play_able := pl\<rparr>, [])"
  using assms by (simp add: audio_cb_def play_def stop_def Let_def)

end
