(* ===== verification/Worker.thy ===== *)
theory Worker
  imports Prelude
begin

text \<open>
  The shape the program's background threads share: a flag that says the worker is running, a
  \<open>std::thread\<close> object, an operation that sets the flag and makes the thread, and one that
  does nothing unless the flag is set. Assigning to the thread object destroys the old thread,
  which terminates the process while it is joinable; a thread that has ended by itself still is.
  The clients are the sender of \<^verbatim>\<open>src/VideoSender.cpp\<close> and the receiver of
  \<^verbatim>\<open>src/VideoCapture.cpp\<close>.
\<close>

locale worker =
  fixes reach :: "'s \<Rightarrow> bool" and running :: "'s \<Rightarrow> bool" and thread_of :: "'s \<Rightarrow> 'pc option"
    and ended :: 'pc and launch :: "'s \<Rightarrow> 's result" and halt :: "'s \<Rightarrow> 's"
  assumes flag_thread: "reach s \<Longrightarrow> running s \<Longrightarrow> thread_of s \<notin> {None, Some ended}"
    and launch_running: "running s \<Longrightarrow> launch s = Inr s"
    and launch_joinable: "\<not> running s \<Longrightarrow> thread_of s \<noteq> None \<Longrightarrow> launch s = Inl Terminate"
    and launch_fresh: "\<not> running s \<Longrightarrow> thread_of s = None \<Longrightarrow> \<exists>s'. launch s = Inr s' \<and> running s'"
    and halt_idle: "\<not> running s \<Longrightarrow> halt s = s"
begin

lemma dead_not_running: "reach s \<Longrightarrow> thread_of s = Some ended \<Longrightarrow> \<not> running s"
  using flag_thread by blast

text \<open>A worker whose thread has ended by itself can neither be stopped nor started.\<close>

lemma dead_worker:
  assumes "reach s" and "thread_of s = Some ended"
  shows "halt s = s \<and> launch s = Inl Terminate"
  using dead_not_running [OF assms] assms(2) halt_idle launch_joinable by auto

lemma launch_ok_iff:
  "(\<exists>s'. launch s = Inr s') \<longleftrightarrow> running s \<or> thread_of s = None"
  using launch_running [of s] launch_joinable [of s] launch_fresh [of s] by fastforce

lemma launch_twice: "rbind (launch s) launch = launch s"
proof (cases "launch s")
  case (Inr s')
  have "running s'"
  proof (cases "running s")
    case True
    then show ?thesis using launch_running Inr by auto
  next
    case False
    then have "thread_of s = None" using launch_joinable Inr by fastforce
    then show ?thesis using launch_fresh [OF False] Inr by auto
  qed
  then show ?thesis using Inr launch_running by simp
qed simp

end

end
