(* ===== verification/Capture_Thread.thy ===== *)
theory Capture_Thread
  imports Worker Video_Capture
begin

text \<open>
  The receiving thread of \<^verbatim>\<open>src/VideoCapture.cpp\<close>: \<open>start\<close>,
  \<open>stop\<close>, \<open>init\<close>, \<open>unInit\<close> and the loop of \<open>pull\<close>. The librtmp calls
  succeed or fail freely; the results of \<open>RTMP_ReadPacket\<close> are free too, and a complete packet
  goes through the handlers of \<open>Video_Capture\<close>. \<open>rtmp\<close> and \<open>packet\<close> say whether the
  pointers are set; \<open>allocs\<close> and \<open>frees\<close> count \<open>RTMP_Alloc\<close> and \<open>RTMP_Free\<close>,
  and \<open>delivered\<close> logs what the callbacks received.
\<close>

datatype pull_pc = P_Init | P_Loop | P_Read | P_Handle rtmp_packet | P_Uninit | P_Finish | P_Ended

record capture =
  rtmp_url :: string
  pull_thread :: "pull_pc option"
  is_pulling :: bool
  rtmp :: bool
  packet :: bool
  joining :: bool
  allocs :: nat
  frees :: nat
  delivered :: "media list"

definition new_VideoCapture :: capture where
  "new_VideoCapture = \<lparr>rtmp_url = [], pull_thread = None, is_pulling = False, rtmp = False,
     packet = False, joining = False, allocs = 0, frees = 0, delivered = []\<rparr>"

definition setRtmpURL :: "string \<Rightarrow> capture \<Rightarrow> capture" where
  "setRtmpURL url s = s\<lparr>rtmp_url := url\<rparr>"

definition unInit :: "capture \<Rightarrow> capture" where
  "unInit s =
    (let s = (if rtmp s then s\<lparr>frees := frees s + 1, rtmp := False\<rparr> else s) in
     if packet s then s\<lparr>packet := False\<rparr> else s)"

text \<open>
  \<open>setup\<close>, \<open>connect\<close> and \<open>stream\<close>: the results of \<open>RTMP_SetupURL\<close>,
  \<open>RTMP_Connect\<close> and \<open>RTMP_ConnectStream\<close>.
\<close>

definition init :: "bool \<Rightarrow> bool \<Rightarrow> bool \<Rightarrow> capture \<Rightarrow> bool \<times> capture" where
  "init setup connect stream s =
    (let s = unInit s; s = s\<lparr>allocs := allocs s + 1, rtmp := True\<rparr> in
     if \<not> setup then (False, s)
     else if \<not> connect then (False, s)
     else if \<not> stream then (False, s)
     else (True, s\<lparr>packet := True\<rparr>))"

definition start :: "capture \<Rightarrow> (bool \<times> capture) result" where
  "start s =
    (if is_pulling s then Inr (False, s)
     else rbind (check (pull_thread s = None) Terminate) (\<lambda>_.
       Inr (True, s\<lparr>is_pulling := True, pull_thread := Some P_Init\<rparr>)))"

abbreviation launch :: "capture \<Rightarrow> capture result" where
  "launch s \<equiv> rbind (start s) (\<lambda>(_, s). Inr s)"

definition stop :: "capture \<Rightarrow> capture" where
  "stop s = (if \<not> is_pulling s then s else s\<lparr>is_pulling := False, joining := True\<rparr>)"

definition stop_join :: "capture \<Rightarrow> capture option" where
  "stop_join s =
    (if pull_thread s = Some P_Ended then Some (s\<lparr>pull_thread := None, joining := False\<rparr>) else None)"

text \<open>
  A step of the thread. A handler that faults ends the process, so it has no successor. The packet
  memory is there whenever the loop uses it, which is a property below.
\<close>

inductive pull_step :: "capture \<Rightarrow> capture \<Rightarrow> bool" where
  init_ok: "pull_thread s = Some P_Init \<Longrightarrow> init a b c s = (True, s') \<Longrightarrow>
     pull_step s (s'\<lparr>pull_thread := Some P_Loop\<rparr>)"
| init_failed: "pull_thread s = Some P_Init \<Longrightarrow> init a b c s = (False, s') \<Longrightarrow>
     pull_step s (s'\<lparr>is_pulling := False, pull_thread := Some P_Ended\<rparr>)"
| loop_on: "pull_thread s = Some P_Loop \<Longrightarrow> is_pulling s \<Longrightarrow>
     pull_step s (s\<lparr>pull_thread := Some P_Read\<rparr>)"
| loop_off: "pull_thread s = Some P_Loop \<Longrightarrow> \<not> is_pulling s \<Longrightarrow>
     pull_step s (s\<lparr>pull_thread := Some P_Uninit\<rparr>)"
| read_none: "pull_thread s = Some P_Read \<Longrightarrow> pull_step s (s\<lparr>pull_thread := Some P_Loop\<rparr>)"
| read_failed: "pull_thread s = Some P_Read \<Longrightarrow> pull_step s (s\<lparr>pull_thread := Some P_Uninit\<rparr>)"
| read_packet: "pull_thread s = Some P_Read \<Longrightarrow> packet s \<Longrightarrow>
     pull_step s (s\<lparr>pull_thread := Some (if RTMPPacket_IsReady p then P_Handle p else P_Loop)\<rparr>)"
| handled: "pull_thread s = Some (P_Handle p) \<Longrightarrow> handle_packet p = Inr out \<Longrightarrow>
     pull_step s (s\<lparr>delivered := delivered s @ out, pull_thread := Some P_Loop\<rparr>)"
| uninit: "pull_thread s = Some P_Uninit \<Longrightarrow> pull_step s ((unInit s)\<lparr>pull_thread := Some P_Finish\<rparr>)"
| finish: "pull_thread s = Some P_Finish \<Longrightarrow>
     pull_step s (s\<lparr>is_pulling := False, pull_thread := Some P_Ended\<rparr>)"

inductive capture_user :: "capture \<Rightarrow> capture \<Rightarrow> bool" where
  start: "\<not> joining s \<Longrightarrow> start s = Inr (b, s') \<Longrightarrow> capture_user s s'"
| stop: "\<not> joining s \<Longrightarrow> capture_user s (stop s)"
| stop_join: "joining s \<Longrightarrow> stop_join s = Some s' \<Longrightarrow> capture_user s s'"
| set_url: "\<not> joining s \<Longrightarrow> capture_user s (setRtmpURL url s)"

inductive capture_reachable :: "capture \<Rightarrow> bool" where
  new: "capture_reachable new_VideoCapture"
| thread: "capture_reachable s \<Longrightarrow> pull_step s s' \<Longrightarrow> capture_reachable s'"
| user: "capture_reachable s \<Longrightarrow> capture_user s s' \<Longrightarrow> capture_reachable s'"

section \<open>The invariant\<close>

lemma unInit_simps [simp]:
  "rtmp (unInit s) = False" "packet (unInit s) = False" "is_pulling (unInit s) = is_pulling s"
  "pull_thread (unInit s) = pull_thread s" "joining (unInit s) = joining s"
  "allocs (unInit s) = allocs s" "frees (unInit s) = frees s + (if rtmp s then 1 else 0)"
  "delivered (unInit s) = delivered s"
  by (simp_all add: unInit_def Let_def)

lemma init_result:
  assumes "init a b c s = (ok, s')"
  shows "rtmp s' \<and> packet s' = ok \<and> is_pulling s' = is_pulling s \<and> joining s' = joining s
    \<and> allocs s' = allocs s + 1 \<and> frees s' = frees s + (if rtmp s then 1 else 0)"
  using assms by (auto simp: init_def Let_def split: if_splits)

definition capture_inv :: "capture \<Rightarrow> bool" where
  "capture_inv s \<longleftrightarrow>
     (is_pulling s \<longrightarrow> pull_thread s \<notin> {None, Some P_Ended} \<and> \<not> joining s)
     \<and> (joining s \<longrightarrow> pull_thread s \<noteq> None)
     \<and> allocs s = frees s + (if rtmp s then 1 else 0)
     \<and> (case pull_thread s of Some P_Loop \<Rightarrow> rtmp s \<and> packet s | Some P_Read \<Rightarrow> rtmp s \<and> packet s
        | Some (P_Handle _) \<Rightarrow> rtmp s \<and> packet s | Some P_Uninit \<Rightarrow> rtmp s \<and> packet s
        | _ \<Rightarrow> \<not> packet s)"

lemma capture_inv_thread: "pull_step s s' \<Longrightarrow> capture_inv s \<Longrightarrow> capture_inv s'"
proof (induction rule: pull_step.induct)
  case (init_ok s a b c s')
  then show ?case using init_result [OF init_ok(2)] by (auto simp: capture_inv_def)
next
  case (init_failed s a b c s')
  then show ?case using init_result [OF init_failed(2)] by (auto simp: capture_inv_def)
qed (auto simp: capture_inv_def)

lemma capture_inv_user: "capture_user s s' \<Longrightarrow> capture_inv s \<Longrightarrow> capture_inv s'"
proof (induction rule: capture_user.induct)
  case (start s b s')
  then show ?case by (auto simp: start_def capture_inv_def rbind_Inr_iff split: if_splits)
next
  case (stop s)
  then show ?case
    by (auto simp: stop_def capture_inv_def split: option.splits pull_pc.splits)
next
  case (stop_join s s')
  then show ?case by (auto simp: stop_join_def capture_inv_def split: if_splits)
next
  case (set_url s url)
  then show ?case
    by (auto simp: setRtmpURL_def capture_inv_def split: option.splits pull_pc.splits)
qed

lemma capture_inv_reachable: "capture_reachable s \<Longrightarrow> capture_inv s"
proof (induction rule: capture_reachable.induct)
  case new
  then show ?case by (simp add: capture_inv_def new_VideoCapture_def)
qed (blast intro: capture_inv_thread capture_inv_user)+

interpretation cw: worker capture_reachable is_pulling pull_thread P_Ended launch stop
proof
  fix s :: capture
  show "capture_reachable s \<Longrightarrow> is_pulling s \<Longrightarrow> pull_thread s \<notin> {None, Some P_Ended}"
    using capture_inv_reachable [of s] by (simp add: capture_inv_def)
qed (auto simp: start_def stop_def)

text \<open>C29: the receiving thread uses its RTMP handle and packet only while they are allocated, every
  handle is freed at most once and at most one is live; after a \<open>stop\<close> that joined a thread which
  had connected, none is.\<close>

theorem capture_handles:
  assumes "capture_reachable s"
  shows "allocs s = frees s + (if rtmp s then 1 else 0)
    \<and> (pull_thread s \<in> {Some P_Loop, Some P_Read, Some P_Uninit} \<or> (\<exists>p. pull_thread s = Some (P_Handle p))
         \<longrightarrow> rtmp s \<and> packet s)
    \<and> (\<forall>s'. pull_thread s = Some P_Uninit \<and> pull_step s s' \<longrightarrow> allocs s' = frees s')"
proof -
  have inv: "capture_inv s" by (rule capture_inv_reachable [OF assms])
  moreover have "allocs s' = frees s'" if "pull_thread s = Some P_Uninit" "pull_step s s'" for s'
    using that(2,1) inv by (induction rule: pull_step.induct) (auto simp: capture_inv_def)
  ultimately show ?thesis by (auto simp: capture_inv_def)
qed

text \<open>A receiver whose thread has ended by itself, because the connection failed or broke, cannot
  be used again: \<open>stop\<close> does not join the thread, and \<open>start\<close> assigns over a joinable
  thread, which terminates the process.\<close>

lemma capture_restart_terminates:
  assumes "capture_reachable s" and "pull_thread s = Some P_Ended"
  shows "stop s = s \<and> start s = Inl Terminate"
  using cw.dead_worker [OF assms] by (auto simp: rbind_Inl_iff split: prod.splits)

section \<open>Runs\<close>

definition at_pull :: "pull_pc \<Rightarrow> bool \<Rightarrow> bool \<Rightarrow> nat \<Rightarrow> capture" where
  "at_pull pc on pk n = new_VideoCapture\<lparr>pull_thread := Some pc, is_pulling := on, rtmp := n \<noteq> 0,
     packet := pk, allocs := n\<rparr>"

lemma reach_init: "capture_reachable (at_pull P_Init True False 0)"
  by (rule capture_reachable.user [OF capture_reachable.new capture_user.start [of _ True]])
    (simp_all add: start_def new_VideoCapture_def at_pull_def)

lemma reach_uninit: "capture_reachable (at_pull P_Uninit True True 1)"
proof -
  have i: "init True True True (at_pull P_Init True False 0) = (True, at_pull P_Init True True 1)"
    by (simp add: init_def at_pull_def unInit_def new_VideoCapture_def)
  have "capture_reachable (at_pull P_Loop True True 1)"
    using capture_reachable.thread [OF reach_init pull_step.init_ok [OF _ i]]
    by (simp add: at_pull_def new_VideoCapture_def)
  then have "capture_reachable (at_pull P_Read True True 1)"
    using capture_reachable.thread [OF _ pull_step.loop_on, of "at_pull P_Loop True True 1"]
    by (simp add: at_pull_def new_VideoCapture_def)
  then show ?thesis
    using capture_reachable.thread [OF _ pull_step.read_failed, of "at_pull P_Read True True 1"]
    by (simp add: at_pull_def new_VideoCapture_def)
qed

lemma reach_dead: "capture_reachable (at_pull P_Ended False False 1)"
proof -
  have i: "init False True True (at_pull P_Init True False 0) = (False, at_pull P_Init True False 1)"
    by (simp add: init_def at_pull_def unInit_def new_VideoCapture_def)
  show ?thesis
    using capture_reachable.thread [OF reach_init pull_step.init_failed [OF _ i]]
    by (simp add: at_pull_def new_VideoCapture_def)
qed

theorem capture_handles_witness:
  "capture_reachable (at_pull P_Uninit True True 1) \<and> allocs (at_pull P_Uninit True True 1) = 0 + 1"
  using capture_handles [OF reach_uninit] reach_uninit by (simp add: at_pull_def new_VideoCapture_def)

end
