(* ===== verification/Video_Ctrl.thy ===== *)
theory Video_Ctrl
  imports Viewer Capture_Thread
begin

text \<open>
  \<^verbatim>\<open>src/VideoCtrl.cpp\<close>: one live-view window. The state record has the members of
  the class with the receiver inside it; the decoders, the video surface and the sound output are
  libraries, so the callbacks return what they pass on, and \<open>audio_new\<close> and \<open>audio_deleted\<close>
  count the sound outputs made and deleted. Strings are ASCII, so that the length of the
  \<open>QString\<close> is that of the \<open>std::string\<close>.
\<close>

section \<open>State\<close>

record video_ctrl =
  capture :: capture
  is_playing :: bool
  is_playing_audio :: bool
  is_auto_local_record :: bool
  adts_header :: "u8 list"
  audio :: "(int \<times> int) option"
  audio_new :: nat
  audio_deleted :: nat
  view_frame :: "(u32 \<times> u32 \<times> u32 \<times> qt_pixel_format) option"
  ffmpeg_encoder :: "(u32 \<times> u32 \<times> u32 \<times> av_pixel_format) option"
  local_record_dir :: string
  device_key_name :: string
  encryption :: string

text \<open>\<open>is_auto_local_record\<close> and \<open>adts_header\<close> are as the allocation has them.\<close>

definition new_VideoCtrl :: "video_ctrl \<Rightarrow> video_ctrl" where
  "new_VideoCtrl raw = raw\<lparr>capture := new_VideoCapture, is_playing := False, is_playing_audio := False,
     audio := None, audio_new := 0, audio_deleted := 0, view_frame := None, ffmpeg_encoder := None,
     local_record_dir := [], device_key_name := [], encryption := []\<rparr>"

text \<open>The bytes of a string of characters.\<close>

definition bytes_of :: "string \<Rightarrow> u8 list" where
  "bytes_of cs = map (\<lambda>c. word_of_nat (of_char c)) cs"

section \<open>The callbacks of the receiver and the decoders\<close>

definition nalu_cb :: "nalu_type \<Rightarrow> buffer \<Rightarrow> nat \<Rightarrow> u32 \<Rightarrow> video_ctrl \<Rightarrow> (buffer \<times> u8 list list) result option" where
  "nalu_cb type b data len s = nalu_callback (bytes_of (encryption s)) type b data len"

text \<open>A new sound output replaces the old one without deleting it.\<close>

definition audio_cb ::
    "audio_type \<Rightarrow> u8 list \<Rightarrow> video_ctrl \<Rightarrow> (video_ctrl \<times> u8 list list) result" where
  "audio_cb type data s =
    (if type = AUDIO_INFO then
       rbind (check (2 \<le> length data) OutOfBounds) (\<lambda>_.
       let (h, rate, channels) = audio_info_callback (data ! 0) (data ! 1) in
       Inr (s\<lparr>adts_header := h, audio := Some (rate, channels), audio_new := audio_new s + 1\<rparr>, []))
     else if \<not> is_playing_audio s then Inr (s, [])
     else (let (h, feed) = audio_data_callback (adts_header s) data in Inr (s\<lparr>adts_header := h\<rparr>, feed)))"

text \<open>
  A decoded picture of \<open>len\<close> bytes. \<open>mapped\<close>: whether mapping the frame succeeds. The result
  says whether the picture was shown and whether it went to the local recorder.
\<close>

definition frame_cb ::
    "bool \<Rightarrow> u32 \<Rightarrow> u32 \<Rightarrow> u32 \<Rightarrow> u32 \<Rightarrow> av_pixel_format \<Rightarrow> video_ctrl \<Rightarrow> (video_ctrl \<times> bool \<times> bool) result" where
  "frame_cb mapped len width height fps pix_fmt s =
    (let s = (case view_frame s of Some _ \<Rightarrow> s | None \<Rightarrow>
           (let s = s\<lparr>view_frame := Some (len, width, height, convertFormat pix_fmt)\<rparr> in
            if is_auto_local_record s then s\<lparr>ffmpeg_encoder := Some (width, height, fps, pix_fmt)\<rparr> else s)) in
     rbind (case view_frame s of None \<Rightarrow> Inl NullDeref | Some (cap, _) \<Rightarrow>
              if mapped then (if len \<le> cap then Inr True else Inl OutOfBounds) else Inr False) (\<lambda>shown.
     if is_auto_local_record s then
       (case ffmpeg_encoder s of None \<Rightarrow> Inl NullDeref | Some _ \<Rightarrow> Inr (s, shown, True))
     else Inr (s, shown, False)))"

text \<open>The sound is written to the output when there is one.\<close>

definition pcm_cb :: "u8 list \<Rightarrow> video_ctrl \<Rightarrow> u8 list" where
  "pcm_cb data s = (if audio s \<noteq> None then data else [])"

text \<open>The file a block of the local recording is appended to on the day \<open>date_time\<close>.\<close>

definition save_path :: "string \<Rightarrow> video_ctrl \<Rightarrow> string" where
  "save_path date_time s =
     local_record_dir s @ ''/'' @ device_key_name s @ ''-'' @ date_time @ ''.264''"

section \<open>The user's operations\<close>

text \<open>\<open>std::string::substr\<close>; a negative position is converted to a huge one.\<close>

definition substr :: "int \<Rightarrow> int \<Rightarrow> string \<Rightarrow> string result" where
  "substr pos n cs =
    (if pos < 0 \<or> int (length cs) < pos then Inl OutOfRange
     else Inr (if n < 0 then drop (nat pos) cs else take (nat n) (drop (nat pos) cs)))"

definition play :: "string \<Rightarrow> string \<Rightarrow> video_ctrl \<Rightarrow> (bool \<times> video_ctrl) result" where
  "play url enc s =
    (if is_playing s then Inr (False, s)
     else (let s = s\<lparr>is_playing := True, is_playing_audio := False,
                     capture := setRtmpURL url (capture s)\<rparr> in
       rbind (substr (int (length url) - 6) 6 url) (\<lambda>key.
       let s = s\<lparr>device_key_name := key, encryption := enc\<rparr> in
       rbind (Capture_Thread.start (capture s)) (\<lambda>(ret, c).
         Inr (ret, s\<lparr>capture := c, is_playing := ret\<rparr>)))))"

text \<open>
  What \<open>stop\<close> of the receiver leaves: nothing changes when its thread is not pulling; otherwise
  the thread runs on until it ends and is joined.
\<close>

inductive stop_completes :: "capture \<Rightarrow> capture \<Rightarrow> bool" where
  idle: "\<not> is_pulling c \<Longrightarrow> stop_completes c c"
| joined: "is_pulling c \<Longrightarrow> pull_step\<^sup>*\<^sup>* (Capture_Thread.stop c) c1 \<Longrightarrow> stop_join c1 = Some c' \<Longrightarrow>
     stop_completes c c'"

definition stop :: "capture \<Rightarrow> video_ctrl \<Rightarrow> video_ctrl" where
  "stop c' s =
    (if \<not> is_playing s then s
     else (let s = s\<lparr>capture := c'\<rparr>;
               s = (if audio s \<noteq> None then s\<lparr>audio := None, audio_deleted := audio_deleted s + 1\<rparr> else s) in
       s\<lparr>view_frame := None, ffmpeg_encoder := None, is_playing := False, is_playing_audio := False\<rparr>))"

definition playAudio :: "video_ctrl \<Rightarrow> video_ctrl" where
  "playAudio s = s\<lparr>is_playing_audio := True\<rparr>"

definition stopAudio :: "video_ctrl \<Rightarrow> video_ctrl" where
  "stopAudio s = s\<lparr>is_playing_audio := False\<rparr>"

definition autoLocalRecord :: "video_ctrl \<Rightarrow> string" where
  "autoLocalRecord s = (if is_auto_local_record s then ''1'' else ''0'')"

definition setAutoLocalRecord :: "string \<Rightarrow> video_ctrl \<Rightarrow> video_ctrl" where
  "setAutoLocalRecord value s = s\<lparr>is_auto_local_record := (value = ''1'')\<rparr>"

definition localRecordDir :: "video_ctrl \<Rightarrow> string" where
  "localRecordDir s = local_record_dir s"

text \<open>The value is a URL; the first eight characters are its scheme.\<close>

definition setlocalRecordDir :: "string \<Rightarrow> video_ctrl \<Rightarrow> video_ctrl result" where
  "setlocalRecordDir value s =
     rbind (substr 8 (int (length value) - 8) value) (\<lambda>d. Inr (s\<lparr>local_record_dir := d\<rparr>))"

section \<open>The properties\<close>

text \<open>A recording directory given as a file URL and a stream URL of at least six characters put the
  local recording into the directory, under the last six characters of the stream URL and the date.\<close>

lemma record_path:
  assumes "6 \<le> length url" and "\<not> is_playing s" and "pull_thread (capture s) = None"
    and "\<not> is_pulling (capture s)"
  shows "\<exists>s1 s2. setlocalRecordDir (''file:///'' @ dir) s = Inr s1 \<and> play url enc s1 = Inr (True, s2)
    \<and> is_playing s2 \<and> save_path day s2 =
        dir @ ''/'' @ drop (length url - 6) url @ ''-'' @ day @ ''.264''"
proof -
  have d: "substr 8 (int (length (''file:///'' @ dir)) - 8) (''file:///'' @ dir) = Inr dir"
    by (simp add: substr_def)
  have k: "substr (int (length url) - 6) 6 url = Inr (drop (length url - 6) url)"
    using assms(1) by (simp add: substr_def nat_diff_distrib)
  show ?thesis
    using assms d k
    by (simp add: setlocalRecordDir_def play_def Let_def Capture_Thread.start_def setRtmpURL_def save_path_def)
qed

text \<open>A URL of fewer than six characters makes \<open>play\<close> throw, whatever the state of the window;
  likewise a recording directory of fewer than eight.\<close>

lemma short_url_throws:
  assumes "\<not> is_playing s" and "length url < 6" and "length dir < 8"
  shows "play url enc s = Inl OutOfRange \<and> setlocalRecordDir dir s = Inl OutOfRange"
  using assms by (simp add: play_def substr_def setlocalRecordDir_def Let_def)

text \<open>C30: after the connection of a window has failed or broken, the receiver's thread having ended by
  itself, stopping the window and playing again terminates the process.\<close>

theorem replay_after_failure_terminates:
  assumes "capture_reachable (capture s)" and "pull_thread (capture s) = Some P_Ended"
    and "is_playing s" and "stop_completes (capture s) c'" and "6 \<le> length url"
  shows "play url enc (stop c' s) = Inl Terminate"
proof -
  have "\<not> is_pulling (capture s)"
    using cw.dead_not_running [OF assms(1,2)] .
  with assms(4) have c': "c' = capture s" by (cases rule: stop_completes.cases) auto
  have "Capture_Thread.start (setRtmpURL url (capture s)) = Inl Terminate"
    using \<open>\<not> is_pulling (capture s)\<close> assms(2) by (simp add: Capture_Thread.start_def setRtmpURL_def)
  moreover have "substr (int (length url) - 6) 6 url = Inr (drop (length url - 6) url)"
    using assms(5) by (simp add: substr_def nat_diff_distrib)
  ultimately show ?thesis
    using assms(3) by (simp add: stop_def c' Let_def play_def)
qed

definition dead_window :: "video_ctrl \<Rightarrow> video_ctrl" where
  "dead_window raw = (new_VideoCtrl raw)\<lparr>capture := at_pull P_Ended False False 1, is_playing := True\<rparr>"

theorem replay_after_failure_terminates_witness:
  "\<forall>raw. capture_reachable (capture (dead_window raw)) \<and>
     play ''rtmp://host/live/cam001'' [] (stop (capture (dead_window raw)) (dead_window raw)) = Inl Terminate"
proof
  fix raw
  have c: "capture (dead_window raw) = at_pull P_Ended False False 1" "is_playing (dead_window raw)"
    by (simp_all add: dead_window_def)
  have "stop_completes (at_pull P_Ended False False 1) (at_pull P_Ended False False 1)"
    by (rule stop_completes.idle) (simp add: at_pull_def)
  then show "capture_reachable (capture (dead_window raw)) \<and>
     play ''rtmp://host/live/cam001'' [] (stop (capture (dead_window raw)) (dead_window raw)) = Inl Terminate"
    using replay_after_failure_terminates [of "dead_window raw" "at_pull P_Ended False False 1"
        "''rtmp://host/live/cam001''" "[]"] reach_dead c
    by (simp add: at_pull_def)
qed

section \<open>A run of pictures\<close>

text \<open>The pictures the decoder delivers one after the other: whether mapping succeeds, the length,
  the width, height, frame rate and format. The result counts the pictures shown and recorded.\<close>

type_synonym picture = "bool \<times> u32 \<times> u32 \<times> u32 \<times> u32 \<times> av_pixel_format"

fun frame_run :: "picture list \<Rightarrow> video_ctrl \<Rightarrow> (video_ctrl \<times> nat \<times> nat) result" where
  "frame_run [] s = Inr (s, 0, 0)"
| "frame_run ((mapped, len, w, h, fps, fmt) # ps) s =
     rbind (frame_cb mapped len w h fps fmt s) (\<lambda>(s, shown, rec).
     rbind (frame_run ps s) (\<lambda>(s, n, r). Inr (s, of_bool shown + n, of_bool rec + r)))"

lemma frame_cb_next:
  assumes "view_frame s = Some (cap, wd, ht, fm)" and "is_auto_local_record s \<longrightarrow> ffmpeg_encoder s \<noteq> None"
  shows "frame_cb mapped len w h fps fmt s =
    (if mapped \<and> cap < len then Inl OutOfBounds else Inr (s, mapped, is_auto_local_record s))"
  using assms by (auto simp: frame_cb_def Let_def)

lemma frame_run_next:
  assumes "view_frame s = Some (cap, wd, ht, fm)" and "is_auto_local_record s \<longrightarrow> ffmpeg_encoder s \<noteq> None"
  shows "frame_run ps s =
    (if \<exists>p \<in> set ps. fst p \<and> cap < fst (snd p) then Inl OutOfBounds
     else Inr (s, length (filter fst ps), if is_auto_local_record s then length ps else 0))"
proof (induction ps)
  case Nil
  then show ?case by simp
next
  case (Cons p ps)
  obtain mapped len w h fps fmt where p: "p = (mapped, len, w, h, fps, fmt)" by (cases p) auto
  show ?case using Cons.IH by (cases "mapped \<and> cap < len") (auto simp: p frame_cb_next [OF assms])
qed

definition first_picture :: "u32 \<Rightarrow> u32 \<Rightarrow> u32 \<Rightarrow> u32 \<Rightarrow> av_pixel_format \<Rightarrow> video_ctrl \<Rightarrow> video_ctrl" where
  "first_picture len w h fps fmt s =
    s\<lparr>view_frame := Some (len, w, h, convertFormat fmt),
      ffmpeg_encoder := (if is_auto_local_record s then Some (w, h, fps, fmt) else ffmpeg_encoder s)\<rparr>"

text \<open>C23: a window that has shown nothing yet allocates its frame, and the local recorder when recording
  is on, for the first picture; it then shows every picture that can be mapped, records every one,
  and the run goes wrong exactly when a picture to be shown is larger than the first one, which is
  then copied past the end of the frame.\<close>

theorem frame_run_from_new:
  assumes "view_frame s = None"
  shows "frame_run ((mapped, len, w, h, fps, fmt) # ps) s =
    (if \<exists>p \<in> set ps. fst p \<and> len < fst (snd p) then Inl OutOfBounds
     else Inr (first_picture len w h fps fmt s, of_bool mapped + length (filter fst ps),
        if is_auto_local_record s then Suc (length ps) else 0))"
proof -
  let ?s = "first_picture len w h fps fmt s"
  have "frame_cb mapped len w h fps fmt s = Inr (?s, mapped, is_auto_local_record s)"
    using assms by (simp add: frame_cb_def first_picture_def Let_def)
  moreover have "view_frame ?s = Some (len, w, h, convertFormat fmt)"
    and "is_auto_local_record ?s \<longrightarrow> ffmpeg_encoder ?s \<noteq> None"
    and "is_auto_local_record ?s = is_auto_local_record s"
    by (simp_all add: first_picture_def)
  ultimately show ?thesis using frame_run_next [of ?s len w h "convertFormat fmt" ps] by auto
qed

theorem frame_run_from_new_witness:
  "\<forall>raw. frame_run [(True, 152064, 352, 288, 25, AV_PIX_FMT_YUV420P), (True, 608256, 704, 576, 25, AV_PIX_FMT_YUV420P)]
     (new_VideoCtrl raw) = Inl OutOfBounds"
  by (intro allI) (subst frame_run_from_new, simp_all add: new_VideoCtrl_def)

text \<open>Switching the local recording on while a window already shows pictures crashes the viewer at the
  next picture: the recorder is only made together with the first frame.\<close>

lemma late_recording_crashes:
  assumes "view_frame s = Some (cap, w, h, fm)" and "ffmpeg_encoder s = None" and "len \<le> cap"
  shows "frame_cb mapped len width height fps fmt (setAutoLocalRecord ''1'' s) = Inl NullDeref"
  using assms by (simp add: frame_cb_def setAutoLocalRecord_def)

end
