(* ===== verification/Safe_Queue.thy ===== *)
theory Safe_Queue
  imports Prelude "HOL-Library.Multiset"
begin

text \<open>
  \<^verbatim>\<open>src/include/SafeQueue.hpp\<close>: the queue between the encoders and the sending
  thread. Each member function runs under the mutex, so it is one function on the state; the
  elements it passes to \<open>release_handle\<close> are returned as a list. \<open>pop\<close> on an empty
  working queue waits on the condition variable: that outcome is \<open>None\<close>. The waiting itself,
  with its notifications, is the step relation at the end: with one consumer no wake-up is lost,
  with two \<open>setWork\<close> leaves one of them asleep.
\<close>

section \<open>The queue\<close>

record 'a safe_queue =
  que :: "'a list"
  work_flag :: int

definition new_SafeQueue :: "'a safe_queue" where
  "new_SafeQueue = \<lparr>que = [], work_flag = 0\<rparr>"

definition push :: "'a \<Rightarrow> 'a safe_queue \<Rightarrow> 'a safe_queue \<times> 'a list" where
  "push element q =
    (if work_flag q \<noteq> 0 then (q\<lparr>que := que q @ [element]\<rparr>, []) else (q, [element]))"

definition pop :: "'a safe_queue \<Rightarrow> ('a safe_queue \<times> 'a option) option" where
  "pop q =
    (if work_flag q \<noteq> 0 \<and> que q = [] then None
     else case que q of
       [] \<Rightarrow> Some (q, None)
     | value # rest \<Rightarrow> Some (q\<lparr>que := rest\<rparr>, Some value))"

definition setWork :: "int \<Rightarrow> 'a safe_queue \<Rightarrow> 'a safe_queue" where
  "setWork flag q = q\<lparr>work_flag := flag\<rparr>"

definition is_empty :: "'a safe_queue \<Rightarrow> bool" where
  "is_empty q \<longleftrightarrow> que q = []"

definition queue_size :: "'a safe_queue \<Rightarrow> nat" where
  "queue_size q = length (que q)"

text \<open>The loop of \<open>clear\<close>: \<open>n\<close> times the front element is taken off and released.\<close>

fun clear_loop :: "nat \<Rightarrow> 'a safe_queue \<Rightarrow> 'a list \<Rightarrow> ('a safe_queue \<times> 'a list) result" where
  "clear_loop 0 q out = Inr (q, out)"
| "clear_loop (Suc n) q out =
    (case que q of [] \<Rightarrow> Inl OutOfBounds
     | value # rest \<Rightarrow> clear_loop n (q\<lparr>que := rest\<rparr>) (out @ [value]))"

definition clear :: "'a safe_queue \<Rightarrow> ('a safe_queue \<times> 'a list) result" where
  "clear q = clear_loop (length (que q)) q []"

definition sync :: "('a list \<Rightarrow> 'a list) \<Rightarrow> 'a safe_queue \<Rightarrow> 'a safe_queue" where
  "sync sync_handle q = q\<lparr>que := sync_handle (que q)\<rparr>"

lemma clear_loop_all:
  "que q = xs \<Longrightarrow> clear_loop (length xs) q out = Inr (q\<lparr>que := []\<rparr>, out @ xs)"
  by (induction xs arbitrary: q out) simp_all

lemma clear_eq [simp]: "clear q = Inr (q\<lparr>que := []\<rparr>, que q)"
  using clear_loop_all [OF refl, of q "[]"] by (simp add: clear_def)

section \<open>The interface\<close>

text \<open>
  What a client of the queue relies on: its elements in order, whether it accepts new ones, and
  where every element goes.
\<close>

locale work_queue =
  fixes items :: "'q \<Rightarrow> 'a list" and working :: "'q \<Rightarrow> bool"
    and qpush :: "'a \<Rightarrow> 'q \<Rightarrow> 'q \<times> 'a list" and qpop :: "'q \<Rightarrow> ('q \<times> 'a option) option"
    and qclear :: "'q \<Rightarrow> ('q \<times> 'a list) result" and qwork :: "int \<Rightarrow> 'q \<Rightarrow> 'q"
  assumes push_open: "working q \<Longrightarrow> \<exists>q'. qpush x q = (q', []) \<and> items q' = items q @ [x] \<and> working q'"
    and push_closed: "\<not> working q \<Longrightarrow> qpush x q = (q, [x])"
    and pop_blocks: "qpop q = None \<longleftrightarrow> working q \<and> items q = []"
    and pop_first: "qpop q = Some (q', Some x) \<Longrightarrow> items q = x # items q' \<and> working q' = working q"
    and pop_none: "qpop q = Some (q', None) \<Longrightarrow> q' = q \<and> items q = [] \<and> \<not> working q"
    and clear_all: "\<exists>q'. qclear q = Inr (q', items q) \<and> items q' = [] \<and> working q' = working q"
    and work_set: "items (qwork f q) = items q" "working (qwork f q) \<longleftrightarrow> f \<noteq> 0"
begin

lemma push_conserves:
  assumes "qpush x q = (q', rel)"
  shows "items q' @ rel = items q @ [x]" "working q' = working q" "rel \<noteq> [] \<longrightarrow> \<not> working q"
  using assms push_open [of q x] push_closed [of q x] by (cases "working q"; auto)+

lemma pop_conserves:
  assumes "qpop q = Some (q', v)"
  shows "items q = (case v of None \<Rightarrow> [] | Some x \<Rightarrow> [x]) @ items q'" "working q' = working q"
  using assms pop_first [of q q'] pop_none [of q q'] by (cases v; auto)+

lemma clear_conserves:
  assumes "qclear q = Inr (q', rel)"
  shows "rel = items q" "items q' = []" "working q' = working q"
  using assms clear_all [of q] by auto

lemma closed_never_blocks: "\<not> working q \<Longrightarrow> qpop q \<noteq> None"
  by (simp add: pop_blocks)

lemma closed_stays_empty:
  assumes "\<not> working q" and "items q = []" and "qpush x q = (q', rel)"
  shows "items q' = []" "rel = [x]"
  using assms push_closed [of q x] by auto

end

interpretation sq: work_queue que "\<lambda>q. work_flag q \<noteq> 0" push pop clear setWork
proof
  fix q q' :: "'a safe_queue" and x
  show "pop q = Some (q', Some x) \<Longrightarrow> que q = x # que q' \<and> (work_flag q' \<noteq> 0) = (work_flag q \<noteq> 0)"
    by (auto simp: pop_def split: if_splits list.splits)
  show "pop q = Some (q', None) \<Longrightarrow> q' = q \<and> que q = [] \<and> \<not> work_flag q \<noteq> 0"
    by (auto simp: pop_def split: if_splits list.splits)
qed (auto simp: push_def pop_def setWork_def split: list.splits)

section \<open>Runs\<close>

text \<open>
  Any sequence of the operations, with where the elements went: accepted by the queue, delivered
  by \<open>pop\<close>, and released. A \<open>pop\<close> that waits leaves the run where it is.
\<close>

datatype 'a queue_op = Push 'a | Pop | Clear | Set_Work int

record 'a queue_run =
  run_q :: "'a safe_queue"
  accepted :: "'a list"
  taken :: "'a list"
  released :: "'a list"

definition start_run :: "'a queue_run" where
  "start_run = \<lparr>run_q = new_SafeQueue, accepted = [], taken = [], released = []\<rparr>"

fun queue_step :: "'a queue_op \<Rightarrow> 'a queue_run \<Rightarrow> 'a queue_run" where
  "queue_step (Push x) r =
    (let (q, rel) = push x (run_q r) in
     r\<lparr>run_q := q, accepted := accepted r @ (if rel = [] then [x] else []),
       released := released r @ rel\<rparr>)"
| "queue_step Pop r =
    (case pop (run_q r) of Some (q, Some x) \<Rightarrow> r\<lparr>run_q := q, taken := taken r @ [x]\<rparr> | _ \<Rightarrow> r)"
| "queue_step Clear r =
    (case clear (run_q r) of Inr (q, rel) \<Rightarrow> r\<lparr>run_q := q, released := released r @ rel\<rparr> | Inl _ \<Rightarrow> r)"
| "queue_step (Set_Work f) r = r\<lparr>run_q := setWork f (run_q r)\<rparr>"

fun pushed :: "'a queue_op list \<Rightarrow> 'a list" where
  "pushed [] = []"
| "pushed (Push x # ops) = x # pushed ops"
| "pushed (_ # ops) = pushed ops"

fun no_clear :: "'a queue_op list \<Rightarrow> bool" where
  "no_clear [] = True"
| "no_clear (Clear # ops) = False"
| "no_clear (_ # ops) = no_clear ops"

lemma queue_step_mset:
  "mset (taken (queue_step p r)) + mset (released (queue_step p r)) + mset (que (run_q (queue_step p r)))
   = mset (taken r) + mset (released r) + mset (que (run_q r)) + mset (pushed [p])"
proof (cases p)
  case (Push x)
  then show ?thesis by (auto simp: push_def)
next
  case Pop
  then show ?thesis by (auto simp: pop_def split: list.splits)
next
  case Clear
  then show ?thesis by simp
next
  case (Set_Work f)
  then show ?thesis by (simp add: setWork_def)
qed

lemma pushed_Cons: "pushed (p # ops) = pushed [p] @ pushed ops"
  by (cases p) auto

lemma queue_steps_mset:
  "mset (taken (fold queue_step ops r)) + mset (released (fold queue_step ops r))
     + mset (que (run_q (fold queue_step ops r)))
   = mset (taken r) + mset (released r) + mset (que (run_q r)) + mset (pushed ops)"
proof (induction ops arbitrary: r)
  case (Cons p ops)
  then show ?case using queue_step_mset [of p r] pushed_Cons [of p ops] by (simp add: add.assoc)
qed simp

lemma queue_step_fifo:
  assumes "accepted r = taken r @ que (run_q r)" and "p \<noteq> Clear"
  shows "accepted (queue_step p r) = taken (queue_step p r) @ que (run_q (queue_step p r))"
  using assms by (cases p) (auto simp: push_def pop_def setWork_def split: list.splits)

lemma queue_steps_fifo:
  "accepted r = taken r @ que (run_q r) \<Longrightarrow> no_clear ops \<Longrightarrow>
   accepted (fold queue_step ops r) = taken (fold queue_step ops r) @ que (run_q (fold queue_step ops r))"
proof (induction ops arbitrary: r)
  case (Cons p ops)
  have "p \<noteq> Clear" "no_clear ops" using Cons.prems(2) by (cases p; auto)+
  then show ?case using Cons.IH [OF queue_step_fifo [OF Cons.prems(1)]] by simp
qed simp

text \<open>C21: no element is lost or duplicated: after any sequence of operations every element pushed has
  been delivered by \<open>pop\<close>, handed to the release handle, or is still queued, exactly once.\<close>

theorem queue_conserves:
  "mset (taken (fold queue_step ops start_run)) + mset (released (fold queue_step ops start_run))
     + mset (que (run_q (fold queue_step ops start_run))) = mset (pushed ops)"
  using queue_steps_mset [of ops start_run] by (simp add: start_run_def new_SafeQueue_def)

text \<open>The queue is first-in first-out: without a \<open>clear\<close>, what \<open>pop\<close> has delivered followed
  by what is queued is what was accepted, in that order.\<close>

lemma queue_fifo:
  assumes "no_clear ops"
  shows "accepted (fold queue_step ops start_run) =
    taken (fold queue_step ops start_run) @ que (run_q (fold queue_step ops start_run))"
  using queue_steps_fifo [OF _ assms, of start_run] by (simp add: start_run_def new_SafeQueue_def)

section \<open>Waiting and notification\<close>

text \<open>
  The condition variable: a consumer inside \<open>pop\<close> is running or waiting; \<open>notify_one\<close>
  lets one waiting consumer run again, if there is one, and a waiting consumer may wake up on its
  own. A running consumer looks at the queue again.
\<close>

datatype waiter = Running | Waiting

record 'a queue_sys =
  sys_q :: "'a safe_queue"
  consumers :: "waiter list"

inductive notify_one :: "waiter list \<Rightarrow> waiter list \<Rightarrow> bool" where
  wake: "i < length cs \<Longrightarrow> cs ! i = Waiting \<Longrightarrow> notify_one cs (cs[i := Running])"
| nobody: "Waiting \<notin> set cs \<Longrightarrow> notify_one cs cs"

inductive sys_step :: "'a queue_sys \<Rightarrow> 'a queue_sys \<Rightarrow> bool" where
  push_open: "work_flag (sys_q s) \<noteq> 0 \<Longrightarrow> notify_one (consumers s) cs \<Longrightarrow>
     sys_step s (s\<lparr>sys_q := fst (push x (sys_q s)), consumers := cs\<rparr>)"
| push_closed: "work_flag (sys_q s) = 0 \<Longrightarrow> sys_step s (s\<lparr>sys_q := fst (push x (sys_q s))\<rparr>)"
| wait: "i < length (consumers s) \<Longrightarrow> consumers s ! i = Running \<Longrightarrow> pop (sys_q s) = None \<Longrightarrow>
     sys_step s (s\<lparr>consumers := (consumers s)[i := Waiting]\<rparr>)"
| take: "i < length (consumers s) \<Longrightarrow> consumers s ! i = Running \<Longrightarrow> pop (sys_q s) = Some (q, v) \<Longrightarrow>
     sys_step s (s\<lparr>sys_q := q\<rparr>)"
| work: "notify_one (consumers s) cs \<Longrightarrow>
     sys_step s (s\<lparr>sys_q := setWork f (sys_q s), consumers := cs\<rparr>)"
| clear: "clear (sys_q s) = Inr (q, rel) \<Longrightarrow> sys_step s (s\<lparr>sys_q := q\<rparr>)"
| spurious: "i < length (consumers s) \<Longrightarrow> consumers s ! i = Waiting \<Longrightarrow>
     sys_step s (s\<lparr>consumers := (consumers s)[i := Running]\<rparr>)"

inductive sys_reachable :: "nat \<Rightarrow> 'a queue_sys \<Rightarrow> bool" for n where
  init: "sys_reachable n \<lparr>sys_q = new_SafeQueue, consumers = replicate n Running\<rparr>"
| step: "sys_reachable n s \<Longrightarrow> sys_step s s' \<Longrightarrow> sys_reachable n s'"

inductive_cases notify_oneE: "notify_one cs cs'"

lemma notify_single: "notify_one [c] cs \<Longrightarrow> cs = [Running]"
  by (erule notify_oneE) (cases c, auto)+

text \<open>With one consumer, it waits only while there is nothing to deliver and the queue is working.\<close>

definition wait_inv :: "'a queue_sys \<Rightarrow> bool" where
  "wait_inv s \<longleftrightarrow> (\<exists>c. consumers s = [c] \<and> (c = Waiting \<longrightarrow> pop (sys_q s) = None))"

lemma wait_inv_step: "sys_step s s' \<Longrightarrow> wait_inv s \<Longrightarrow> wait_inv s'"
proof (induction rule: sys_step.induct)
  case (push_open s cs x)
  then show ?case by (auto simp: wait_inv_def dest!: notify_single)
next
  case (push_closed s x)
  then show ?case by (auto simp: wait_inv_def push_def pop_def split: list.splits)
next
  case (work s cs f)
  then show ?case by (auto simp: wait_inv_def dest!: notify_single)
next
  case (clear s q rel)
  then show ?case by (auto simp: wait_inv_def pop_def split: list.splits)
qed (auto simp: wait_inv_def less_Suc_eq)

text \<open>C22: with one consumer, as the sender uses the queue, no wake-up is lost: in every reachable
  state in which the consumer sleeps inside \<open>pop\<close> the queue is empty and working, so that a pushed
  element or \<open>setWork(0)\<close> never leaves it asleep.\<close>

theorem no_lost_wakeup:
  assumes "sys_reachable 1 s" and "consumers s = [Waiting]"
  shows "que (sys_q s) = [] \<and> work_flag (sys_q s) \<noteq> 0"
proof -
  have "wait_inv s"
    using assms(1)
    by (induction rule: sys_reachable.induct) (simp add: wait_inv_def, blast intro: wait_inv_step)
  then show ?thesis using assms(2) by (auto simp: wait_inv_def sq.pop_blocks)
qed

definition demo_sys :: "int \<Rightarrow> waiter list \<Rightarrow> nat queue_sys" where
  "demo_sys f cs = \<lparr>sys_q = \<lparr>que = [], work_flag = f\<rparr>, consumers = cs\<rparr>"

lemma demo_work:
  assumes "sys_reachable n (demo_sys f cs)" and "notify_one cs cs'"
  shows "sys_reachable n (demo_sys g cs')"
  using sys_reachable.step [OF assms(1) sys_step.work [of "demo_sys f cs" cs' g]] assms(2)
  by (simp add: demo_sys_def setWork_def)

lemma demo_wait:
  assumes "sys_reachable n (demo_sys 1 cs)" and "i < length cs" and "cs ! i = Running"
  shows "sys_reachable n (demo_sys 1 (cs[i := Waiting]))"
  using sys_reachable.step [OF assms(1) sys_step.wait [of i "demo_sys 1 cs"]] assms(2,3)
  by (simp add: demo_sys_def pop_def)

lemma demo_init: "sys_reachable n (demo_sys 0 (replicate n Running))"
  using sys_reachable.init [of n] by (simp add: demo_sys_def new_SafeQueue_def)

theorem no_lost_wakeup_witness:
  "sys_reachable 1 (demo_sys 1 [Waiting]) \<and> que (sys_q (demo_sys 1 [Waiting])) = []
     \<and> work_flag (sys_q (demo_sys 1 [Waiting])) \<noteq> 0"
proof -
  have "sys_reachable 1 (demo_sys 1 [Running])"
    by (rule demo_work [OF demo_init, of 1]) (auto intro: notify_one.nobody)
  from demo_wait [OF this, of 0] have r: "sys_reachable 1 (demo_sys 1 [Waiting])" by simp
  then show ?thesis using no_lost_wakeup [OF r] by (simp add: demo_sys_def)
qed

text \<open>With two consumers \<open>setWork(0)\<close> does not shut the queue down: it notifies only one of them,
  and a state is reachable in which the queue is closed and the other still sleeps.\<close>

lemma setWork_wakes_only_one:
  "\<exists>s :: nat queue_sys. sys_reachable 2 s \<and> work_flag (sys_q s) = 0 \<and> consumers s = [Running, Waiting]"
proof (intro exI conjI)
  have i: "sys_reachable 2 (demo_sys 0 [Running, Running])"
    using demo_init [of 2] by (simp add: numeral_2_eq_2)
  have "sys_reachable 2 (demo_sys 1 [Running, Running])"
    by (rule demo_work [OF i]) (auto intro: notify_one.nobody)
  from demo_wait [OF demo_wait [OF this, of 0], of 1]
  have "sys_reachable 2 (demo_sys 1 [Waiting, Waiting])" by simp
  from demo_work [OF this notify_one.wake [of 0], of 0]
  show "sys_reachable 2 (demo_sys 0 [Running, Waiting])" by simp
qed (simp_all add: demo_sys_def)

end
