(* ===== verification/Video_Sender.thy ===== *)
theory Video_Sender
  imports Worker Media_Types Safe_Queue "HOL-Library.Sublist"
begin

text \<open>
  \<^verbatim>\<open>src/VideoSender.cpp\<close>: the camera side's sender. The encoders hand packets to a
  callback that stamps and queues them; a sending thread connects, pops and sends; the user
  interface starts and stops it. The state record has the members of the class, the program
  counters of the sending thread and of a running \<open>stop\<close>, whether the user interface's thread is
  encoding a frame, and three logs: the packets handed to
  the callback, released by the queue, and sent. The two threads interleave between any two of
  their accesses to shared state, and the library calls of the sending thread (librtmp) succeed or
  fail freely.
\<close>

section \<open>State\<close>

text \<open>
  The sending thread: connecting; connected, before \<open>setWork(1)\<close>; at the loop head; in
  \<open>pop\<close>; with a packet in hand; past the loop; before \<open>clear\<close>; before
  \<open>is_pushing = false\<close>; ended. A \<open>std::thread\<close> that has ended is still joinable.
\<close>

datatype push_pc =
  Connecting | Opening | Looping | Popping | Holding rtmp_packet | Closing | Clearing | Finishing | Ended

datatype stop_pc = Not_Stopping | Stop_Work | Stop_Clear | Stop_Join

record sender =
  packets :: "rtmp_packet safe_queue"
  push_start_time :: u32
  rtmp_push_thread :: "push_pc option"
  is_pushing :: bool
  rtmp_push_url :: string
  is_pushing_audio :: bool
  audio_data_thread :: bool
  stopping :: stop_pc
  encoding :: bool
  handed :: "rtmp_packet list"
  dropped :: "rtmp_packet list"
  sent :: "(rtmp_packet \<times> int) list"

definition new_VideoSender :: "u32 \<Rightarrow> sender" where
  "new_VideoSender raw_time = \<lparr>packets = new_SafeQueue, push_start_time = raw_time,
     rtmp_push_thread = None, is_pushing = False, rtmp_push_url = [], is_pushing_audio = False,
     audio_data_thread = False, stopping = Not_Stopping, encoding = False, handed = [], dropped = [], sent = []\<rparr>"

section \<open>The encoders' side\<close>

definition stamp :: "u32 \<Rightarrow> sender \<Rightarrow> rtmp_packet \<Rightarrow> rtmp_packet" where
  "stamp now s p = p\<lparr>m_nTimeStamp := now - push_start_time s\<rparr>"

definition RTMPPacketCallBack :: "u32 \<Rightarrow> rtmp_packet option \<Rightarrow> sender \<Rightarrow> sender" where
  "RTMPPacketCallBack now packet s =
    (case packet of None \<Rightarrow> s | Some p \<Rightarrow>
      (let p = stamp now s p; (q, rel) = push p (packets s) in
       s\<lparr>packets := q, handed := handed s @ [p], dropped := dropped s @ rel\<rparr>))"

text \<open>
  \<open>receiveOneFrame\<close> looks at \<open>is_pushing\<close> once and then calls \<open>encodeData\<close>, which hands each
  packet it makes of the frame to the callback, one call after the other. The sending thread runs on
  between the calls, and may even end; so a frame is a begin, a callback for each packet and an end.
\<close>

definition receiveOneFrame :: "sender \<Rightarrow> sender" where
  "receiveOneFrame s = (if is_pushing s then s\<lparr>encoding := True\<rparr> else s)"

definition frame_done :: "sender \<Rightarrow> sender" where
  "frame_done s = s\<lparr>encoding := False\<rparr>"

definition setRtmpUrl :: "string \<Rightarrow> sender \<Rightarrow> sender" where
  "setRtmpUrl url s = s\<lparr>rtmp_push_url := url\<rparr>"

section \<open>The user's side\<close>

text \<open>
  Assigning a new thread object destroys the old one, which terminates the process while it is
  joinable.
\<close>

definition sender_push :: "sender \<Rightarrow> sender result" where
  "sender_push s =
    (if is_pushing s then Inr s
     else rbind (check (rtmp_push_thread s = None) Terminate) (\<lambda>_.
       Inr (s\<lparr>is_pushing := True, rtmp_push_thread := Some Connecting\<rparr>)))"

text \<open>\<open>info\<close>: the decoder-info packet of the new audio channel.\<close>

definition openAudio :: "u32 \<Rightarrow> rtmp_packet \<Rightarrow> sender \<Rightarrow> sender result" where
  "openAudio now info s =
    (if \<not> is_pushing s then Inr s
     else (let s = (RTMPPacketCallBack now (Some info) s)\<lparr>is_pushing_audio := True\<rparr> in
       rbind (check (\<not> audio_data_thread s) Terminate) (\<lambda>_. Inr (s\<lparr>audio_data_thread := True\<rparr>))))"

text \<open>The audio thread leaves its loop at the cleared flag, so the join returns.\<close>

definition stopAudio :: "sender \<Rightarrow> sender" where
  "stopAudio s =
    (if \<not> is_pushing_audio s then s else s\<lparr>is_pushing_audio := False, audio_data_thread := False\<rparr>)"

text \<open>\<open>stop\<close> in its four parts, between which the sending thread runs on.\<close>

definition stop_begin :: "sender \<Rightarrow> sender" where
  "stop_begin s =
    (if \<not> is_pushing s then s
     else (if is_pushing_audio s then stopAudio s else s)\<lparr>is_pushing := False, stopping := Stop_Work\<rparr>)"

definition stop_work :: "sender \<Rightarrow> sender" where
  "stop_work s = s\<lparr>packets := setWork 0 (packets s), stopping := Stop_Clear\<rparr>"

definition drop_all :: "sender \<Rightarrow> sender" where
  "drop_all s = (case clear (packets s) of
     Inr (q, rel) \<Rightarrow> s\<lparr>packets := q, dropped := dropped s @ rel\<rparr> | Inl _ \<Rightarrow> s)"

definition stop_clear :: "sender \<Rightarrow> sender" where
  "stop_clear s = (drop_all s)\<lparr>stopping := Stop_Join\<rparr>"

definition stop_join :: "sender \<Rightarrow> sender option" where
  "stop_join s =
    (if rtmp_push_thread s = Some Ended then Some (s\<lparr>rtmp_push_thread := None, stopping := Not_Stopping\<rparr>)
     else None)"

section \<open>The sending thread\<close>

inductive thread_step :: "sender \<Rightarrow> sender \<Rightarrow> bool" where
  connect_failed: "rtmp_push_thread s = Some Connecting \<Longrightarrow>
     thread_step s (s\<lparr>rtmp_push_thread := Some Closing\<rparr>)"
| connected: "rtmp_push_thread s = Some Connecting \<Longrightarrow>
     thread_step s (s\<lparr>push_start_time := now, rtmp_push_thread := Some Opening\<rparr>)"
| opened: "rtmp_push_thread s = Some Opening \<Longrightarrow>
     thread_step s (s\<lparr>packets := setWork 1 (packets s), rtmp_push_thread := Some Looping\<rparr>)"
| loop_on: "rtmp_push_thread s = Some Looping \<Longrightarrow> is_pushing s \<Longrightarrow>
     thread_step s (s\<lparr>rtmp_push_thread := Some Popping\<rparr>)"
| loop_off: "rtmp_push_thread s = Some Looping \<Longrightarrow> \<not> is_pushing s \<Longrightarrow>
     thread_step s (s\<lparr>rtmp_push_thread := Some Closing\<rparr>)"
| popped: "rtmp_push_thread s = Some Popping \<Longrightarrow> pop (packets s) = Some (q, Some p) \<Longrightarrow>
     thread_step s (s\<lparr>packets := q, rtmp_push_thread := Some (Holding p)\<rparr>)"
| popped_none: "rtmp_push_thread s = Some Popping \<Longrightarrow> pop (packets s) = Some (q, None) \<Longrightarrow>
     thread_step s (s\<lparr>packets := q, rtmp_push_thread := Some Looping\<rparr>)"
| send_ok: "rtmp_push_thread s = Some (Holding p) \<Longrightarrow>
     thread_step s (s\<lparr>sent := sent s @ [(p, m_stream_id)], rtmp_push_thread := Some Looping\<rparr>)"
| send_failed: "rtmp_push_thread s = Some (Holding p) \<Longrightarrow>
     thread_step s (s\<lparr>sent := sent s @ [(p, m_stream_id)], rtmp_push_thread := Some Closing\<rparr>)"
| close: "rtmp_push_thread s = Some Closing \<Longrightarrow>
     thread_step s (s\<lparr>packets := setWork 0 (packets s), rtmp_push_thread := Some Clearing\<rparr>)"
| clear_rest: "rtmp_push_thread s = Some Clearing \<Longrightarrow>
     thread_step s ((drop_all s)\<lparr>rtmp_push_thread := Some Finishing\<rparr>)"
| finish: "rtmp_push_thread s = Some Finishing \<Longrightarrow>
     thread_step s (s\<lparr>is_pushing := False, rtmp_push_thread := Some Ended\<rparr>)"

text \<open>
  Everything else that happens: the user interface, one call at a time, and the two encoders, of
  which the camera's runs on the user interface's thread. \<open>ui_free\<close>: that thread is neither in
  \<open>stop\<close> nor encoding a frame.
\<close>

definition ui_free :: "sender \<Rightarrow> bool" where
  "ui_free s \<longleftrightarrow> stopping s = Not_Stopping \<and> \<not> encoding s"

inductive other_step :: "sender \<Rightarrow> sender \<Rightarrow> bool" where
  push: "ui_free s \<Longrightarrow> sender_push s = Inr s' \<Longrightarrow> other_step s s'"
| stop_begin: "ui_free s \<Longrightarrow> other_step s (stop_begin s)"
| stop_work: "stopping s = Stop_Work \<Longrightarrow> other_step s (stop_work s)"
| stop_clear: "stopping s = Stop_Clear \<Longrightarrow> other_step s (stop_clear s)"
| stop_join: "stopping s = Stop_Join \<Longrightarrow> stop_join s = Some s' \<Longrightarrow> other_step s s'"
| set_url: "ui_free s \<Longrightarrow> other_step s (setRtmpUrl url s)"
| open_audio: "ui_free s \<Longrightarrow> openAudio now info s = Inr s' \<Longrightarrow> other_step s s'"
| stop_audio: "ui_free s \<Longrightarrow> other_step s (stopAudio s)"
| frame: "ui_free s \<Longrightarrow> other_step s (receiveOneFrame s)"
| frame_packet: "encoding s \<Longrightarrow> other_step s (RTMPPacketCallBack now (Some p) s)"
| frame_done: "encoding s \<Longrightarrow> other_step s (frame_done s)"
| audio: "audio_data_thread s \<Longrightarrow> other_step s (RTMPPacketCallBack now (Some p) s)"

inductive sender_reachable :: "sender \<Rightarrow> bool" where
  init: "sender_reachable (new_VideoSender raw_time)"
| thread: "sender_reachable s \<Longrightarrow> thread_step s s' \<Longrightarrow> sender_reachable s'"
| other: "sender_reachable s \<Longrightarrow> other_step s s' \<Longrightarrow> sender_reachable s'"

lemma drop_all_simp [simp]:
  "drop_all s = s\<lparr>packets := (packets s)\<lparr>que := []\<rparr>, dropped := dropped s @ que (packets s)\<rparr>"
  by (simp add: drop_all_def)

section \<open>What happens to the packets\<close>

definition in_hand :: "sender \<Rightarrow> rtmp_packet list" where
  "in_hand s = (case rtmp_push_thread s of Some (Holding p) \<Rightarrow> [p] | _ \<Rightarrow> [])"

definition packets_inv :: "sender \<Rightarrow> bool" where
  "packets_inv s \<longleftrightarrow>
     mset (handed s) = mset (map fst (sent s)) + mset (dropped s) + mset (in_hand s @ que (packets s))
     \<and> subseq (map fst (sent s) @ in_hand s @ que (packets s)) (handed s)"

text \<open>The packets that are on their way out, in order.\<close>

definition outgoing :: "sender \<Rightarrow> rtmp_packet list" where
  "outgoing s = map fst (sent s) @ in_hand s @ que (packets s)"

lemma packets_inv_alt:
  "packets_inv s \<longleftrightarrow> mset (handed s) = mset (dropped s) + mset (outgoing s) \<and> subseq (outgoing s) (handed s)"
  by (auto simp: packets_inv_def outgoing_def)

lemma in_hand_cong: "rtmp_push_thread s' = rtmp_push_thread s \<Longrightarrow> in_hand s' = in_hand s"
  by (simp add: in_hand_def)

lemma packets_inv_same:
  "packets_inv s \<Longrightarrow> handed s' = handed s \<Longrightarrow> dropped s' = dropped s \<Longrightarrow> outgoing s' = outgoing s \<Longrightarrow>
   packets_inv s'"
  by (simp add: packets_inv_alt)

lemma packets_inv_drop:
  assumes "packets_inv s" and "handed s' = handed s" and "dropped s' = dropped s @ que (packets s)"
    and "outgoing s = outgoing s' @ que (packets s)"
  shows "packets_inv s'"
proof -
  have "subseq (outgoing s') (outgoing s)" unfolding assms(4) by (rule prefix_imp_subseq) simp
  then show ?thesis
    using assms by (auto simp: packets_inv_alt intro: subseq_order.trans)
qed

lemma callback_closed:
  "work_flag (packets s) = 0 \<Longrightarrow> RTMPPacketCallBack now (Some p) s =
     s\<lparr>handed := handed s @ [stamp now s p], dropped := dropped s @ [stamp now s p]\<rparr>"
  by (simp add: RTMPPacketCallBack_def push_def Let_def)

lemma callback_open:
  "work_flag (packets s) \<noteq> 0 \<Longrightarrow> RTMPPacketCallBack now (Some p) s =
     s\<lparr>packets := (packets s)\<lparr>que := que (packets s) @ [stamp now s p]\<rparr>,
       handed := handed s @ [stamp now s p]\<rparr>"
  by (simp add: RTMPPacketCallBack_def push_def Let_def)

lemma packets_inv_callback: "packets_inv s \<Longrightarrow> packets_inv (RTMPPacketCallBack now packet s)"
proof (cases packet)
  case (Some p)
  assume inv: "packets_inv s"
  let ?p = "stamp now s p"
  have sub: "subseq (handed s) (handed s @ [?p])" by (rule prefix_imp_subseq) simp
  show ?thesis
  proof (cases "work_flag (packets s) = 0")
    case True
    then show ?thesis
      using inv Some subseq_order.trans [OF _ sub, of "outgoing s"]
      by (simp add: packets_inv_alt callback_closed outgoing_def in_hand_def)
  next
    case False
    have "subseq (outgoing s @ [?p]) (handed s @ [?p])"
      using inv by (intro list_emb_append_mono) (auto simp: packets_inv_alt)
    with False inv Some show ?thesis
      by (simp add: packets_inv_alt callback_open outgoing_def in_hand_def)
  qed
qed (simp add: RTMPPacketCallBack_def)

lemma packets_inv_thread: "thread_step s s' \<Longrightarrow> packets_inv s \<Longrightarrow> packets_inv s'"
proof (induction rule: thread_step.induct)
  case (popped s q p)
  show ?case
    by (rule packets_inv_same [OF popped(3)]) (use sq.pop_conserves [OF popped(2)] popped in \<open>simp_all add: outgoing_def in_hand_def\<close>)
next
  case (popped_none s q)
  show ?case
    by (rule packets_inv_same [OF popped_none(3)]) (use sq.pop_conserves [OF popped_none(2)] popped_none in \<open>simp_all add: outgoing_def in_hand_def\<close>)
next
  case (clear_rest s)
  show ?case
    by (rule packets_inv_drop [OF clear_rest(2)]) (use clear_rest in \<open>simp_all add: outgoing_def in_hand_def\<close>)
qed (erule packets_inv_same; simp add: outgoing_def in_hand_def setWork_def)+

lemma packets_inv_other: "other_step s s' \<Longrightarrow> packets_inv s \<Longrightarrow> packets_inv s'"
proof (induction rule: other_step.induct)
  case (push s s')
  show ?case
    by (rule packets_inv_same [OF push(3)]) (use push in \<open>auto simp: sender_push_def outgoing_def in_hand_def rbind_Inr_iff split: if_splits\<close>)
next
  case (stop_clear s)
  show ?case
    by (rule packets_inv_drop [OF stop_clear(2)]) (use stop_clear in \<open>simp_all add: stop_clear_def outgoing_def in_hand_def\<close>)
next
  case (stop_join s s')
  show ?case
    by (rule packets_inv_same [OF stop_join(3)]) (use stop_join in \<open>auto simp: stop_join_def outgoing_def in_hand_def split: if_splits\<close>)
next
  case (open_audio s now info s')
  show ?case
  proof (cases "is_pushing s")
    case True
    with open_audio have "s' = (RTMPPacketCallBack now (Some info) s)
        \<lparr>is_pushing_audio := True, audio_data_thread := True\<rparr>"
      by (auto simp: openAudio_def Let_def rbind_Inr_iff)
    then show ?thesis
      using packets_inv_callback [OF open_audio(3), of now "Some info"]
      by (simp add: packets_inv_alt outgoing_def in_hand_def)
  qed (use open_audio in \<open>simp add: openAudio_def\<close>)
next
  case (frame_packet s now p)
  then show ?case by (simp add: packets_inv_callback)
next
  case (audio s now p)
  then show ?case by (simp add: packets_inv_callback)
qed (erule packets_inv_same;
     simp add: outgoing_def in_hand_def setWork_def stop_begin_def stop_work_def stopAudio_def setRtmpUrl_def
       receiveOneFrame_def frame_done_def)+

lemma packets_inv_reachable: "sender_reachable s \<Longrightarrow> packets_inv s"
proof (induction rule: sender_reachable.induct)
  case (init raw_time)
  then show ?case by (simp add: packets_inv_def new_VideoSender_def new_SafeQueue_def in_hand_def)
qed (blast intro: packets_inv_thread packets_inv_other)+

section \<open>How the two threads meet\<close>

definition quiet :: "sender \<Rightarrow> bool" where
  "quiet s \<longleftrightarrow> work_flag (packets s) = 0 \<and> que (packets s) = []"

text \<open>
  While the sender is pushing, its thread has not ended and no \<open>stop\<close> is running; without a thread,
  before its loop and after its \<open>clear\<close> the queue is closed and empty; a \<open>stop\<close> past its
  \<open>setWork(0)\<close> finds the queue closed if the thread is inside \<open>pop\<close>.
\<close>

definition ctl_inv :: "sender \<Rightarrow> bool" where
  "ctl_inv s \<longleftrightarrow>
     (is_pushing s \<longrightarrow> rtmp_push_thread s \<notin> {None, Some Ended} \<and> stopping s = Not_Stopping)
     \<and> (stopping s \<noteq> Not_Stopping \<longrightarrow> rtmp_push_thread s \<noteq> None)
     \<and> (rtmp_push_thread s \<in> {None, Some Connecting, Some Opening, Some Finishing, Some Ended} \<longrightarrow> quiet s)
     \<and> (rtmp_push_thread s = Some Clearing \<longrightarrow> work_flag (packets s) = 0)
     \<and> (rtmp_push_thread s = Some Popping \<and> stopping s \<in> {Stop_Clear, Stop_Join} \<longrightarrow>
          work_flag (packets s) = 0)"

text \<open>The callback leaves the control state alone, and a closed queue as it is.\<close>

lemma callback_ctl:
  "is_pushing (RTMPPacketCallBack now pk s) = is_pushing s"
  "rtmp_push_thread (RTMPPacketCallBack now pk s) = rtmp_push_thread s"
  "stopping (RTMPPacketCallBack now pk s) = stopping s"
  "work_flag (packets (RTMPPacketCallBack now pk s)) = work_flag (packets s)"
  "quiet s \<Longrightarrow> quiet (RTMPPacketCallBack now pk s)"
  by (cases pk; cases "work_flag (packets s) = 0";
      simp add: callback_closed callback_open quiet_def; simp add: RTMPPacketCallBack_def)+

lemma ctl_inv_callback: "ctl_inv s \<Longrightarrow> ctl_inv (RTMPPacketCallBack now pk s)"
  using callback_ctl [where now = now and pk = pk and s = s] unfolding ctl_inv_def by metis

lemma ctl_inv_thread: "thread_step s s' \<Longrightarrow> ctl_inv s \<Longrightarrow> ctl_inv s'"
  by (induction rule: thread_step.induct) (auto simp: ctl_inv_def quiet_def setWork_def)

lemma ctl_inv_other: "other_step s s' \<Longrightarrow> ctl_inv s \<Longrightarrow> ctl_inv s'"
proof (induction rule: other_step.induct)
  case (push s s')
  then show ?case by (auto simp: sender_push_def ctl_inv_def quiet_def ui_free_def rbind_Inr_iff split: if_splits)
next
  case (stop_begin s)
  then show ?case by (auto simp: stop_begin_def stopAudio_def ctl_inv_def quiet_def ui_free_def)
next
  case (stop_work s)
  then show ?case by (auto simp: stop_work_def ctl_inv_def quiet_def setWork_def)
next
  case (stop_clear s)
  then show ?case by (auto simp: stop_clear_def ctl_inv_def quiet_def)
next
  case (stop_join s s')
  then show ?case by (auto simp: stop_join_def ctl_inv_def quiet_def split: if_splits)
next
  case (open_audio s now info s')
  show ?case
  proof (cases "is_pushing s")
    case True
    with open_audio have "s' = (RTMPPacketCallBack now (Some info) s)
        \<lparr>is_pushing_audio := True, audio_data_thread := True\<rparr>"
      by (auto simp: openAudio_def Let_def rbind_Inr_iff)
    then show ?thesis
      using ctl_inv_callback [OF open_audio(3), of now "Some info"] by (simp add: ctl_inv_def quiet_def)
  qed (use open_audio in \<open>simp add: openAudio_def\<close>)
qed (auto simp: ctl_inv_callback, auto simp: ctl_inv_def quiet_def setRtmpUrl_def stopAudio_def
    receiveOneFrame_def frame_done_def)

lemma ctl_inv_reachable: "sender_reachable s \<Longrightarrow> ctl_inv s"
proof (induction rule: sender_reachable.induct)
  case (init raw_time)
  then show ?case by (simp add: ctl_inv_def quiet_def new_VideoSender_def new_SafeQueue_def)
qed (blast intro: ctl_inv_thread ctl_inv_other)+

interpretation sw: worker sender_reachable is_pushing rtmp_push_thread Ended sender_push stop_begin
proof
  fix s :: sender
  show "sender_reachable s \<Longrightarrow> is_pushing s \<Longrightarrow> rtmp_push_thread s \<notin> {None, Some Ended}"
    using ctl_inv_reachable [of s] by (simp add: ctl_inv_def)
qed (auto simp: sender_push_def stop_begin_def)

section \<open>A run\<close>

text \<open>A run in which the connection is made, one packet is sent, and the second send fails.\<close>

definition demo_packet :: "u8 \<Rightarrow> rtmp_packet" where
  "demo_packet n = \<lparr>m_headerType = 0, m_packetType = n, m_hasAbsTimestamp = 0, m_nChannel = 4,
     m_nTimeStamp = 0, m_nInfoField2 = 0, m_nBodySize = 0, m_nBytesRead = 0, m_body = None\<rparr>"

definition at_pc :: "push_pc option \<Rightarrow> bool \<Rightarrow> int \<Rightarrow> stop_pc \<Rightarrow> sender" where
  "at_pc pc on work st = (new_VideoSender 0)\<lparr>rtmp_push_thread := pc, is_pushing := on,
     packets := \<lparr>que = [], work_flag = work\<rparr>, stopping := st\<rparr>"

lemma new_at_pc: "new_VideoSender 0 = at_pc None False 0 Not_Stopping"
  by (simp add: at_pc_def new_VideoSender_def new_SafeQueue_def)

lemma reach_connecting: "sender_reachable (at_pc (Some Connecting) True 0 Not_Stopping)"
proof (rule sender_reachable.other [OF sender_reachable.init [of 0] other_step.push])
  show "sender_push (new_VideoSender 0) = Inr (at_pc (Some Connecting) True 0 Not_Stopping)"
    by (simp add: sender_push_def new_at_pc) (simp add: at_pc_def new_VideoSender_def)
qed (simp add: new_VideoSender_def ui_free_def)

lemma reach_closing: "sender_reachable (at_pc (Some Closing) True 0 Not_Stopping)"
  using sender_reachable.thread [OF reach_connecting thread_step.connect_failed] by (simp add: at_pc_def new_VideoSender_def)

lemma reach_clearing: "sender_reachable (at_pc (Some Clearing) True 0 Not_Stopping)"
  using sender_reachable.thread [OF reach_closing thread_step.close] by (simp add: at_pc_def new_VideoSender_def setWork_def)

lemma reach_finishing: "sender_reachable (at_pc (Some Finishing) True 0 Not_Stopping)"
  using sender_reachable.thread [OF reach_clearing thread_step.clear_rest]
  by (simp add: at_pc_def new_VideoSender_def)

lemma reach_ended: "sender_reachable (at_pc (Some Ended) False 0 Not_Stopping)"
  using sender_reachable.thread [OF reach_finishing thread_step.finish] by (simp add: at_pc_def new_VideoSender_def)

lemma reach_opening: "sender_reachable (at_pc (Some Opening) True 0 Not_Stopping)"
  using sender_reachable.thread [OF reach_connecting thread_step.connected [where now = 0]]
  by (simp add: at_pc_def new_VideoSender_def)

lemma reach_looping: "sender_reachable (at_pc (Some Looping) True 1 Not_Stopping)"
  using sender_reachable.thread [OF reach_opening thread_step.opened] by (simp add: at_pc_def new_VideoSender_def setWork_def)

lemma reach_popping: "sender_reachable (at_pc (Some Popping) True 1 Not_Stopping)"
  using sender_reachable.thread [OF reach_looping thread_step.loop_on] by (simp add: at_pc_def new_VideoSender_def)

lemma reach_join: "sender_reachable (at_pc (Some Popping) False 0 Stop_Join)"
proof -
  have "sender_reachable (at_pc (Some Popping) False 1 Stop_Work)"
    using sender_reachable.other [OF reach_popping other_step.stop_begin]
    by (simp add: at_pc_def stop_begin_def new_VideoSender_def ui_free_def)
  then have "sender_reachable (at_pc (Some Popping) False 0 Stop_Clear)"
    using sender_reachable.other [OF _ other_step.stop_work, of "at_pc (Some Popping) False 1 Stop_Work"]
    by (simp add: at_pc_def new_VideoSender_def stop_work_def setWork_def)
  then show ?thesis
    using sender_reachable.other [OF _ other_step.stop_clear, of "at_pc (Some Popping) False 0 Stop_Clear"]
    by (simp add: at_pc_def stop_clear_def new_VideoSender_def)
qed

definition demo_sent :: sender where
  "demo_sent = (at_pc (Some (Holding (demo_packet 9))) True 1 Not_Stopping)\<lparr>handed := [demo_packet 9]\<rparr>"

lemma reach_holding: "sender_reachable demo_sent"
proof -
  let ?s = "at_pc (Some Popping) True 1 Not_Stopping"
  have "sender_reachable (receiveOneFrame ?s)"
    by (rule sender_reachable.other [OF reach_popping other_step.frame])
      (simp add: at_pc_def new_VideoSender_def ui_free_def)
  then have "sender_reachable (?s\<lparr>encoding := True\<rparr>)" by (simp add: receiveOneFrame_def at_pc_def)
  from sender_reachable.other [OF this other_step.frame_packet [where now = 0 and p = "demo_packet 9"]]
  have "sender_reachable (?s\<lparr>encoding := True, packets := \<lparr>que = [demo_packet 9], work_flag = 1\<rparr>,
      handed := [demo_packet 9]\<rparr>)"
    by (simp add: at_pc_def callback_open stamp_def new_VideoSender_def demo_packet_def)
  from sender_reachable.other [OF this other_step.frame_done]
  have r: "sender_reachable
      (?s\<lparr>packets := \<lparr>que = [demo_packet 9], work_flag = 1\<rparr>, handed := [demo_packet 9]\<rparr>)"
    by (simp add: frame_done_def at_pc_def new_VideoSender_def)
  show ?thesis
    using sender_reachable.thread [OF r thread_step.popped, of "\<lparr>que = [], work_flag = 1\<rparr>" "demo_packet 9"]
    by (simp add: demo_sent_def at_pc_def new_VideoSender_def pop_def)
qed

section \<open>The properties\<close>

text \<open>C11: whatever the interleaving of the encoders, the user and the sending thread, no packet is lost,
  duplicated or reordered: every packet handed to the callback has been sent once, dropped once by
  a closed queue or a \<open>clear\<close>, or is still on its way; and the packets sent, followed by those on
  their way, are in the order in which the encoders produced them.\<close>

theorem sender_keeps_packets:
  assumes "sender_reachable s"
  shows "mset (handed s) = mset (map fst (sent s)) + mset (dropped s) + mset (in_hand s @ que (packets s))
    \<and> subseq (map fst (sent s) @ in_hand s @ que (packets s)) (handed s)"
  using packets_inv_reachable [OF assms] by (simp add: packets_inv_def)

theorem sender_keeps_packets_witness:
  "sender_reachable demo_sent \<and> mset (handed demo_sent) = {#} + {#} + {#demo_packet 9#}"
  using sender_keeps_packets [OF reach_holding] reach_holding
  by (simp add: demo_sent_def at_pc_def new_VideoSender_def in_hand_def)

text \<open>C12: when no sending thread exists, after a completed \<open>stop\<close> for example, and also after the
  thread has ended by itself, the queue is closed and empty, so that a later packet is released at
  once and the next session starts without stale packets.\<close>

theorem stopped_is_quiet:
  assumes "sender_reachable s" and "rtmp_push_thread s = None \<or> rtmp_push_thread s = Some Ended"
  shows "que (packets s) = [] \<and> \<not> is_pushing s
    \<and> RTMPPacketCallBack now (Some p) s =
        s\<lparr>handed := handed s @ [stamp now s p], dropped := dropped s @ [stamp now s p]\<rparr>"
  using ctl_inv_reachable [OF assms(1)] assms(2) by (auto simp: ctl_inv_def quiet_def callback_closed)

theorem stopped_is_quiet_witness:
  "sender_reachable (at_pc (Some Ended) False 0 Not_Stopping)
    \<and> dropped (RTMPPacketCallBack 7 (Some (demo_packet 9)) (at_pc (Some Ended) False 0 Not_Stopping)) =
        [stamp 7 (at_pc (Some Ended) False 0 Not_Stopping) (demo_packet 9)]"
  using stopped_is_quiet [OF reach_ended, of 7 "demo_packet 9"] reach_ended
  by (simp add: at_pc_def new_VideoSender_def)

text \<open>The number of steps the sending thread has left once the sender is not pushing.\<close>

definition rank :: "sender \<Rightarrow> nat" where
  "rank s = (case rtmp_push_thread s of
     None \<Rightarrow> 0 | Some Ended \<Rightarrow> 0 | Some Finishing \<Rightarrow> 1 | Some Clearing \<Rightarrow> 2 | Some Closing \<Rightarrow> 3
   | Some Looping \<Rightarrow> 4 | Some (Holding _) \<Rightarrow> 5 | Some Popping \<Rightarrow> 6 | Some Opening \<Rightarrow> 7 | Some Connecting \<Rightarrow> 8)"

lemma thread_step_rank: "thread_step s s' \<Longrightarrow> \<not> is_pushing s \<Longrightarrow> rank s' < rank s"
  by (induction rule: thread_step.induct) (simp_all add: rank_def)

lemma thread_progress:
  assumes "rtmp_push_thread s = Some pc" and "pc \<noteq> Ended"
    and "pc = Popping \<Longrightarrow> work_flag (packets s) = 0"
  shows "\<exists>s'. thread_step s s'"
proof (cases pc)
  case Looping
  then show ?thesis using assms(1) thread_step.loop_on [of s] thread_step.loop_off [of s] by (cases "is_pushing s") auto
next
  case Popping
  have "pop (packets s) \<noteq> None" using assms(3) Popping by (simp add: sq.pop_blocks)
  then obtain q v where p: "pop (packets s) = Some (q, v)" by auto
  then show ?thesis
    using assms(1) Popping thread_step.popped [of s q] thread_step.popped_none [of s q]
    by (cases v) blast+
qed (use assms thread_step.connect_failed thread_step.opened thread_step.send_ok thread_step.close
       thread_step.clear_rest thread_step.finish in blast)+

text \<open>C13: a \<open>stop\<close> that waits in \<open>join\<close> returns: in every reachable state of that kind the sending
  thread is never blocked, each of its steps brings it closer to its end, it has at most eight
  left, and when there are none the join succeeds.\<close>

theorem stop_returns:
  assumes "sender_reachable s" and "stopping s = Stop_Join"
  shows "rank s \<le> 8 \<and> (\<forall>s'. thread_step s s' \<longrightarrow> rank s' < rank s)
    \<and> (0 < rank s \<longrightarrow> (\<exists>s'. thread_step s s')) \<and> (rank s = 0 \<longrightarrow> (\<exists>s'. stop_join s = Some s'))"
proof -
  have inv: "\<not> is_pushing s" "rtmp_push_thread s \<noteq> None"
    "rtmp_push_thread s = Some Popping \<Longrightarrow> work_flag (packets s) = 0"
    using ctl_inv_reachable [OF assms(1)] assms(2) by (auto simp: ctl_inv_def)
  then obtain pc where pc: "rtmp_push_thread s = Some pc" by auto
  have "rank s \<le> 8" "rank s = 0 \<longleftrightarrow> pc = Ended" using pc by (auto simp: rank_def split: push_pc.splits)
  then show ?thesis
    using thread_step_rank inv pc thread_progress [OF pc] by (auto simp: stop_join_def)
qed

theorem stop_returns_witness:
  "sender_reachable (at_pc (Some Popping) False 0 Stop_Join)
    \<and> rank (at_pc (Some Popping) False 0 Stop_Join) = 6
    \<and> (\<exists>s'. thread_step (at_pc (Some Popping) False 0 Stop_Join) s')"
  using stop_returns [OF reach_join] reach_join by (simp add: at_pc_def rank_def)

text \<open>A sender whose thread has ended by itself, because connecting or sending failed, cannot be
  used again: \<open>stop\<close> returns without joining the thread, and \<open>push\<close> then assigns over a
  joinable thread, which terminates the process.\<close>

theorem push_after_failure_terminates:
  assumes "sender_reachable s" and "rtmp_push_thread s = Some Ended"
  shows "stop_begin s = s \<and> sender_push s = Inl Terminate"
  by (rule sw.dead_worker [OF assms])

theorem push_after_failure_terminates_witness:
  "sender_reachable (at_pc (Some Ended) False 0 Not_Stopping)
    \<and> sender_push (at_pc (Some Ended) False 0 Not_Stopping) = Inl Terminate"
  using push_after_failure_terminates [OF reach_ended] reach_ended by (simp add: at_pc_def)

end
