(* ===== verification/Audio_Pump.thy ===== *)
theory Audio_Pump
  imports Prelude
begin

text \<open>
  The audio thread of \<open>openAudio\<close> in \<^verbatim>\<open>src/VideoSender.cpp\<close>: it collects
  the bytes of the sound device until a whole encoder input is there, encodes it, and sends the
  decoder info again before every tenth block. A read of the device is \<open>Some\<close> bytes, or
  \<open>None\<close> for the error result -1, which the code adds to \<open>ready\<close> like a length; a null device is
  not read, which is a read of no bytes. The audio channel is never null here: \<open>openAudio\<close> makes it
  before it starts the thread, and \<open>stopAudio\<close> joins the thread before it drops it. The result is
  what the thread asks the audio channel to do, in order.
\<close>

datatype audio_action = Send_Info | Encode "u8 list"

record audio_loop =
  ready :: int
  loop_count :: int
  loop_buf :: buffer

definition new_audio_loop :: "int \<Rightarrow> (nat \<Rightarrow> u8) \<Rightarrow> audio_loop" where
  "new_audio_loop len raw = \<lparr>ready = 0, loop_count = 0, loop_buf = \<lparr>buf_cap = nat len, buf_at = raw\<rparr>\<rparr>"

definition audio_read :: "u8 list option \<Rightarrow> audio_loop \<Rightarrow> audio_loop result" where
  "audio_read r st =
    (case r of
       None \<Rightarrow> Inr (st\<lparr>ready := ready st - 1\<rparr>)
     | Some d \<Rightarrow>
       (if ready st < 0 \<and> d \<noteq> [] then Inl OutOfBounds
        else rbind (wr (loop_buf st) (nat (ready st)) d) (\<lambda>b.
          Inr (st\<lparr>ready := ready st + int (length d), loop_buf := b\<rparr>))))"

definition audio_pass :: "int \<Rightarrow> u8 list option \<Rightarrow> audio_loop \<Rightarrow> (audio_action list \<times> audio_loop) result" where
  "audio_pass len r st =
     rbind (audio_read r st) (\<lambda>st.
       if ready st < len then Inr ([], st)
       else rbind (rd_slice (loop_buf st) 0 (nat len)) (\<lambda>d.
         Inr ((if loop_count st mod 10 = 0 then [Send_Info] else []) @ [Encode d],
           st\<lparr>loop_count := loop_count st + 1, ready := 0\<rparr>)))"

fun audio_run :: "int \<Rightarrow> u8 list option list \<Rightarrow> audio_loop \<Rightarrow> (audio_action list \<times> audio_loop) result" where
  "audio_run len [] st = Inr ([], st)"
| "audio_run len (r # rs) st =
     rbind (audio_pass len r st) (\<lambda>(as, st). rbind (audio_run len rs st) (\<lambda>(bs, st). Inr (as @ bs, st)))"

section \<open>Rechunking\<close>

text \<open>The device returns at most what it is asked for, \<open>len - ready\<close> bytes.\<close>

fun reads_fit :: "nat \<Rightarrow> nat \<Rightarrow> u8 list list \<Rightarrow> bool" where
  "reads_fit len r [] = True"
| "reads_fit len r (d # ds) =
    (r + length d \<le> len \<and> reads_fit len (if r + length d < len then r + length d else 0) ds)"

text \<open>The actions for the blocks from number \<open>k\<close> on.\<close>

fun block_actions :: "nat \<Rightarrow> u8 list list \<Rightarrow> audio_action list" where
  "block_actions k [] = []"
| "block_actions k (b # bs) =
    (if k mod 10 = 0 then [Send_Info] else []) @ [Encode b] @ block_actions (Suc k) bs"

definition holds_bytes :: "nat \<Rightarrow> nat \<Rightarrow> u8 list \<Rightarrow> audio_loop \<Rightarrow> bool" where
  "holds_bytes len k acc st \<longleftrightarrow> ready st = int (length acc) \<and> length acc < len
     \<and> loop_count st = int k \<and> buf_cap (loop_buf st) = len \<and> buf_holds (loop_buf st) 0 acc"

lemma audio_pass_some:
  assumes st: "holds_bytes len k acc st" and d: "length acc + length d \<le> len"
  obtains st' where "audio_pass (int len) (Some d) st =
      Inr (if length acc + length d < len then [] else block_actions k [acc @ d], st')"
    and "if length acc + length d < len then holds_bytes len k (acc @ d) st'
         else holds_bytes len (Suc k) [] st'"
proof -
  obtain b where w: "wr (loop_buf st) (length acc) d = Inr b"
    using wr_ok [of "length acc" d "loop_buf st"] st d by (auto simp: holds_bytes_def)
  have b: "buf_cap b = len" "buf_holds b 0 (acc @ d)"
    using wr_cap [OF w] wr_holds [OF w] wr_keeps [OF w, of 0 acc] st
    by (auto simp: holds_bytes_def buf_holds_append)
  let ?st = "st\<lparr>ready := int (length acc + length d), loop_buf := b\<rparr>"
  have r: "audio_read (Some d) st = Inr ?st"
    using st w by (simp add: audio_read_def holds_bytes_def)
  show thesis
  proof (cases "length acc + length d < len")
    case True
    then show thesis
      using that [of ?st] r b st by (simp add: audio_pass_def holds_bytes_def)
  next
    case False
    then have l: "length (acc @ d) = len" using d by simp
    have s: "rd_slice b 0 len = Inr (acc @ d)" using rd_slice_holds [OF b(2)] l by simp
    have pos: "0 < len" using st by (simp add: holds_bytes_def)
    have "holds_bytes len (Suc k) [] (?st\<lparr>loop_count := int k + 1, ready := 0\<rparr>)"
      using b(1) pos by (simp add: holds_bytes_def buf_holds_Nil)
    moreover have "int k mod 10 = 0 \<longleftrightarrow> k mod 10 = 0" by (metis of_nat_eq_0_iff of_nat_numeral zmod_int)
    ultimately show thesis
      using that [of "?st\<lparr>loop_count := int k + 1, ready := 0\<rparr>"] r s l False st
      by (auto simp: audio_pass_def holds_bytes_def)
  qed
qed

lemma audio_run_blocks:
  assumes "holds_bytes len k acc st" and "reads_fit len (length acc) ds"
  shows "\<exists>st' blocks rest. audio_run (int len) (map Some ds) st = Inr (block_actions k blocks, st')
    \<and> acc @ concat ds = concat blocks @ rest \<and> (\<forall>b \<in> set blocks. length b = len)
    \<and> holds_bytes len (k + length blocks) rest st'"
  using assms
proof (induction ds arbitrary: k acc st)
  case Nil
  then show ?case by (intro exI [of _ st] exI [of _ "[]"] exI [of _ acc]) simp
next
  case (Cons d ds)
  have fit: "length acc + length d \<le> len" using Cons.prems(2) by simp
  obtain st1 where st1: "audio_pass (int len) (Some d) st =
      Inr (if length acc + length d < len then [] else block_actions k [acc @ d], st1)"
    and h1: "if length acc + length d < len then holds_bytes len k (acc @ d) st1
         else holds_bytes len (Suc k) [] st1"
    by (rule audio_pass_some [OF Cons.prems(1) fit])
  show ?case
  proof (cases "length acc + length d < len")
    case True
    obtain st2 blocks rest where "audio_run (int len) (map Some ds) st1 = Inr (block_actions k blocks, st2)"
      "(acc @ d) @ concat ds = concat blocks @ rest" "\<forall>b \<in> set blocks. length b = len"
      "holds_bytes len (k + length blocks) rest st2"
      using Cons.IH [of k "acc @ d" st1] h1 True Cons.prems(2) by auto
    then show ?thesis
      using True st1 by (intro exI [of _ st2] exI [of _ blocks] exI [of _ rest]) simp
  next
    case False
    obtain st2 blocks rest where "audio_run (int len) (map Some ds) st1 = Inr (block_actions (Suc k) blocks, st2)"
      "concat ds = concat blocks @ rest" "\<forall>b \<in> set blocks. length b = len"
      "holds_bytes len (Suc k + length blocks) rest st2"
      using Cons.IH [of "Suc k" "[]" st1] h1 False Cons.prems(2) by auto
    then show ?thesis
      using False st1 fit
      by (intro exI [of _ st2] exI [of _ "(acc @ d) # blocks"] exI [of _ rest]) simp
  qed
qed

text \<open>C27: however the sound device cuts its stream into reads, the audio thread encodes it in
  consecutive blocks of exactly the encoder's input size, loses and repeats no byte, keeps what is
  left for the next block, and sends the decoder info before the first and every tenth block.\<close>

theorem audio_rechunks:
  assumes "0 < len" and "reads_fit len 0 ds"
  shows "\<exists>st blocks rest. audio_run (int len) (map Some ds) (new_audio_loop (int len) raw) =
      Inr (block_actions 0 blocks, st)
    \<and> concat ds = concat blocks @ rest \<and> (\<forall>b \<in> set blocks. length b = len) \<and> length rest < len"
proof -
  have "holds_bytes len 0 [] (new_audio_loop (int len) raw)"
    using assms(1) by (simp add: holds_bytes_def new_audio_loop_def buf_holds_Nil)
  from audio_run_blocks [OF this, of ds] assms(2) show ?thesis by (auto simp: holds_bytes_def)
qed

theorem audio_rechunks_witness:
  "\<exists>st blocks rest. audio_run (int 2) (map Some [[1], [2], [3 :: u8]]) (new_audio_loop (int 2) (\<lambda>_. 0)) =
      Inr (block_actions 0 blocks, st) \<and> [1, 2, 3] = concat blocks @ rest
    \<and> (\<forall>b \<in> set blocks. length b = 2) \<and> length rest < 2"
  using audio_rechunks [of 2 "[[1], [2], [3]]" "\<lambda>_. 0"] by simp

text \<open>An error of the sound device at the start of a block makes the thread write in front of its
  buffer at the next read that returns data.\<close>

lemma audio_error_underflow:
  assumes "d \<noteq> []" and "0 < len"
  shows "audio_run len [None, Some d] (new_audio_loop len raw) = Inl OutOfBounds"
  using assms by (simp add: audio_pass_def audio_read_def new_audio_loop_def)

end
