(* ===== verification/String_Map.thy ===== *)
theory String_Map
  imports Prelude "HOL-Library.List_Lexorder" "HOL-Library.Char_ord"
begin

text \<open>
  \<^verbatim>\<open>std::map\<close> with string keys, which holds the settings and the members of JSON
  objects: its entries in key order. The interface \<open>string_map\<close> is what its clients rely on.
\<close>

text \<open>What a client of \<open>std::map\<close> relies on.\<close>

locale string_map =
  fixes lookup :: "'m \<Rightarrow> string \<Rightarrow> 'v option" and put :: "string \<Rightarrow> 'v \<Rightarrow> 'm \<Rightarrow> 'm"
    and entries :: "'m \<Rightarrow> (string \<times> 'v) list" and empty_map :: 'm and wf :: "'m \<Rightarrow> bool"
  assumes lookup_put: "wf m \<Longrightarrow> lookup (put k v m) = (lookup m)(k \<mapsto> v)"
    and lookup_empty: "lookup empty_map = (\<lambda>_. None)"
    and entries_lookup: "wf m \<Longrightarrow> map_of (entries m) = lookup m"
    and entries_distinct: "wf m \<Longrightarrow> distinct (map fst (entries m))"
    and wf_put: "wf m \<Longrightarrow> wf (put k v m)" and wf_empty: "wf empty_map"
    and wf_unique: "wf m \<Longrightarrow> wf m' \<Longrightarrow> lookup m = lookup m' \<Longrightarrow> m = m'"
begin

text \<open>Putting all entries of a list, in order.\<close>

definition put_all :: "(string \<times> 'v) list \<Rightarrow> 'm \<Rightarrow> 'm" where
  "put_all es m = fold (\<lambda>(k, v). put k v) es m"

lemma wf_put_all: "wf m \<Longrightarrow> wf (put_all es m)"
  by (induction es arbitrary: m) (auto simp: put_all_def wf_put)

lemma lookup_put_all: "wf m \<Longrightarrow> lookup (put_all es m) = lookup m ++ map_of (rev es)"
proof (induction es arbitrary: m)
  case (Cons e es)
  then show ?case
    by (cases e) (simp add: put_all_def lookup_put wf_put map_add_def fun_eq_iff split: option.splits)
qed (simp add: put_all_def)

lemma put_all_entries:
  assumes "wf m"
  shows "put_all (entries m) empty_map = m"
proof (rule wf_unique [OF wf_put_all [OF wf_empty] assms])
  have "map_of (rev (entries m)) = map_of (entries m)"
    using entries_distinct [OF assms] by (intro map_of_inject_set [THEN iffD2]) (simp_all flip: rev_map)
  then show "lookup (put_all (entries m) empty_map) = lookup m"
    by (simp add: lookup_put_all [OF wf_empty] lookup_empty entries_lookup [OF assms])
qed

end

fun map_put :: "string \<Rightarrow> 'v \<Rightarrow> (string \<times> 'v) list \<Rightarrow> (string \<times> 'v) list" where
  "map_put k v [] = [(k, v)]"
| "map_put k v ((k', v') # es) =
    (if k < k' then (k, v) # (k', v') # es
     else if k = k' then (k, v) # es
     else (k', v') # map_put k v es)"

definition key_order :: "(string \<times> 'v) list \<Rightarrow> bool" where
  "key_order es \<longleftrightarrow> sorted_wrt (<) (map fst es)"

lemma map_of_map_put: "key_order es \<Longrightarrow> map_of (map_put k v es) = (map_of es)(k \<mapsto> v)"
proof (induction es)
  case (Cons e es)
  obtain k' v' where e: "e = (k', v')" by (cases e)
  have "key_order es" and lt: "\<forall>x \<in> set (map fst es). k' < x" using Cons.prems by (auto simp: key_order_def e)
  then show ?case using Cons.IH by (auto simp: e fun_eq_iff)
qed simp

lemma keys_map_put: "set (map fst (map_put k v es)) = insert k (set (map fst es))"
  by (induction k v es rule: map_put.induct) auto

lemma key_order_map_put: "key_order es \<Longrightarrow> key_order (map_put k v es)"
proof (induction k v es rule: map_put.induct)
  case (2 k v k' v' es)
  then show ?case
    using keys_map_put [of k v es] by (auto simp: key_order_def)
qed (simp add: key_order_def)

lemma key_order_distinct: "key_order es \<Longrightarrow> distinct (map fst es)"
  by (simp add: key_order_def strict_sorted_iff)

lemma entries_from_map:
  assumes "distinct (map fst es)"
  shows "map (\<lambda>k. (k, the (map_of es k))) (map fst es) = es"
  using assms by (auto intro!: map_idI)

lemma key_order_unique:
  assumes "key_order es" and "key_order es'" and "map_of es = map_of es'"
  shows "es = es'"
proof -
  have "set es = set es'"
    using assms map_of_inject_set [of es es'] by (simp add: key_order_distinct)
  then have "map fst es = map fst es'"
    using assms(1,2) by (intro strict_sorted_equal) (auto simp: key_order_def)
  then show ?thesis
    using entries_from_map [of es] entries_from_map [of es'] assms by (simp add: key_order_distinct)
qed

interpretation sm: string_map map_of map_put "\<lambda>es. es" "[]" key_order
proof
  show "key_order []" by (simp add: key_order_def)
qed (auto simp: map_of_map_put key_order_distinct key_order_map_put key_order_unique)

text \<open>\<open>c_str()\<close>: a string given as a pointer ends at its first NUL.\<close>

definition c_str :: "string \<Rightarrow> string" where
  "c_str v = takeWhile (\<lambda>c. c \<noteq> CHR 0x00) v"

end
