(* ===== verification/Json.thy ===== *)
theory Json
  imports String_Map
begin

text \<open>
  The values of \<^verbatim>\<open>src/include/nlohmann/json.hpp\<close>: the variant \<open>basic_json\<close>,
  the constructor from an initializer list of pairs, and \<open>value(key, default)\<close> with the
  conversions of \<^verbatim>\<open>detail/conversions/from_json.hpp\<close>. Strings are byte strings; the
  members of an object are the entries of a \<open>std::map\<close>; integers are 64-bit words, signed for
  \<open>J_Integer\<close>; a \<open>double\<close> is the word of its IEEE 754 representation.
\<close>

type_synonym u64 = "64 word"
type_synonym double = "64 word"

section \<open>Doubles\<close>

definition double_exponent :: "double \<Rightarrow> nat" where
  "double_exponent d = unat (drop_bit 52 d AND 0x7FF)"

definition double_fraction :: "double \<Rightarrow> nat" where
  "double_fraction d = unat (take_bit 52 d)"

definition isfinite :: "double \<Rightarrow> bool" where
  "isfinite d \<longleftrightarrow> double_exponent d \<noteq> 0x7FF"

text \<open>The integer a finite double is truncated to.\<close>

definition double_trunc :: "double \<Rightarrow> int" where
  "double_trunc d =
    (let e = double_exponent d;
         m = (if e = 0 then double_fraction d else double_fraction d + 2 ^ 52);
         a = (if 1075 \<le> e then m * 2 ^ (e - 1075) else m div 2 ^ (1075 - max e 1)) in
     if bit d 63 then - int a else int a)"

section \<open>Text\<close>

text \<open>The decimal digits of a number, as \<open>std::to_string\<close> writes them.\<close>

fun nat_text :: "nat \<Rightarrow> string" where
  "nat_text n = (if n < 10 then [char_of (48 + n)] else nat_text (n div 10) @ [char_of (48 + n mod 10)])"

declare nat_text.simps [simp del]

section \<open>Values\<close>

datatype json =
    J_Null
  | J_Object "(string \<times> json) list"
  | J_Array "json list"
  | J_String string
  | J_Bool bool
  | J_Integer u64
  | J_Unsigned u64
  | J_Float double
  | J_Binary "u8 list" "u64 option"
  | J_Discarded

text \<open>\<open>emplace\<close> keeps the entry there is.\<close>

definition map_emplace :: "string \<times> json \<Rightarrow> (string \<times> json) list \<Rightarrow> (string \<times> json) list" where
  "map_emplace e ms = (if map_of ms (fst e) = None then map_put (fst e) (snd e) ms else ms)"

definition json_init :: "(string \<times> json) list \<Rightarrow> json" where
  "json_init init = J_Object (fold map_emplace init [])"

definition json_value ::
    "(json \<Rightarrow> 'a result) \<Rightarrow> string \<Rightarrow> 'a \<Rightarrow> json \<Rightarrow> 'a result" where
  "json_value get key default_value j =
    (case j of
       J_Object ms \<Rightarrow> (case map_of ms key of Some it \<Rightarrow> get it | None \<Rightarrow> Inr default_value)
     | _ \<Rightarrow> Inl TypeError)"

fun get_string :: "json \<Rightarrow> string result" where
  "get_string (J_String s) = Inr s"
| "get_string _ = Inl TypeError"

text \<open>Integers are cut to 32 bits; a double outside the range of \<open>int\<close> has no defined result.\<close>

fun get_int :: "json \<Rightarrow> int result" where
  "get_int (J_Unsigned n) = Inr (sint (ucast n :: u32))"
| "get_int (J_Integer n) = Inr (sint (ucast n :: u32))"
| "get_int (J_Float d) =
    (let n = double_trunc d in
     if isfinite d \<and> - (2 ^ 31) \<le> n \<and> n < 2 ^ 31 then Inr n else Inl Undefined)"
| "get_int (J_Bool b) = Inr (of_bool b)"
| "get_int _ = Inl TypeError"

definition value_string :: "string \<Rightarrow> string \<Rightarrow> json \<Rightarrow> string result" where
  "value_string = json_value get_string"

definition value_int :: "string \<Rightarrow> int \<Rightarrow> json \<Rightarrow> int result" where
  "value_int = json_value get_int"

definition value_json :: "string \<Rightarrow> json \<Rightarrow> json \<Rightarrow> json result" where
  "value_json = json_value Inr"

lemmas json_defs = value_string_def value_int_def value_json_def json_value_def

lemma value_on_null [simp]:
  "value_string k d J_Null = Inl TypeError" "value_int k n J_Null = Inl TypeError"
  "value_json k j J_Null = Inl TypeError"
  by (simp_all add: json_defs)

text \<open>An initializer list gives its pairs as members, the first of those with the same key.\<close>

lemma fold_emplace:
  assumes "key_order ms"
  shows "key_order (fold map_emplace init ms) \<and> map_of (fold map_emplace init ms) = map_of init ++ map_of ms"
  using assms
proof (induction init arbitrary: ms)
  case (Cons e init)
  have "key_order (map_emplace e ms)" using Cons.prems by (simp add: map_emplace_def key_order_map_put)
  moreover have "map_of (map_emplace e ms) = map_of [e] ++ map_of ms"
    using Cons.prems by (cases e) (auto simp: map_emplace_def map_of_map_put fun_eq_iff map_add_def split: option.split)
  ultimately show ?case using Cons.IH [of "map_emplace e ms"]
    by (cases e) (auto simp: map_add_def fun_eq_iff split: option.split)
qed simp

lemma json_init_members:
  "\<exists>ms. json_init init = J_Object ms \<and> key_order ms \<and> map_of ms = map_of init"
  using fold_emplace [of "[]" init] by (simp add: json_init_def key_order_def)

end
