(* ===== verification/Float_Text.thy ===== *)
theory Float_Text
  imports Json
begin

text \<open>
  \<^verbatim>\<open>src/include/nlohmann/detail/conversions/to_chars.hpp\<close>: the Grisu2 algorithm
  that prints a \<open>double\<close>. The unsigned variables are words of their width, so that overflow
  would show; \<open>int\<close> variables are integers. \<open>JSON_ASSERT\<close> is the assertion of the
  standard library, which terminates the program when it fails. A buffer is the characters written
  so far, with the capacity as a parameter.
\<close>

definition json_assert :: "bool \<Rightarrow> unit result" where
  "json_assert b = check b Terminate"

text \<open>Division of \<open>int\<close>, truncating.\<close>

definition int_div :: "int \<Rightarrow> int \<Rightarrow> int" where
  "int_div a b = sgn a * sgn b * (\<bar>a\<bar> div \<bar>b\<bar>)"

section \<open>Do-it-yourself floating point\<close>

record diyfp =
  dy_f :: u64
  dy_e :: int

definition diyfp_sub :: "diyfp \<Rightarrow> diyfp \<Rightarrow> diyfp result" where
  "diyfp_sub x y =
     rbind (json_assert (dy_e x = dy_e y)) (\<lambda>_.
     rbind (json_assert (dy_f y \<le> dy_f x)) (\<lambda>_. Inr \<lparr>dy_f = dy_f x - dy_f y, dy_e = dy_e x\<rparr>))"

definition diyfp_mul :: "diyfp \<Rightarrow> diyfp \<Rightarrow> diyfp" where
  "diyfp_mul x y =
    (let u_lo = dy_f x AND 0xFFFFFFFF; u_hi = drop_bit 32 (dy_f x);
         v_lo = dy_f y AND 0xFFFFFFFF; v_hi = drop_bit 32 (dy_f y);
         p0 = u_lo * v_lo; p1 = u_lo * v_hi; p2 = u_hi * v_lo; p3 = u_hi * v_hi;
         p0_hi = drop_bit 32 p0;
         p1_lo = p1 AND 0xFFFFFFFF; p1_hi = drop_bit 32 p1;
         p2_lo = p2 AND 0xFFFFFFFF; p2_hi = drop_bit 32 p2;
         Q = p0_hi + p1_lo + p2_lo;
         Q = Q + push_bit (64 - 32 - 1) 1;
         h = p3 + p2_hi + p1_hi + drop_bit 32 Q in
     \<lparr>dy_f = h, dy_e = dy_e x + dy_e y + 64\<rparr>)"

text \<open>The loop does not end for a zero significand, which the assertion excludes.\<close>

function normalize_loop :: "diyfp \<Rightarrow> diyfp" where
  "normalize_loop x =
    (if drop_bit 63 (dy_f x) = 0 \<and> dy_f x \<noteq> 0
     then normalize_loop \<lparr>dy_f = push_bit 1 (dy_f x), dy_e = dy_e x - 1\<rparr> else x)"
  by pat_completeness auto
termination
proof (relation "measure (\<lambda>x. 2 ^ 64 - unat (dy_f x))", goal_cases)
  case (2 x)
  have "unat (drop_bit 63 (dy_f x)) = unat (dy_f x) div 2 ^ 63" unfolding unat_drop_bit_eq by (rule drop_bit_eq_div)
  then have "unat (dy_f x) div 2 ^ 63 = 0" using 2 by simp
  then have "unat (dy_f x) < 2 ^ 63" by (simp add: div_eq_0_iff)
  moreover from this have "unat (push_bit 1 (dy_f x)) = 2 * unat (dy_f x)"
    by (simp add: push_bit_eq_mult unat_mult_lem [THEN iffD1])
  moreover have "0 < unat (dy_f x)" using 2 by (simp add: unat_gt_0)
  ultimately show ?case by simp
qed simp

declare normalize_loop.simps [simp del]

definition diyfp_normalize :: "diyfp \<Rightarrow> diyfp result" where
  "diyfp_normalize x = rbind (json_assert (dy_f x \<noteq> 0)) (\<lambda>_. Inr (normalize_loop x))"

definition diyfp_normalize_to :: "diyfp \<Rightarrow> int \<Rightarrow> diyfp result" where
  "diyfp_normalize_to x target_exponent =
    (let delta = dy_e x - target_exponent in
     rbind (json_assert (0 \<le> delta)) (\<lambda>_.
     rbind (json_assert (drop_bit (nat delta) (push_bit (nat delta) (dy_f x)) = dy_f x)) (\<lambda>_.
       Inr \<lparr>dy_f = push_bit (nat delta) (dy_f x), dy_e = target_exponent\<rparr>)))"

section \<open>The boundaries of a number\<close>

record boundaries =
  bd_w :: diyfp
  bd_minus :: diyfp
  bd_plus :: diyfp

text \<open>Whether a finite double is above zero.\<close>

definition is_positive :: "double \<Rightarrow> bool" where
  "is_positive d \<longleftrightarrow> \<not> bit d 63 \<and> d \<noteq> 0"

definition compute_boundaries :: "double \<Rightarrow> boundaries result" where
  "compute_boundaries bits =
    rbind (json_assert (isfinite bits)) (\<lambda>_.
    rbind (json_assert (is_positive bits)) (\<lambda>_.
    let kPrecision = 53; kBias = 1024 - 1 + (kPrecision - 1); kMinExp = 1 - kBias;
         kHiddenBit = push_bit 52 1 :: u64;
         E = drop_bit 52 bits; F = bits AND (kHiddenBit - 1);
         v = (if E = 0 then \<lparr>dy_f = F, dy_e = kMinExp\<rparr> else \<lparr>dy_f = F + kHiddenBit, dy_e = uint E - kBias\<rparr>);
         m_plus = \<lparr>dy_f = 2 * dy_f v + 1, dy_e = dy_e v - 1\<rparr>;
         m_minus = (if F = 0 \<and> 1 < E then \<lparr>dy_f = 4 * dy_f v - 1, dy_e = dy_e v - 2\<rparr>
                    else \<lparr>dy_f = 2 * dy_f v - 1, dy_e = dy_e v - 1\<rparr>) in
     rbind (diyfp_normalize m_plus) (\<lambda>w_plus.
     rbind (diyfp_normalize_to m_minus (dy_e w_plus)) (\<lambda>w_minus.
     rbind (diyfp_normalize v) (\<lambda>w. Inr \<lparr>bd_w = w, bd_minus = w_minus, bd_plus = w_plus\<rparr>)))))"

section \<open>Powers of ten\<close>

definition kCachedPowers :: "(u64 \<times> int \<times> int) list" where
  "kCachedPowers =
    [(0xAB70FE17C79AC6CA, -1060, -300), (0xFF77B1FCBEBCDC4F, -1034, -292), (0xBE5691EF416BD60C, -1007, -284),
     (0x8DD01FAD907FFC3C, -980, -276), (0xD3515C2831559A83, -954, -268), (0x9D71AC8FADA6C9B5, -927, -260),
     (0xEA9C227723EE8BCB, -901, -252), (0xAECC49914078536D, -874, -244), (0x823C12795DB6CE57, -847, -236),
     (0xC21094364DFB5637, -821, -228), (0x9096EA6F3848984F, -794, -220), (0xD77485CB25823AC7, -768, -212),
     (0xA086CFCD97BF97F4, -741, -204), (0xEF340A98172AACE5, -715, -196), (0xB23867FB2A35B28E, -688, -188),
     (0x84C8D4DFD2C63F3B, -661, -180), (0xC5DD44271AD3CDBA, -635, -172), (0x936B9FCEBB25C996, -608, -164),
     (0xDBAC6C247D62A584, -582, -156), (0xA3AB66580D5FDAF6, -555, -148), (0xF3E2F893DEC3F126, -529, -140),
     (0xB5B5ADA8AAFF80B8, -502, -132), (0x87625F056C7C4A8B, -475, -124), (0xC9BCFF6034C13053, -449, -116),
     (0x964E858C91BA2655, -422, -108), (0xDFF9772470297EBD, -396, -100), (0xA6DFBD9FB8E5B88F, -369, -92),
     (0xF8A95FCF88747D94, -343, -84), (0xB94470938FA89BCF, -316, -76), (0x8A08F0F8BF0F156B, -289, -68),
     (0xCDB02555653131B6, -263, -60), (0x993FE2C6D07B7FAC, -236, -52), (0xE45C10C42A2B3B06, -210, -44),
     (0xAA242499697392D3, -183, -36), (0xFD87B5F28300CA0E, -157, -28), (0xBCE5086492111AEB, -130, -20),
     (0x8CBCCC096F5088CC, -103, -12), (0xD1B71758E219652C, -77, -4), (0x9C40000000000000, -50, 4),
     (0xE8D4A51000000000, -24, 12), (0xAD78EBC5AC620000, 3, 20), (0x813F3978F8940984, 30, 28),
     (0xC097CE7BC90715B3, 56, 36), (0x8F7E32CE7BEA5C70, 83, 44), (0xD5D238A4ABE98068, 109, 52),
     (0x9F4F2726179A2245, 136, 60), (0xED63A231D4C4FB27, 162, 68), (0xB0DE65388CC8ADA8, 189, 76),
     (0x83C7088E1AAB65DB, 216, 84), (0xC45D1DF942711D9A, 242, 92), (0x924D692CA61BE758, 269, 100),
     (0xDA01EE641A708DEA, 295, 108), (0xA26DA3999AEF774A, 322, 116), (0xF209787BB47D6B85, 348, 124),
     (0xB454E4A179DD1877, 375, 132), (0x865B86925B9BC5C2, 402, 140), (0xC83553C5C8965D3D, 428, 148),
     (0x952AB45CFA97A0B3, 455, 156), (0xDE469FBD99A05FE3, 481, 164), (0xA59BC234DB398C25, 508, 172),
     (0xF6C69A72A3989F5C, 534, 180), (0xB7DCBF5354E9BECE, 561, 188), (0x88FCF317F22241E2, 588, 196),
     (0xCC20CE9BD35C78A5, 614, 204), (0x98165AF37B2153DF, 641, 212), (0xE2A0B5DC971F303A, 667, 220),
     (0xA8D9D1535CE3B396, 694, 228), (0xFB9B7CD9A4A7443C, 720, 236), (0xBB764C4CA7A44410, 747, 244),
     (0x8BAB8EEFB6409C1A, 774, 252), (0xD01FEF10A657842C, 800, 260), (0x9B10A4E5E9913129, 827, 268),
     (0xE7109BFBA19C0C9D, 853, 276), (0xAC2820D9623BF429, 880, 284), (0x80444B5E7AA7CF85, 907, 292),
     (0xBF21E44003ACDD2D, 933, 300), (0x8E679C2F5E44FF8F, 960, 308), (0xD433179D9C8CB841, 986, 316),
     (0x9E19DB92B4E31BA9, 1013, 324)]"

definition get_cached_power_for_binary_exponent :: "int \<Rightarrow> (u64 \<times> int \<times> int) result" where
  "get_cached_power_for_binary_exponent e =
     rbind (json_assert (-1500 \<le> e)) (\<lambda>_.
     rbind (json_assert (e \<le> 1500)) (\<lambda>_.
     let f = -60 - e - 1;
         k = int_div (f * 78913) (2 ^ 18) + of_bool (0 < f);
         index = int_div (300 + k + (8 - 1)) 8 in
     rbind (json_assert (0 \<le> index)) (\<lambda>_.
     rbind (json_assert (nat index < length kCachedPowers)) (\<lambda>_.
     let cached = kCachedPowers ! nat index in
     rbind (json_assert (-60 \<le> fst (snd cached) + e + 64)) (\<lambda>_.
     rbind (json_assert (fst (snd cached) + e + 64 \<le> -32)) (\<lambda>_. Inr cached))))))"

definition find_largest_pow10 :: "u32 \<Rightarrow> nat \<times> u32" where
  "find_largest_pow10 n =
    (if 1000000000 \<le> n then (10, 1000000000)
     else if 100000000 \<le> n then (9, 100000000)
     else if 10000000 \<le> n then (8, 10000000)
     else if 1000000 \<le> n then (7, 1000000)
     else if 100000 \<le> n then (6, 100000)
     else if 10000 \<le> n then (5, 10000)
     else if 1000 \<le> n then (4, 1000)
     else if 100 \<le> n then (3, 100)
     else if 10 \<le> n then (2, 10)
     else (1, 1))"

section \<open>Generating digits\<close>

definition decrement_last :: "string \<Rightarrow> string" where
  "decrement_last buf = butlast buf @ [char_of (of_char (last buf) - (1 :: nat))]"

text \<open>With \<open>ten_k\<close> zero the loop would not end.\<close>

function grisu2_round_loop :: "u64 \<Rightarrow> u64 \<Rightarrow> u64 \<Rightarrow> u64 \<Rightarrow> string \<Rightarrow> string result" where
  "grisu2_round_loop dist delta ten_k rest buf =
    (if rest < dist \<and> ten_k \<le> delta - rest \<and> (rest + ten_k < dist \<or> rest + ten_k - dist < dist - rest) then
       if ten_k = 0 then Inl Diverges
       else rbind (json_assert (last buf \<noteq> CHR ''0'')) (\<lambda>_.
         grisu2_round_loop dist delta ten_k (rest + ten_k) (decrement_last buf))
     else Inr buf)"
  by pat_completeness auto
termination
proof (relation "measure (\<lambda>(_, delta, _, rest, _). unat (delta - rest))", goal_cases)
  case (2 dist delta ten_k rest buf)
  then have "unat (delta - rest - ten_k) = unat (delta - rest) - unat ten_k" by (simp add: unat_sub)
  moreover have "0 < unat ten_k" "unat ten_k \<le> unat (delta - rest)"
    using 2 by (simp_all add: unat_gt_0 word_le_nat_alt)
  ultimately show ?case by (simp add: diff_diff_add)
qed simp

declare grisu2_round_loop.simps [simp del]

definition grisu2_round :: "string \<Rightarrow> u64 \<Rightarrow> u64 \<Rightarrow> u64 \<Rightarrow> u64 \<Rightarrow> string result" where
  "grisu2_round buf dist delta rest ten_k =
     rbind (json_assert (buf \<noteq> [])) (\<lambda>_.
     rbind (json_assert (dist \<le> delta)) (\<lambda>_.
     rbind (json_assert (rest \<le> delta)) (\<lambda>_.
     rbind (json_assert (0 < ten_k)) (\<lambda>_. grisu2_round_loop dist delta ten_k rest buf))))"

definition put_digit :: "nat \<Rightarrow> nat \<Rightarrow> string \<Rightarrow> string result" where
  "put_digit cap d buf =
     rbind (json_assert (d \<le> 9)) (\<lambda>_.
     rbind (check (length buf < cap) OutOfBounds) (\<lambda>_. Inr (buf @ [char_of (48 + d)])))"

text \<open>
  The first loop: the digits of the integral part. The result is the final buffer and exponent, or
  the buffer with which the second loop starts; \<open>sh\<close> is \<open>-one.e\<close>.
\<close>

fun integral_digits ::
    "nat \<Rightarrow> nat \<Rightarrow> u64 \<Rightarrow> u64 \<Rightarrow> u64 \<Rightarrow> int \<Rightarrow> nat \<Rightarrow> u32 \<Rightarrow> u32 \<Rightarrow> string \<Rightarrow> ((string \<times> int) + string) result"
where
  "integral_digits cap sh dist delta p2 decimal_exponent 0 p1 pow10 buf = Inr (Inr buf)"
| "integral_digits cap sh dist delta p2 decimal_exponent (Suc n) p1 pow10 buf =
     rbind (check (pow10 \<noteq> 0) DivByZero) (\<lambda>_.
     let d = p1 div pow10; r = p1 mod pow10 in
     rbind (put_digit cap (unat d) buf) (\<lambda>buf.
     let rest = push_bit sh (ucast r) + p2 in
     if rest \<le> delta then
       rbind (grisu2_round buf dist delta rest (push_bit sh (ucast pow10))) (\<lambda>buf.
         Inr (Inl (buf, decimal_exponent + int n)))
     else integral_digits cap sh dist delta p2 decimal_exponent n r (pow10 div 10) buf))"

text \<open>The second loop: the digits of the fractional part; \<open>m\<close> counts them.\<close>

function fraction_digits ::
    "nat \<Rightarrow> nat \<Rightarrow> u64 \<Rightarrow> u64 \<Rightarrow> u64 \<Rightarrow> u64 \<Rightarrow> int \<Rightarrow> string \<Rightarrow> (string \<times> int) result"
where
  "fraction_digits cap sh one_f dist delta p2 m buf =
     rbind (json_assert (p2 \<le> (2 ^ 64 - 1) div 10)) (\<lambda>_.
     let p2 = p2 * 10; d = drop_bit sh p2; r = p2 AND (one_f - 1) in
     rbind (put_digit cap (unat d) buf) (\<lambda>buf.
     let delta = delta * 10; dist = dist * 10; m = m + 1 in
     if r \<le> delta then rbind (grisu2_round buf dist delta r one_f) (\<lambda>buf. Inr (buf, m))
     else fraction_digits cap sh one_f dist delta r m buf))"
  by pat_completeness auto
termination
  by (relation "measure (\<lambda>(cap, _, _, _, _, _, _, buf). cap - length buf)")
    (auto simp: put_digit_def rbind_Inr_iff)

declare fraction_digits.simps [simp del]

definition grisu2_digit_gen ::
    "nat \<Rightarrow> int \<Rightarrow> diyfp \<Rightarrow> diyfp \<Rightarrow> diyfp \<Rightarrow> (string \<times> int) result" where
  "grisu2_digit_gen cap decimal_exponent M_minus w M_plus =
     rbind (json_assert (-60 \<le> dy_e M_plus)) (\<lambda>_.
     rbind (json_assert (dy_e M_plus \<le> -32)) (\<lambda>_.
     rbind (diyfp_sub M_plus M_minus) (\<lambda>delta.
     rbind (diyfp_sub M_plus w) (\<lambda>dist.
     let sh = nat (- dy_e M_plus); one_f = push_bit sh 1;
         p1 = ucast (drop_bit sh (dy_f M_plus)) :: u32; p2 = dy_f M_plus AND (one_f - 1) in
     rbind (json_assert (0 < p1)) (\<lambda>_.
     let (k, pow10) = find_largest_pow10 p1 in
     rbind (integral_digits cap sh (dy_f dist) (dy_f delta) p2 decimal_exponent k p1 pow10 []) (\<lambda>r.
     case r of
       Inl done \<Rightarrow> Inr done
     | Inr buf \<Rightarrow>
         rbind (json_assert (dy_f delta < p2)) (\<lambda>_.
         rbind (fraction_digits cap sh one_f (dy_f dist) (dy_f delta) p2 0 buf) (\<lambda>(buf, m).
           Inr (buf, decimal_exponent - m)))))))))"

definition grisu2_scaled :: "nat \<Rightarrow> diyfp \<Rightarrow> diyfp \<Rightarrow> diyfp \<Rightarrow> (string \<times> int) result" where
  "grisu2_scaled cap m_minus v m_plus =
     rbind (json_assert (dy_e m_plus = dy_e m_minus)) (\<lambda>_.
     rbind (json_assert (dy_e m_plus = dy_e v)) (\<lambda>_.
     rbind (get_cached_power_for_binary_exponent (dy_e m_plus)) (\<lambda>(cf, ce, ck).
     let c_minus_k = \<lparr>dy_f = cf, dy_e = ce\<rparr>;
         w = diyfp_mul v c_minus_k; w_minus = diyfp_mul m_minus c_minus_k; w_plus = diyfp_mul m_plus c_minus_k;
         M_minus = \<lparr>dy_f = dy_f w_minus + 1, dy_e = dy_e w_minus\<rparr>;
         M_plus = \<lparr>dy_f = dy_f w_plus - 1, dy_e = dy_e w_plus\<rparr> in
     grisu2_digit_gen cap (- ck) M_minus w M_plus)))"

definition grisu2 :: "nat \<Rightarrow> double \<Rightarrow> (string \<times> int) result" where
  "grisu2 cap value =
     rbind (json_assert (isfinite value)) (\<lambda>_.
     rbind (json_assert (is_positive value)) (\<lambda>_.
     rbind (compute_boundaries value) (\<lambda>w. grisu2_scaled cap (bd_minus w) (bd_w w) (bd_plus w))))"

section \<open>Formatting\<close>

definition digit_char :: "nat \<Rightarrow> char" where
  "digit_char d = char_of (48 + d)"

definition append_exponent :: "int \<Rightarrow> string result" where
  "append_exponent e =
     rbind (json_assert (-1000 < e)) (\<lambda>_.
     rbind (json_assert (e < 1000)) (\<lambda>_.
     let k = nat \<bar>e\<bar> in
     Inr ((if e < 0 then CHR ''-'' else CHR ''+'') #
       (if k < 10 then [CHR ''0'', digit_char k]
        else if k < 100 then [digit_char (k div 10), digit_char (k mod 10)]
        else [digit_char (k div 100), digit_char (k mod 100 div 10), digit_char (k mod 100 mod 10)]))))"

definition format_buffer :: "string \<Rightarrow> int \<Rightarrow> int \<Rightarrow> int \<Rightarrow> string result" where
  "format_buffer buf decimal_exponent min_exp max_exp =
     rbind (json_assert (min_exp < 0)) (\<lambda>_.
     rbind (json_assert (0 < max_exp)) (\<lambda>_.
     let k = int (length buf); n = k + decimal_exponent in
     if k \<le> n \<and> n \<le> max_exp then Inr (buf @ replicate (nat (n - k)) CHR ''0'' @ ''.0'')
     else if 0 < n \<and> n \<le> max_exp then
       rbind (json_assert (n < k)) (\<lambda>_. Inr (take (nat n) buf @ ''.'' @ drop (nat n) buf))
     else if min_exp < n \<and> n \<le> 0 then Inr (''0.'' @ replicate (nat (- n)) CHR ''0'' @ buf)
     else
       rbind (append_exponent (n - 1)) (\<lambda>ex.
         Inr ((if k = 1 then buf else take 1 buf @ ''.'' @ drop 1 buf) @ ''e'' @ ex))))"

text \<open>\<open>cap\<close>: the size of the buffer behind \<open>first\<close>.\<close>

definition to_chars :: "nat \<Rightarrow> double \<Rightarrow> string result" where
  "to_chars cap d =
     rbind (json_assert (isfinite d)) (\<lambda>_.
     let sign = (if bit d 63 then ''-'' else []); value = take_bit 63 d; cap = cap - length sign in
     if value = 0 then Inr (sign @ ''0.0'')
     else
       rbind (json_assert (17 \<le> cap)) (\<lambda>_.
       rbind (grisu2 cap value) (\<lambda>(buf, decimal_exponent).
       rbind (json_assert (length buf \<le> 17)) (\<lambda>_.
       rbind (json_assert (15 + 2 \<le> cap \<and> 2 + 3 + 17 \<le> cap \<and> 17 + 6 \<le> cap)) (\<lambda>_.
       rbind (format_buffer buf decimal_exponent (-4) 15) (\<lambda>txt. Inr (sign @ txt)))))))"

end
