(* ===== verification/Grisu_Bounds.thy ===== *)
theory Grisu_Bounds
  imports Float_Text
begin

text \<open>
  What the arithmetic of Grisu2 computes, on natural numbers: the rounded product, the boundaries of a
  positive finite double, and the cached powers of ten with their error.
\<close>

section \<open>The product\<close>

lemma unat_less_u64: "unat (x :: u64) < 2 ^ 64"
  using unsigned_less [of x] by simp

lemma unat_and_mask: "unat (x AND 0xFFFFFFFF :: u64) = unat x mod 2 ^ 32"
proof -
  have "(0xFFFFFFFF :: u64) = mask 32" by (simp add: mask_eq_exp_minus_1)
  then have "unat (x AND 0xFFFFFFFF) = unat (take_bit 32 x)" by (simp only: take_bit_eq_mask)
  also have "\<dots> = take_bit 32 (unat x)" by (rule unsigned_take_bit_eq)
  finally show ?thesis by (simp add: take_bit_eq_mod)
qed

lemma unat_high: "unat (drop_bit k x) = unat (x :: u64) div 2 ^ k"
  unfolding unat_drop_bit_eq by (rule drop_bit_eq_div)

lemma unat_plus: "unat x + unat y < 2 ^ 64 \<Longrightarrow> unat (x + y) = unat x + unat (y :: u64)"
  by (simp add: unat_word_ariths)

lemma unat_times: "unat x * unat y < 2 ^ 64 \<Longrightarrow> unat (x * y) = unat x * unat (y :: u64)"
  by (simp add: unat_word_ariths)

text \<open>The product of two 64-bit numbers over \<open>2^64\<close>, rounded to nearest.\<close>

lemma carry:
  fixes x y z :: nat
  assumes "0 < k"
  shows "(x + y + z) div k = y div k + z div k + (x + y mod k + z mod k) div k"
proof -
  have "x + y + z = (x + y mod k + z mod k) + (y div k + z div k) * k"
    using div_mult_mod_eq [of y k] div_mult_mod_eq [of z k] by (simp add: algebra_simps)
  then show ?thesis using assms by (simp only: div_mult_self1)
qed

lemma two_digits:
  fixes x y z :: nat
  assumes "0 < k"
  shows "(x + k * y + k * k * z) div (k * k) = z + (x div k + y) div k"
proof -
  have "(x + k * y + k * k * z) div (k * k) = (x + k * (y + k * z)) div k div k"
    by (simp add: div_mult2_eq algebra_simps)
  also have "(x + k * (y + k * z)) div k = x div k + y + k * z" using assms by simp
  also have "(x div k + y + k * z) div k = z + (x div k + y) div k" using assms by simp
  finally show ?thesis .
qed

lemma rounded_product:
  fixes a b c d h k :: nat
  assumes "0 < k"
  shows "((a + k * b) * (c + k * d) + k * h) div (k * k) =
    b * d + b * c div k + a * d div k + (a * c div k + a * d mod k + b * c mod k + h) div k"
proof -
  have "(a + k * b) * (c + k * d) + k * h = a * c + k * (a * d + b * c + h) + k * k * (b * d)" by (simp add: algebra_simps)
  then have "((a + k * b) * (c + k * d) + k * h) div (k * k) = b * d + (a * c div k + (a * d + b * c + h)) div k"
    using two_digits [OF assms] by simp
  also have "a * c div k + (a * d + b * c + h) = (a * c div k + h) + a * d + b * c" by simp
  also have "\<dots> div k = a * d div k + b * c div k + (a * c div k + h + a * d mod k + b * c mod k) div k" by (rule carry [OF assms])
  finally show ?thesis by (simp only: add.assoc add.commute add.left_commute)
qed

lemma diyfp_mul_f:
  "unat (dy_f (diyfp_mul x y)) = (unat (dy_f x) * unat (dy_f y) + 2 ^ 63) div 2 ^ 64"
proof -
  define a b c d where "a = unat (dy_f x) mod 2 ^ 32" and "b = unat (dy_f x) div 2 ^ 32"
    and "c = unat (dy_f y) mod 2 ^ 32" and "d = unat (dy_f y) div 2 ^ 32"
  have l: "a < 2 ^ 32" "c < 2 ^ 32" "b < 2 ^ 32" "d < 2 ^ 32"
    using unat_less_u64 [of "dy_f x"] unat_less_u64 [of "dy_f y"]
    by (simp_all add: a_def b_def c_def d_def less_mult_imp_div_less)
  have m: "u * v \<le> 18446744065119617025" if "u < 2 ^ 32" "v < 2 ^ 32" for u v :: nat
    using mult_le_mono [of u "2 ^ 32 - 1" v "2 ^ 32 - 1"] that by simp
  have x: "unat (dy_f x) = a + 2 ^ 32 * b" "unat (dy_f y) = c + 2 ^ 32 * d" by (simp_all add: a_def b_def c_def d_def)
  have u: "unat (dy_f x AND 0xFFFFFFFF) = a" "unat (drop_bit 32 (dy_f x)) = b"
    "unat (dy_f y AND 0xFFFFFFFF) = c" "unat (drop_bit 32 (dy_f y)) = d"
    by (simp_all only: unat_and_mask unat_high a_def b_def c_def d_def)
  have t: "unat (v * w) = i * j" if "unat v = i" "unat w = j" "i < 2 ^ 32" "j < 2 ^ 32" for v w :: u64 and i j
    using m [of i j] that unat_times [of v w] by simp
  define P0 P1 P2 P3 where "P0 = (dy_f x AND 0xFFFFFFFF) * (dy_f y AND 0xFFFFFFFF)"
    and "P1 = (dy_f x AND 0xFFFFFFFF) * drop_bit 32 (dy_f y)" and "P2 = drop_bit 32 (dy_f x) * (dy_f y AND 0xFFFFFFFF)"
    and "P3 = drop_bit 32 (dy_f x) * drop_bit 32 (dy_f y)"
  have p: "unat P0 = a * c" "unat P1 = a * d" "unat P2 = b * c" "unat P3 = b * d"
    unfolding P0_def P1_def P2_def P3_def by (rule t; fact l u)+
  define Q where "Q = drop_bit 32 P0 + (P1 AND 0xFFFFFFFF) + (P2 AND 0xFFFFFFFF) + push_bit 31 1"
  have h: "a * c div 2 ^ 32 < 2 ^ 32" "a * d div 2 ^ 32 < 2 ^ 32" "b * c div 2 ^ 32 < 2 ^ 32"
    by (rule less_mult_imp_div_less, rule le_less_trans [OF m], (rule l)+, simp)+
  have r: "a * d mod 2 ^ 32 < 2 ^ 32" "b * c mod 2 ^ 32 < 2 ^ 32" by simp_all
  have "unat (push_bit 31 1 :: u64) = 2 ^ 31" by simp
  then have q: "unat Q = a * c div 2 ^ 32 + a * d mod 2 ^ 32 + b * c mod 2 ^ 32 + 2 ^ 31"
    using h r unfolding Q_def by (simp add: unat_plus unat_high unat_and_mask p)
  have f: "dy_f (diyfp_mul x y) = P3 + drop_bit 32 P2 + drop_bit 32 P1 + drop_bit 32 Q"
    by (simp add: diyfp_mul_def Let_def P0_def P1_def P2_def P3_def Q_def)
  have q': "unat Q div 2 ^ 32 < 2 ^ 3" using h r q by (simp add: div_less_iff_less_mult)
  define N where "N = (unat (dy_f x) * unat (dy_f y) + 2 ^ 63) div 2 ^ 64"
  have "(2 :: nat) ^ 64 = 2 ^ 32 * 2 ^ 32" "(2 :: nat) ^ 63 = 2 ^ 32 * 2 ^ 31" by simp_all
  then have n: "N = b * d + b * c div 2 ^ 32 + a * d div 2 ^ 32 + unat Q div 2 ^ 32"
    unfolding N_def x q using rounded_product [of "2 ^ 32" a b c d "2 ^ 31"] by (simp only: zero_less_power zero_less_numeral)
  have "unat (dy_f x) * unat (dy_f y) \<le> (2 ^ 64 - 1) * (2 ^ 64 - 1)"
    using unat_less_u64 [of "dy_f x"] unat_less_u64 [of "dy_f y"] by (intro mult_le_mono) simp_all
  then have N: "N < 2 ^ 64" by (simp add: N_def div_less_iff_less_mult)
  then have s1: "unat (P3 + drop_bit 32 P2) = b * d + b * c div 2 ^ 32"
    unfolding n by (subst unat_plus) (simp_all add: unat_high p)
  then have s2: "unat (P3 + drop_bit 32 P2 + drop_bit 32 P1) = b * d + b * c div 2 ^ 32 + a * d div 2 ^ 32"
    using N unfolding n by (subst unat_plus) (simp_all add: unat_high p)
  then have "unat (P3 + drop_bit 32 P2 + drop_bit 32 P1 + drop_bit 32 Q) = N"
    using N unfolding n by (subst unat_plus) (simp_all add: unat_high)
  then show ?thesis unfolding f N_def .
qed

section \<open>Normalisation\<close>

lemma push_bit_u64: "unat x * 2 ^ k < 2 ^ 64 \<Longrightarrow> unat (push_bit k x :: u64) = unat x * 2 ^ k"
proof -
  assume a: "unat x * 2 ^ k < 2 ^ 64"
  have "unat (push_bit k x) = take_bit 64 (push_bit k (unat x))" by (simp add: unsigned_push_bit_eq del: push_bit_eq_mult)
  then show ?thesis using a by (simp only: push_bit_eq_mult take_bit_nat_eq_self)
qed

lemma normalize_loop_result:
  assumes "dy_f x \<noteq> 0"
  shows "\<exists>s. normalize_loop x = \<lparr>dy_f = push_bit s (dy_f x), dy_e = dy_e x - int s\<rparr> \<and>
    2 ^ 63 \<le> unat (dy_f x) * 2 ^ s \<and> unat (dy_f x) * 2 ^ s < 2 ^ 64"
  using assms
proof (induction x rule: normalize_loop.induct)
  case (1 x)
  let ?f = "dy_f x"
  have h: "drop_bit 63 ?f = 0 \<longleftrightarrow> unat ?f < 2 ^ 63"
    using unat_high [of 63 ?f] unat_eq_0 [of "drop_bit 63 ?f"] by (simp only: div_eq_0_iff) simp
  show ?case
  proof (cases "unat ?f < 2 ^ 63")
    case True
    let ?x = "\<lparr>dy_f = push_bit 1 ?f, dy_e = dy_e x - 1\<rparr>"
    have f: "unat (push_bit 1 ?f) = unat ?f * 2" using push_bit_u64 [of ?f 1] True by simp
    moreover have "unat ?f \<noteq> 0" using 1(2) by (simp add: unat_eq_0)
    ultimately have nz: "push_bit 1 ?f \<noteq> 0" by (metis mult_eq_0_iff unat_0 zero_neq_numeral)
    then obtain s where "normalize_loop ?x = \<lparr>dy_f = push_bit s (push_bit 1 ?f), dy_e = dy_e x - 1 - int s\<rparr>"
      "2 ^ 63 \<le> unat ?f * 2 * 2 ^ s" "unat ?f * 2 * 2 ^ s < 2 ^ 64"
      using 1 h True f by auto
    then show ?thesis using h True 1(2)
      by (subst normalize_loop.simps) (auto simp: push_bit_push_bit algebra_simps intro!: exI [of _ "Suc s"])
  next
    case False
    then show ?thesis using h unat_less_u64 [of ?f] by (subst normalize_loop.simps) (auto intro!: exI [of _ 0])
  qed
qed

lemma normal_shift_unique:
  fixes f :: nat
  assumes "2 ^ 63 \<le> f * 2 ^ s" "f * 2 ^ s < 2 ^ 64" "2 ^ 63 \<le> f * 2 ^ t" "f * 2 ^ t < 2 ^ 64"
  shows "s = t"
proof -
  have "\<not> i < j" if "2 ^ 63 \<le> f * 2 ^ i" "f * 2 ^ j < 2 ^ 64" for i j
  proof
    assume "i < j"
    then have "(2 :: nat) ^ Suc i \<le> 2 ^ j" by (intro power_increasing) simp_all
    then have "f * 2 ^ Suc i \<le> f * 2 ^ j" by (rule mult_le_mono2)
    moreover define a b where "a = f * 2 ^ i" and "b = f * 2 ^ j"
    ultimately have "2 * a \<le> b" by (simp only: power_Suc mult.left_commute)
    moreover have "2 ^ 63 \<le> a" "b < 2 ^ 64" using that by (simp_all only: a_def b_def)
    ultimately show False by simp
  qed
  then show ?thesis using assms by (metis linorder_neqE_nat)
qed

section \<open>The boundaries\<close>

text \<open>Significand and exponent of a finite double; the lower neighbour may be closer.\<close>

definition significand :: "double \<Rightarrow> nat" where
  "significand d = (if double_exponent d = 0 then double_fraction d else double_fraction d + 2 ^ 52)"

definition exponent :: "double \<Rightarrow> int" where
  "exponent d = (if double_exponent d = 0 then -1074 else int (double_exponent d) - 1075)"

definition lower_closer :: "double \<Rightarrow> bool" where
  "lower_closer d \<longleftrightarrow> double_fraction d = 0 \<and> 1 < double_exponent d"

lemma double_parts:
  assumes "unat d < 2 ^ 63"
  shows "unat (drop_bit 52 d) = double_exponent d" "unat (d AND (push_bit 52 1 - 1)) = double_fraction d"
    "double_fraction d < 2 ^ 52" "double_exponent d < 2 ^ 11" "unat d = 2 ^ 52 * double_exponent d + double_fraction d"
proof -
  have m: "(push_bit 52 1 - 1 :: u64) = mask 52" by (simp add: mask_eq_exp_minus_1 push_bit_eq_mult)
  show f: "unat (d AND (push_bit 52 1 - 1)) = double_fraction d"
    unfolding m double_fraction_def by (simp only: take_bit_eq_mask)
  have h: "unat (drop_bit 52 d) = unat d div 2 ^ 52" by (rule unat_high)
  then have l: "unat (drop_bit 52 d) < 2 ^ 11" using assms by (simp add: div_less_iff_less_mult)
  have "(0x7FF :: u64) = mask 11" by (simp add: mask_eq_exp_minus_1)
  then have "unat (drop_bit 52 d AND 0x7FF) = unat (take_bit 11 (drop_bit 52 d))" by (simp only: take_bit_eq_mask)
  also have "\<dots> = take_bit 11 (unat (drop_bit 52 d))" by (rule unsigned_take_bit_eq)
  finally show e: "unat (drop_bit 52 d) = double_exponent d"
    using l by (simp only: double_exponent_def take_bit_nat_eq_self)
  show "double_exponent d < 2 ^ 11" using l e by simp
  have t: "double_fraction d = unat d mod 2 ^ 52"
    unfolding double_fraction_def unsigned_take_bit_eq by (rule take_bit_eq_mod)
  show "double_fraction d < 2 ^ 52" unfolding t by simp
  show "unat d = 2 ^ 52 * double_exponent d + double_fraction d" using e h t by (metis mult_div_mod_eq)
qed

lemma significand_bounds:
  assumes "unat d < 2 ^ 63" and "d \<noteq> 0"
  shows "0 < significand d" "significand d < 2 ^ 53" "double_exponent d \<noteq> 0 \<Longrightarrow> 2 ^ 52 \<le> significand d"
proof -
  note parts = double_parts [OF assms(1)]
  have "unat d \<noteq> 0" using assms(2) by (simp add: unat_eq_0)
  then show "0 < significand d" using parts(5) by (auto simp: significand_def)
  show "significand d < 2 ^ 53" using parts(3) by (simp add: significand_def)
  show "double_exponent d \<noteq> 0 \<Longrightarrow> 2 ^ 52 \<le> significand d" by (simp add: significand_def)
qed

text \<open>The upper boundary and the number have the same number of bits.\<close>

lemma same_shift:
  fixes f :: nat
  assumes "0 < f" "f < 2 ^ 53" "2 ^ 63 \<le> (2 * f + 1) * 2 ^ a" "(2 * f + 1) * 2 ^ a < 2 ^ 64"
  shows "10 \<le> a" "a \<le> 62" "2 ^ 63 \<le> f * 2 ^ (a + 1)" "f * 2 ^ (a + 1) < 2 ^ 64"
proof -
  show "10 \<le> a"
  proof (rule ccontr)
    assume "\<not> 10 \<le> a"
    then have "(2 :: nat) ^ a \<le> 2 ^ 9" by (intro power_increasing) simp_all
    moreover have "2 * f + 1 \<le> 2 ^ 54 - 1" using assms(2) by simp
    ultimately have "(2 * f + 1) * 2 ^ a \<le> (2 ^ 54 - 1) * 2 ^ 9" by (intro mult_le_mono)
    then show False using order_trans [OF assms(3)] by fastforce
  qed
  show a: "a \<le> 62"
  proof (rule ccontr)
    assume "\<not> a \<le> 62"
    then have "(2 :: nat) ^ 63 \<le> 2 ^ a" by (intro power_increasing) simp_all
    moreover have "3 \<le> 2 * f + 1" using assms(1) by simp
    ultimately have "3 * 2 ^ 63 \<le> (2 * f + 1) * 2 ^ a" by (intro mult_le_mono)
    then show False using le_less_trans [OF _ assms(4)] by fastforce
  qed
  have "2 ^ (62 - a) \<le> f"
  proof (rule ccontr)
    assume "\<not> 2 ^ (62 - a) \<le> f"
    then have "2 * f + 1 \<le> 2 * 2 ^ (62 - a) - 1" by simp
    then have "(2 * f + 1) * 2 ^ a \<le> (2 * 2 ^ (62 - a) - 1) * 2 ^ a" by (rule mult_le_mono1)
    also have "\<dots> = 2 * (2 ^ (62 - a) * 2 ^ a) - 2 ^ a" by (simp add: algebra_simps diff_mult_distrib)
    also have "(2 :: nat) ^ (62 - a) * 2 ^ a = 2 ^ 62" using a by (simp flip: power_add)
    finally have "(2 * f + 1) * 2 ^ a \<le> 2 ^ 63 - 2 ^ a" by simp
    moreover have "(0 :: nat) < 2 ^ a" by simp
    moreover have "(0 :: nat) < 2 ^ 63" by simp
    ultimately show False using assms(3) diff_less [of "2 ^ a" "2 ^ 63 :: nat"] by (metis le_trans not_less)
  qed
  then have "2 ^ (62 - a) * 2 ^ (a + 1) \<le> f * 2 ^ (a + 1)" by (rule mult_le_mono1)
  moreover have "(2 :: nat) ^ (62 - a) * 2 ^ (a + 1) = 2 ^ 63" using a by (simp flip: power_add)
  ultimately show "2 ^ 63 \<le> f * 2 ^ (a + 1)" by (simp only:)
  have "f * 2 ^ (a + 1) \<le> (2 * f + 1) * 2 ^ a" by (simp add: algebra_simps)
  then show "f * 2 ^ (a + 1) < 2 ^ 64" using assms(4) by (rule le_less_trans)
qed

lemma normalize_result:
  assumes "unat g = n" and "0 < n"
  obtains s where "diyfp_normalize \<lparr>dy_f = g, dy_e = e\<rparr> = Inr \<lparr>dy_f = push_bit s g, dy_e = e - int s\<rparr>"
    and "2 ^ 63 \<le> n * 2 ^ s" and "n * 2 ^ s < 2 ^ 64"
proof -
  have "g \<noteq> 0" using assms by (auto simp: unat_eq_0)
  then obtain s where "normalize_loop \<lparr>dy_f = g, dy_e = e\<rparr> = \<lparr>dy_f = push_bit s g, dy_e = e - int s\<rparr>"
    "2 ^ 63 \<le> unat g * 2 ^ s" "unat g * 2 ^ s < 2 ^ 64"
    using normalize_loop_result [of "\<lparr>dy_f = g, dy_e = e\<rparr>"] by auto
  then show thesis using that \<open>g \<noteq> 0\<close> assms(1) by (simp add: diyfp_normalize_def json_assert_def)
qed

lemma normalize_to_result:
  assumes "unat g * 2 ^ s < 2 ^ 64"
  shows "diyfp_normalize_to \<lparr>dy_f = g, dy_e = e + int s\<rparr> e = Inr \<lparr>dy_f = push_bit s g, dy_e = e\<rparr>"
proof -
  have "unat (drop_bit s (push_bit s g)) = unat g * 2 ^ s div 2 ^ s" by (simp only: unat_high push_bit_u64 [OF assms])
  then have "drop_bit s (push_bit s g) = g" by (simp add: word_unat_eq_iff)
  then show ?thesis by (simp add: diyfp_normalize_to_def Let_def json_assert_def)
qed

lemma is_positive_small:
  assumes "unat d < 2 ^ 63" and "d \<noteq> 0"
  shows "is_positive d"
proof -
  have "\<not> bit (unat d) 63" using assms(1) by (simp add: bit_iff_odd)
  then show ?thesis using assms(2) by (simp add: is_positive_def bit_unsigned_iff)
qed

lemma boundaries_result:
  assumes "unat d < 2 ^ 63" and "isfinite d" and "d \<noteq> 0"
  defines "f \<equiv> significand d"
  obtains a w wm wp where
    "compute_boundaries d = Inr \<lparr>bd_w = \<lparr>dy_f = w, dy_e = exponent d - 1 - int a\<rparr>,
       bd_minus = \<lparr>dy_f = wm, dy_e = exponent d - 1 - int a\<rparr>, bd_plus = \<lparr>dy_f = wp, dy_e = exponent d - 1 - int a\<rparr>\<rparr>"
    and "unat w = f * 2 ^ (a + 1)" and "unat wp = (2 * f + 1) * 2 ^ a"
    and "unat wm = (if lower_closer d then (4 * f - 1) * 2 ^ (a - 1) else (2 * f - 1) * 2 ^ a)"
    and "2 ^ 63 \<le> (2 * f + 1) * 2 ^ a" and "(2 * f + 1) * 2 ^ a < 2 ^ 64"
proof -
  define hb where "hb = (push_bit 52 1 :: u64)"
  define E F where "E = drop_bit 52 d" and "F = d AND (hb - 1)"
  note parts = double_parts [OF assms(1)]
  note f = significand_bounds [OF assms(1,3), folded f_def]
  have EF: "unat E = double_exponent d" "unat F = double_fraction d" by (simp_all only: E_def F_def hb_def parts)
  define g where "g = (if E = 0 then F else F + hb)"
  define x :: int where "x = (if E = 0 then -1074 else uint E - 1075)"
  have E0: "E = 0 \<longleftrightarrow> double_exponent d = 0" using EF(1) unat_eq_0 [of E] by simp
  have g: "unat g = f"
    using parts(3) EF E0 by (simp add: g_def f_def significand_def hb_def unat_plus)
  have x: "x = exponent d" using EF E0 by (simp add: x_def exponent_def uint_nat)
  have close: "F = 0 \<and> 1 < E \<longleftrightarrow> lower_closer d"
    using EF unat_eq_0 [of F] by (simp add: lower_closer_def word_less_nat_alt)
  have up: "unat (2 * g + 1) = 2 * f + 1" "unat (2 * g - 1) = 2 * f - 1" "unat (4 * g - 1) = 4 * f - 1"
    using f g by (simp_all add: unat_word_ariths unat_sub word_le_nat_alt)
  obtain a where a: "diyfp_normalize \<lparr>dy_f = 2 * g + 1, dy_e = x - 1\<rparr> = Inr \<lparr>dy_f = push_bit a (2 * g + 1), dy_e = x - 1 - int a\<rparr>"
    "2 ^ 63 \<le> (2 * f + 1) * 2 ^ a" "(2 * f + 1) * 2 ^ a < 2 ^ 64"
    using normalize_result [OF up(1)] by (metis add_gr_0 zero_less_one)
  note sh = same_shift [OF f(1,2) a(2,3)]
  obtain t where t: "diyfp_normalize \<lparr>dy_f = g, dy_e = x\<rparr> = Inr \<lparr>dy_f = push_bit t g, dy_e = x - int t\<rparr>"
    "2 ^ 63 \<le> f * 2 ^ t" "f * 2 ^ t < 2 ^ 64"
    using normalize_result [OF g f(1)] by blast
  have "t = a + 1" by (rule normal_shift_unique [OF t(2,3) sh(3,4)])
  define m where "m = (if lower_closer d then 4 * g - 1 else 2 * g - 1)"
  define b where "b = (if lower_closer d then a - 1 else a)"
  have m: "unat m * 2 ^ b = (if lower_closer d then (4 * f - 1) * 2 ^ (a - 1) else (2 * f - 1) * 2 ^ a)"
    by (simp add: m_def b_def up)
  have "(4 * f - 1) * 2 ^ (a - 1) \<le> (2 * f + 1) * 2 ^ a"
  proof -
    obtain a' where "a = Suc a'" using sh(1) by (cases a) simp_all
    then have "(2 * f + 1) * 2 ^ a = (4 * f + 2) * 2 ^ (a - 1)" by (simp add: algebra_simps)
    moreover have "(4 * f - 1) * 2 ^ (a - 1) \<le> (4 * f + 2) * 2 ^ (a - 1)" by (rule mult_le_mono1) simp
    ultimately show ?thesis by simp
  qed
  moreover have "(2 * f - 1) * 2 ^ a \<le> (2 * f + 1) * 2 ^ a" by (rule mult_le_mono1) simp
  ultimately have ml: "unat m * 2 ^ b < 2 ^ 64" using a(3) m by (auto intro: le_less_trans)
  define e where "e = x - 1 - int a"
  have "(if lower_closer d then \<lparr>dy_f = 4 * g - 1, dy_e = x - 2\<rparr> else \<lparr>dy_f = 2 * g - 1, dy_e = x - 1\<rparr>) =
      \<lparr>dy_f = m, dy_e = e + int b\<rparr>"
    using sh(1) by (simp add: m_def b_def e_def of_nat_diff)
  then have minus: "diyfp_normalize_to (if lower_closer d then \<lparr>dy_f = 4 * g - 1, dy_e = x - 2\<rparr>
      else \<lparr>dy_f = 2 * g - 1, dy_e = x - 1\<rparr>) e = Inr \<lparr>dy_f = push_bit b m, dy_e = e\<rparr>"
    using normalize_to_result [OF ml] by simp
  have v: "(if E = 0 then \<lparr>dy_f = F, dy_e = -1074\<rparr> else \<lparr>dy_f = F + hb, dy_e = uint E - 1075\<rparr>) = \<lparr>dy_f = g, dy_e = x\<rparr>"
    by (simp add: g_def x_def)
  have "compute_boundaries d = Inr \<lparr>bd_w = \<lparr>dy_f = push_bit t g, dy_e = e\<rparr>,
       bd_minus = \<lparr>dy_f = push_bit b m, dy_e = e\<rparr>, bd_plus = \<lparr>dy_f = push_bit a (2 * g + 1), dy_e = e\<rparr>\<rparr>"
  proof -
    have k: "(1024 - 1 + (53 - 1) :: int) = 1075" "(1 - 1075 :: int) = -1074" by simp_all
    have "x - int t = e" using \<open>t = a + 1\<close> by (simp add: e_def)
    then show ?thesis
      using a(1) t(1) minus assms(2) is_positive_small [OF assms(1,3)]
      unfolding compute_boundaries_def Let_def k hb_def [symmetric] E_def [symmetric] F_def [symmetric] v
      by (cases "lower_closer d") (simp_all add: close e_def [symmetric] json_assert_def)
  qed
  moreover have "unat (push_bit t g) = f * 2 ^ (a + 1)" using t(3) g \<open>t = a + 1\<close> by (simp only: push_bit_u64)
  moreover have "unat (push_bit a (2 * g + 1)) = (2 * f + 1) * 2 ^ a" using a(3) up(1) by (simp only: push_bit_u64)
  moreover have "unat (push_bit b m) = (if lower_closer d then (4 * f - 1) * 2 ^ (a - 1) else (2 * f - 1) * 2 ^ a)"
    using push_bit_u64 [OF ml] m by simp
  ultimately show thesis using that a(2,3) x unfolding e_def by blast
qed

end
