(* ===== verification/Grisu_Digits.thy ===== *)
theory Grisu_Digits
  imports Grisu_Bounds
begin

text \<open>
  The digit generation of Grisu2 never fails an assertion, writes at most 17 digits, and the decimal
  number it writes lies between the two boundaries.
\<close>

section \<open>Digits\<close>

definition digits_value :: "nat list \<Rightarrow> nat" where
  "digits_value ns = foldl (\<lambda>a d. 10 * a + d) 0 ns"

lemma digits_value_simps [simp]: "digits_value [] = 0" "digits_value (ns @ [d]) = 10 * digits_value ns + d"
  by (simp_all add: digits_value_def)

text \<open>The digits of a number without leading zeros, and without a zero at the end.\<close>

definition leading :: "nat list \<Rightarrow> bool" where
  "leading ns \<longleftrightarrow> (\<forall>d \<in> set ns. d \<le> 9) \<and> (ns \<noteq> [] \<longrightarrow> hd ns \<noteq> 0)"

definition shortened :: "nat list \<Rightarrow> bool" where
  "shortened ns \<longleftrightarrow> leading ns \<and> ns \<noteq> [] \<and> last ns \<noteq> 0"

lemma leading_snoc: "leading (ns @ [d]) \<longleftrightarrow> leading ns \<and> d \<le> 9 \<and> (ns = [] \<longrightarrow> d \<noteq> 0)"
  by (cases ns) (auto simp: leading_def)

lemma digit_char_less: "d \<le> 9 \<Longrightarrow> of_char (digit_char d) = 48 + (d :: nat)"
  by (simp add: digit_char_def)

lemma decrement_last_digit:
  "d \<le> 9 \<Longrightarrow> d \<noteq> 0 \<Longrightarrow> decrement_last (map digit_char (ns @ [d])) = map digit_char (ns @ [d - 1])"
  by (simp add: decrement_last_def digit_char_less) (simp add: digit_char_def)

lemma digit_char_zero: "d \<le> 9 \<Longrightarrow> digit_char d = CHR ''0'' \<longleftrightarrow> d = 0"
proof -
  assume d: "d \<le> 9"
  have "CHR ''0'' = digit_char 0" by (simp add: digit_char_def char_of_def bit_iff_odd)
  then have "digit_char d = CHR ''0'' \<longleftrightarrow> of_char (digit_char d) = (of_char (digit_char 0) :: nat)"
    by (simp only: of_char_eq_iff)
  then show ?thesis using d by (simp add: digit_char_less)
qed

lemma put_digit_result:
  "d \<le> 9 \<Longrightarrow> length ns < cap \<Longrightarrow> put_digit cap d (map digit_char ns) = Inr (map digit_char (ns @ [d]))"
  by (simp add: put_digit_def json_assert_def digit_char_def)

section \<open>Rounding\<close>

text \<open>The last digit is lowered while the number stays above the lower boundary; it stays positive.\<close>

lemma round_loop_result:
  assumes "unat rest \<le> unat delta" and "unat delta < d * unat ten_k + unat rest" and "ten_k \<noteq> 0" and "d \<le> 9"
  shows "\<exists>j. grisu2_round_loop dist delta ten_k rest (map digit_char (ns @ [d])) = Inr (map digit_char (ns @ [d - j])) \<and>
    j < d \<and> unat rest + j * unat ten_k \<le> unat delta"
  using assms
proof (induction dist delta ten_k rest "map digit_char (ns @ [d])" arbitrary: d rule: grisu2_round_loop.induct)
  case (1 dist delta ten_k rest)
  let ?c = "rest < dist \<and> ten_k \<le> delta - rest \<and> (rest + ten_k < dist \<or> rest + ten_k - dist < dist - rest)"
  have "d \<noteq> 0" using 1(2,3) by (cases d) simp_all
  show ?case
  proof (cases ?c)
    case True
    have s: "unat (delta - rest) = unat delta - unat rest" using 1(2) by (simp add: unat_sub word_le_nat_alt)
    then have r: "unat rest + unat ten_k \<le> unat delta" using True 1(2) by (simp add: word_le_nat_alt le_diff_conv2 add.commute)
    then have u: "unat (rest + ten_k) = unat rest + unat ten_k"
      using unat_less_u64 [of delta] by (intro unat_plus) simp
    have d: "d * unat ten_k = (d - 1) * unat ten_k + unat ten_k" using \<open>d \<noteq> 0\<close> by (cases d) simp_all
    have dec: "decrement_last (map digit_char (ns @ [d])) = map digit_char (ns @ [d - 1])"
      using decrement_last_digit \<open>d \<noteq> 0\<close> 1(5) by blast
    have l: "last (map digit_char (ns @ [d])) \<noteq> CHR ''0''" using digit_char_zero 1(5) \<open>d \<noteq> 0\<close> by simp
    then have "json_assert (last (map digit_char (ns @ [d])) \<noteq> CHR ''0'') = Inr ()" by (simp add: json_assert_def)
    note IH = 1(1) [OF True 1(4) this dec, unfolded u dec, OF r _ 1(4)]
    have "unat delta < (d - 1) * unat ten_k + (unat rest + unat ten_k)" "d - 1 \<le> 9" using 1(3,5) d by simp_all
    from IH [OF this] obtain j where
      j: "grisu2_round_loop dist delta ten_k (rest + ten_k) (map digit_char (ns @ [d - 1])) = Inr (map digit_char (ns @ [d - 1 - j]))"
      "j < d - 1" "unat rest + unat ten_k + j * unat ten_k \<le> unat delta"
      by blast
    from j(1) have "grisu2_round_loop dist delta ten_k rest (map digit_char (ns @ [d])) = Inr (map digit_char (ns @ [d - Suc j]))"
      using True 1(4) dec l by (subst grisu2_round_loop.simps) (simp add: json_assert_def)
    then show ?thesis using j(2,3) by (intro exI [of _ "Suc j"]) simp
  next
    case False
    then show ?thesis using 1(2) \<open>d \<noteq> 0\<close> by (subst grisu2_round_loop.simps) (auto intro!: exI [of _ 0])
  qed
qed

lemma round_result:
  assumes "unat rest \<le> unat delta" and "unat delta < d * unat ten_k + unat rest" and "unat dist \<le> unat delta"
    and "0 < unat ten_k" and "leading (ns @ [d])"
  obtains d' where "grisu2_round (map digit_char (ns @ [d])) dist delta rest ten_k = Inr (map digit_char (ns @ [d']))"
    and "shortened (ns @ [d'])" and "d' \<le> d" and "d' * unat ten_k \<le> d * unat ten_k"
    and "unat rest + d * unat ten_k \<le> unat delta + d' * unat ten_k"
proof -
  have t: "ten_k \<noteq> 0" using assms(4) by auto
  have d: "d \<le> 9" "leading ns" using assms(5) by (simp_all add: leading_snoc)
  obtain j where j: "grisu2_round_loop dist delta ten_k rest (map digit_char (ns @ [d])) = Inr (map digit_char (ns @ [d - j]))"
      "j < d" "unat rest + j * unat ten_k \<le> unat delta"
    using round_loop_result [OF assms(1,2) t d(1)] by blast
  have m: "d * unat ten_k = (d - j) * unat ten_k + j * unat ten_k" using j(2) by (simp flip: add_mult_distrib)
  show thesis
  proof (rule that [of "d - j"])
    show "grisu2_round (map digit_char (ns @ [d])) dist delta rest ten_k = Inr (map digit_char (ns @ [d - j]))"
      using j(1) assms(1,3) t by (simp add: grisu2_round_def json_assert_def word_le_nat_alt word_gt_0)
    show "shortened (ns @ [d - j])" using d j(2) by (simp add: shortened_def leading_snoc)
    show "unat rest + d * unat ten_k \<le> unat delta + (d - j) * unat ten_k" using j(3) m by simp
  qed (use m in simp_all)
qed

section \<open>The integral part\<close>

lemma unat_u32_u64: "unat (ucast x :: u64) = unat (x :: u32)"
proof -
  have "unat x < 2 ^ 32" using unsigned_less [of x] by simp
  then have "unat x < 2 ^ 64" by simp
  then show ?thesis by (simp add: unsigned_ucast_eq take_bit_nat_eq_self)
qed

text \<open>
  The scaled number is \<open>v * 10^n * one + p1 * one + p2\<close>, with the value \<open>v\<close> of the digits so far and \<open>n\<close>
  digits to come. A result of the first kind is within \<open>delta\<close> below the number.
\<close>

definition integral_result ::
    "nat \<Rightarrow> nat \<Rightarrow> nat \<Rightarrow> nat \<Rightarrow> nat \<Rightarrow> int \<Rightarrow> nat \<Rightarrow> (string \<times> int) + string \<Rightarrow> bool" where
  "integral_result sh delta p2 num len decimal_exponent n r \<longleftrightarrow> (case r of
     Inl (buf, e) \<Rightarrow> \<exists>ns k. buf = map digit_char ns \<and> shortened ns \<and> length ns + k = len + n \<and> k < n \<and>
       e = decimal_exponent + int k \<and> digits_value ns * 10 ^ k * 2 ^ sh \<le> num \<and> num \<le> delta + digits_value ns * 10 ^ k * 2 ^ sh
   | Inr buf \<Rightarrow> \<exists>ns. buf = map digit_char ns \<and> leading ns \<and> ns \<noteq> [] \<and> length ns = len + n \<and>
       num = digits_value ns * 2 ^ sh + p2 \<and> delta < p2)"

lemma integral_result_Suc:
  assumes "integral_result sh delta p2 num (Suc len) de n r"
  shows "integral_result sh delta p2 num len de (Suc n) r"
proof (cases r)
  case (Inl x)
  then show ?thesis using assms unfolding integral_result_def by (cases x) (auto intro: less_SucI)
next
  case (Inr buf)
  then show ?thesis using assms unfolding integral_result_def by auto
qed

lemma integral_digits_result:
  assumes "unat p1 < 10 ^ n" and "n \<noteq> 0 \<Longrightarrow> unat pow10 = 10 ^ (n - 1)" and "n \<noteq> 0 \<Longrightarrow> 10 ^ (n - 1) * 2 ^ sh < (2 :: nat) ^ 64"
    and "unat delta < unat p1 * 2 ^ sh + unat p2" and "unat p1 * 2 ^ sh + unat p2 < 2 ^ 64" and "unat dist \<le> unat delta"
    and "leading ns" and "ns = [] \<Longrightarrow> n \<noteq> 0 \<and> 10 ^ (n - 1) \<le> unat p1" and "length ns + n \<le> cap"
  shows "\<exists>r. integral_digits cap sh dist delta p2 de n p1 pow10 (map digit_char ns) = Inr r \<and>
    integral_result sh (unat delta) (unat p2) (digits_value ns * 10 ^ n * 2 ^ sh + unat p1 * 2 ^ sh + unat p2) (length ns) de n r"
  using assms
proof (induction cap sh dist delta p2 de n p1 pow10 "map digit_char ns" arbitrary: ns rule: integral_digits.induct)
  case (1 cap sh dist delta p2 de p1 pow10)
  then show ?case by (auto simp: integral_result_def)
next
  case (2 cap sh dist delta p2 de n p1 pow10)
  let ?u = "10 ^ n :: nat" and ?one = "2 ^ sh :: nat"
  have pow: "unat pow10 = ?u" "?u * ?one < 2 ^ 64" "pow10 \<noteq> 0" using 2(3,4) by auto
  define d where "d = unat p1 div ?u"
  define r where "r = p1 mod pow10"
  have r: "unat r = unat p1 mod ?u" "unat (p1 div pow10) = d" by (simp_all add: r_def d_def unat_mod unat_div pow)
  have p1: "unat p1 = d * ?u + unat r" unfolding r d_def by (simp only: div_mult_mod_eq)
  have "d < 10" using 2(2) by (simp add: d_def div_less_iff_less_mult)
  then have d: "d \<le> 9" by simp
  have "ns = [] \<Longrightarrow> d \<noteq> 0" using 2(9) by (simp add: d_def div_eq_0_iff not_less)
  then have ld: "leading (ns @ [d])" using 2(8) d by (simp add: leading_snoc)
  have put: "put_digit cap d (map digit_char ns) = Inr (map digit_char (ns @ [d]))"
    using put_digit_result d 2(10) by simp
  let ?rest = "push_bit sh (ucast r) + p2 :: u64" and ?ten_k = "push_bit sh (ucast pow10) :: u64"
  have le: "unat r * ?one \<le> unat p1 * ?one" using p1 by (intro mult_le_mono1) simp
  have up: "unat (ucast x :: u64) = unat x" for x :: u32 by (rule unat_u32_u64)
  have rest: "unat ?rest = unat r * ?one + unat p2"
  proof -
    have "unat r * ?one < 2 ^ 64" using le 2(6) by linarith
    then have "unat (push_bit sh (ucast r) :: u64) = unat r * ?one" using push_bit_u64 [of "ucast r :: u64" sh] by (simp only: up)
    moreover have "unat r * ?one + unat p2 < 2 ^ 64" using le 2(6) by linarith
    ultimately show ?thesis using unat_plus [of "push_bit sh (ucast r)" p2] by simp
  qed
  have tk: "unat ?ten_k = ?u * ?one" using push_bit_u64 [of "ucast pow10" sh] pow up by simp
  have R: "unat p1 * ?one + unat p2 = d * unat ?ten_k + unat ?rest" unfolding rest tk p1 by (simp add: algebra_simps)
  have num: "digits_value ns * 10 ^ Suc n * ?one + unat p1 * ?one + unat p2 =
      digits_value (ns @ [d]) * ?u * ?one + unat r * ?one + unat p2"
    using p1 by (simp add: algebra_simps)
  have step: "integral_digits cap sh dist delta p2 de (Suc n) p1 pow10 (map digit_char ns) =
    (if ?rest \<le> delta then rbind (grisu2_round (map digit_char (ns @ [d])) dist delta ?rest ?ten_k) (\<lambda>buf. Inr (Inl (buf, de + int n)))
     else integral_digits cap sh dist delta p2 de n r (pow10 div 10) (map digit_char (ns @ [d])))"
    using pow(3) r(2) put by (simp add: Let_def r_def)
  show ?case
  proof (cases "?rest \<le> delta")
    case True
    then have "unat ?rest \<le> unat delta" by (simp add: word_le_nat_alt)
    then obtain d' where d': "grisu2_round (map digit_char (ns @ [d])) dist delta ?rest ?ten_k = Inr (map digit_char (ns @ [d']))"
      "shortened (ns @ [d'])" "d' * unat ?ten_k \<le> d * unat ?ten_k" "unat ?rest + d * unat ?ten_k \<le> unat delta + d' * unat ?ten_k"
      using round_result [of ?rest delta d ?ten_k dist ns] 2(5,7) ld R tk by auto
    have v: "digits_value (ns @ [d']) * ?u * ?one = digits_value ns * 10 ^ Suc n * ?one + d' * unat ?ten_k"
      unfolding tk by (simp add: algebra_simps)
    let ?num = "digits_value ns * 10 ^ Suc n * ?one + unat p1 * ?one + unat p2"
    have "digits_value (ns @ [d']) * ?u * ?one \<le> ?num" "?num \<le> unat delta + digits_value (ns @ [d']) * ?u * ?one"
      using d'(3,4) R unfolding v by linarith+
    then have "integral_result sh (unat delta) (unat p2) ?num (length ns) de (Suc n) (Inl (map digit_char (ns @ [d']), de + int n))"
      unfolding integral_result_def sum.case prod.case using d'(2)
      by (intro exI [of _ "ns @ [d']"] exI [of _ n] conjI) simp_all
    then show ?thesis using True d'(1) unfolding step by auto
  next
    case False
    then have "unat delta < unat r * ?one + unat p2" using rest by (simp add: word_le_nat_alt)
    moreover have "unat r * ?one + unat p2 < 2 ^ 64" using le 2(6) by linarith
    moreover have "check (pow10 \<noteq> 0) DivByZero = Inr ()" using pow(3) by simp
    moreover have "unat r < 10 ^ n" by (simp add: r)
    moreover have "unat (pow10 div 10) = 10 ^ (n - 1)" if "n \<noteq> 0" using that pow(1) by (cases n) (simp_all add: unat_div)
    moreover have "10 ^ (n - 1) * ?one < 2 ^ 64" if "n \<noteq> 0"
    proof -
      have "10 ^ (n - 1) * ?one \<le> ?u * ?one" by (intro mult_le_mono1 power_increasing) simp_all
      then show ?thesis using pow(2) by (rule le_less_trans)
    qed
    moreover have "put_digit cap (unat (p1 div pow10)) (map digit_char ns) = Inr (map digit_char (ns @ [d]))"
      using put r(2) by simp
    ultimately have "\<exists>x. integral_digits cap sh dist delta p2 de n r (pow10 div 10) (map digit_char (ns @ [d])) = Inr x \<and>
      integral_result sh (unat delta) (unat p2) (digits_value (ns @ [d]) * 10 ^ n * 2 ^ sh + unat r * 2 ^ sh + unat p2)
        (length (ns @ [d])) de n x"
      using 2(1) [OF _ refl r_def _ refl, of "()" "ns @ [d]"] False 2(7,10) ld by simp
    then show ?thesis using False integral_result_Suc unfolding step num by auto
  qed
qed

section \<open>The fractional part\<close>

text \<open>The number is scaled by ten with every digit, and so are the distances.\<close>

lemma low_bits: "unat (x AND (push_bit k 1 - 1) :: u64) = unat x mod 2 ^ k"
proof -
  have "(push_bit k 1 - 1 :: u64) = mask k" by (simp add: mask_eq_exp_minus_1 push_bit_eq_mult)
  then have "unat (x AND (push_bit k 1 - 1)) = unat (take_bit k x)" by (simp only: take_bit_eq_mask)
  also have "\<dots> = take_bit k (unat x)" by (rule unsigned_take_bit_eq)
  finally show ?thesis by (simp add: take_bit_eq_mod)
qed

lemma fraction_digits_result:
  assumes "sh \<le> 60" and "one_f = push_bit sh 1" and "unat p2 < 2 ^ sh" and "unat delta < unat p2" and "unat dist \<le> unat delta"
    and "leading ns" and "ns \<noteq> []" and "length ns \<le> 17" and "2 ^ sh \<le> 10 ^ (17 - length ns) * unat delta" and "17 \<le> cap"
  shows "\<exists>ns' t. fraction_digits cap sh one_f dist delta p2 m (map digit_char ns) = Inr (map digit_char ns', m + int t) \<and>
    shortened ns' \<and> length ns' = length ns + t \<and> length ns' \<le> 17 \<and>
    digits_value ns' * 2 ^ sh \<le> 10 ^ t * (digits_value ns * 2 ^ sh + unat p2) \<and>
    10 ^ t * (digits_value ns * 2 ^ sh + unat p2) \<le> digits_value ns' * 2 ^ sh + 10 ^ t * unat delta"
  using assms
proof (induction cap sh one_f dist delta p2 m "map digit_char ns" arbitrary: ns rule: fraction_digits.induct)
  case (1 cap sh one_f dist delta p2 m)
  let ?one = "2 ^ sh :: nat"
  have len: "length ns < 17" using 1(4,5,9,10) by (cases "length ns = 17") auto
  have "?one \<le> 2 ^ 60" using 1(2) by (intro power_increasing) simp_all
  then have p2: "unat p2 < 2 ^ 60" using 1(4) by linarith
  then have ten: "unat (p2 * 10) = unat p2 * 10" "unat (delta * 10) = unat delta * 10" "unat (dist * 10) = unat dist * 10"
    using 1(5,6) by (simp_all add: unat_times)
  have asrt: "json_assert (p2 \<le> (2 ^ 64 - 1) div 10) = Inr ()" using p2 by (simp add: json_assert_def word_le_nat_alt)
  define d where "d = unat p2 * 10 div ?one"
  define r where "r = p2 * 10 AND (one_f - 1)"
  have r: "unat r = unat p2 * 10 mod ?one" "unat (drop_bit sh (p2 * 10)) = d"
    unfolding r_def d_def 1(3) by (simp_all only: low_bits unat_high ten)
  have num: "unat p2 * 10 = d * ?one + unat r" unfolding r d_def by (simp only: div_mult_mod_eq)
  have "d < 10" using 1(4) by (simp add: d_def div_less_iff_less_mult)
  then have d: "d \<le> 9" by simp
  have ld: "leading (ns @ [d])" using 1(7,8) d by (simp add: leading_snoc)
  have put: "put_digit cap d (map digit_char ns) = Inr (map digit_char (ns @ [d]))" using put_digit_result d len 1(11) by simp
  have step: "fraction_digits cap sh one_f dist delta p2 m (map digit_char ns) =
    (if r \<le> delta * 10 then rbind (grisu2_round (map digit_char (ns @ [d])) (dist * 10) (delta * 10) r one_f) (\<lambda>buf. Inr (buf, m + 1))
     else fraction_digits cap sh one_f (dist * 10) (delta * 10) r (m + 1) (map digit_char (ns @ [d])))"
    using asrt put r(2) by (subst fraction_digits.simps) (simp add: Let_def r_def)
  have one: "unat one_f = ?one" using push_bit_u64 [of 1 sh] \<open>?one \<le> 2 ^ 60\<close> unfolding 1(3) by simp
  have v: "10 * (digits_value ns * ?one + unat p2) = digits_value (ns @ [d]) * ?one + unat r"
    using num by (simp add: algebra_simps)
  show ?case
  proof (cases "r \<le> delta * 10")
    case True
    then have "unat r \<le> unat (delta * 10)" by (simp add: word_le_nat_alt)
    moreover have "unat (delta * 10) < d * unat one_f + unat r" using num 1(5) ten one by simp
    ultimately obtain d' where d': "grisu2_round (map digit_char (ns @ [d])) (dist * 10) (delta * 10) r one_f = Inr (map digit_char (ns @ [d']))"
      "shortened (ns @ [d'])" "d' * unat one_f \<le> d * unat one_f" "unat r + d * unat one_f \<le> unat (delta * 10) + d' * unat one_f"
      using round_result [of r "delta * 10" d one_f "dist * 10" ns] 1(6) ten one ld by auto
    have v': "digits_value (ns @ [d']) * ?one = 10 * (digits_value ns * ?one) + d' * ?one"
      "digits_value (ns @ [d]) * ?one = 10 * (digits_value ns * ?one) + d * ?one" by (simp_all add: algebra_simps)
    have "digits_value (ns @ [d']) * ?one \<le> 10 * (digits_value ns * ?one + unat p2)"
      "10 * (digits_value ns * ?one + unat p2) \<le> digits_value (ns @ [d']) * ?one + 10 * unat delta"
      using d'(3,4) unfolding v v' one ten by linarith+
    then show ?thesis using True d'(1,2) len unfolding step
      by (intro exI [of _ "ns @ [d']"] exI [of _ 1]) simp
  next
    case False
    then have "unat (delta * 10) < unat r" by (simp add: word_le_nat_alt)
    moreover have "unat r < 2 ^ sh" unfolding r by simp
    moreover have "2 ^ sh \<le> 10 ^ (17 - length (ns @ [d])) * unat (delta * 10)"
    proof -
      have "17 - length ns = Suc (17 - length (ns @ [d]))" using len by simp
      then show ?thesis using 1(10) unfolding ten by (simp only: power_Suc ac_simps)
    qed
    ultimately obtain ns' t where IH: "fraction_digits cap sh one_f (dist * 10) (delta * 10) r (m + 1) (map digit_char (ns @ [d])) =
        Inr (map digit_char ns', m + 1 + int t)" "shortened ns'" "length ns' = length (ns @ [d]) + t" "length ns' \<le> 17"
      "digits_value ns' * 2 ^ sh \<le> 10 ^ t * (digits_value (ns @ [d]) * 2 ^ sh + unat r)"
      "10 ^ t * (digits_value (ns @ [d]) * 2 ^ sh + unat r) \<le> digits_value ns' * 2 ^ sh + 10 ^ t * unat (delta * 10)"
      using 1(1) [OF asrt refl refl r_def _ refl refl refl False, of "ns @ [d]"] 1(2-11) put r(2) ten ld len by auto
    have e: "10 ^ Suc t * (digits_value ns * ?one + unat p2) = 10 ^ t * (digits_value (ns @ [d]) * 2 ^ sh + unat r)"
      "10 ^ Suc t * unat delta = 10 ^ t * unat (delta * 10)"
      unfolding v [symmetric] ten by simp_all
    show ?thesis using False IH unfolding step
      by (intro exI [of _ ns'] exI [of _ "Suc t"]) (simp only: e, simp)
  qed
qed

section \<open>All digits\<close>

lemma find_largest_pow10_result:
  assumes "0 < unat p1"
  obtains k pow10 where "find_largest_pow10 p1 = (k, pow10)" and "1 \<le> k" and "k \<le> 10" and "unat pow10 = 10 ^ (k - 1)"
    and "10 ^ (k - 1) \<le> unat p1" and "unat p1 < 10 ^ k"
proof -
  have "unat p1 < 2 ^ 32" using unsigned_less [of p1] by simp
  then have u: "unat p1 < 4294967296" by simp
  let ?k = "fst (find_largest_pow10 p1)" and ?p = "snd (find_largest_pow10 p1)"
  have "1 \<le> ?k \<and> ?k \<le> 10 \<and> unat ?p = 10 ^ (?k - 1) \<and> 10 ^ (?k - 1) \<le> unat p1 \<and> unat p1 < 10 ^ ?k"
    using assms u by (simp add: find_largest_pow10_def word_le_nat_alt)
  then show thesis using that [of ?k ?p] by simp
qed

text \<open>
  The bounds, seen from the upper one: \<open>M\<close> is the number of the fixed point format that is scaled,
  with \<open>sh\<close> fractional bits; the exponent that comes back is relative to that format.
\<close>

lemma digit_gen_result:
  assumes e: "-60 \<le> e" "e \<le> -32" and W: "unat l \<le> unat w" "unat w \<le> unat u" "0 < unat l" and u: "2 ^ 60 \<le> unat u"
    and wide: "unat u \<le> 10 ^ 16 * (unat u - unat l)" and cap: "17 \<le> cap"
  obtains ns k t where
    "grisu2_digit_gen cap de \<lparr>dy_f = l, dy_e = e\<rparr> \<lparr>dy_f = w, dy_e = e\<rparr> \<lparr>dy_f = u, dy_e = e\<rparr> =
       Inr (map digit_char ns, de + int k - int t)"
    and "shortened ns" and "length ns \<le> 17" and "k \<le> 10" and "t \<le> 17"
    and "10 ^ t * unat l \<le> digits_value ns * 10 ^ k * 2 ^ nat (- e)" and "digits_value ns * 10 ^ k * 2 ^ nat (- e) \<le> 10 ^ t * unat u"
proof -
  define sh where "sh = nat (- e)"
  have sh: "32 \<le> sh" "sh \<le> 60" using e by (simp_all add: sh_def)
  let ?one = "2 ^ sh :: nat"
  have one_le: "?one \<le> 2 ^ 60" "2 ^ 32 \<le> ?one" using sh by (intro power_increasing; simp)+
  define delta dist where "delta = u - l" and "dist = u - w"
  have "unat l \<le> unat u" using W by simp
  then have d: "unat delta = unat u - unat l" "unat dist = unat u - unat w"
    using W by (simp_all add: delta_def dist_def unat_sub word_le_nat_alt)
  have subs: "diyfp_sub \<lparr>dy_f = u, dy_e = e\<rparr> \<lparr>dy_f = l, dy_e = e\<rparr> = Inr \<lparr>dy_f = delta, dy_e = e\<rparr>"
    "diyfp_sub \<lparr>dy_f = u, dy_e = e\<rparr> \<lparr>dy_f = w, dy_e = e\<rparr> = Inr \<lparr>dy_f = dist, dy_e = e\<rparr>"
    using W \<open>unat l \<le> unat u\<close> by (simp_all add: diyfp_sub_def json_assert_def word_le_nat_alt delta_def dist_def)
  define p1 p2 where "p1 = (ucast (drop_bit sh u) :: u32)" and "p2 = u AND (push_bit sh 1 - 1)"
  have p2: "unat p2 = unat u mod ?one" unfolding p2_def by (rule low_bits)
  have "unat u div ?one < 2 ^ 32"
  proof (rule less_mult_imp_div_less)
    have "2 ^ 32 * 2 ^ 32 \<le> 2 ^ 32 * ?one" using one_le(2) by (rule mult_le_mono2)
    then show "unat u < 2 ^ 32 * ?one" using unat_less_u64 [of u] by simp
  qed
  then have p1: "unat p1 = unat u div ?one"
    unfolding p1_def by (simp add: unsigned_ucast_eq unat_high take_bit_nat_eq_self)
  have num: "unat u = unat p1 * ?one + unat p2" unfolding p1 p2 by (simp only: div_mult_mod_eq)
  have "?one \<le> unat u" using u one_le(1) by simp
  then have pos: "0 < unat p1" unfolding p1 by (simp add: div_greater_zero_iff)
  obtain kap pow10 where k: "find_largest_pow10 p1 = (kap, pow10)" "1 \<le> kap" "kap \<le> 10" "unat pow10 = 10 ^ (kap - 1)"
    "10 ^ (kap - 1) \<le> unat p1" "unat p1 < 10 ^ kap"
    by (rule find_largest_pow10_result [OF pos])
  have lead: "10 ^ (kap - 1) * ?one \<le> unat u" using mult_le_mono1 [OF k(5), of ?one] num by linarith
  have dd: "unat delta < unat p1 * ?one + unat p2" "unat dist \<le> unat delta" "unat p1 * ?one + unat p2 < 2 ^ 64"
    "10 ^ (kap - 1) * ?one < 2 ^ 64"
    using d W lead unat_less_u64 [of u] num by linarith+
  obtain r where r: "integral_digits cap sh dist delta p2 de kap p1 pow10 (map digit_char []) = Inr r"
    "integral_result sh (unat delta) (unat p2) (unat u) 0 de kap r"
    using integral_digits_result [of p1 kap pow10 sh delta p2 dist "[]" cap de, OF k(6,4) dd(4,1,3,2)] k(2,3,5) cap num
    by (auto simp: leading_def)
  have gen: "grisu2_digit_gen cap de \<lparr>dy_f = l, dy_e = e\<rparr> \<lparr>dy_f = w, dy_e = e\<rparr> \<lparr>dy_f = u, dy_e = e\<rparr> =
    (case r of Inl done \<Rightarrow> Inr done
     | Inr buf \<Rightarrow> rbind (json_assert (delta < p2)) (\<lambda>_.
         rbind (fraction_digits cap sh (push_bit sh 1) dist delta p2 0 buf) (\<lambda>(buf, m). Inr (buf, de - m))))"
    using e subs pos k(1) r(1)
    unfolding grisu2_digit_gen_def Let_def diyfp.select_convs sh_def [symmetric] p1_def [symmetric] p2_def [symmetric]
    by (simp add: json_assert_def word_gt_0 unat_gt_0 split: sum.split)
  show thesis
  proof (cases r)
    case (Inl x)
    then obtain ns j where "r = Inl (map digit_char ns, de + int j)" "shortened ns" "length ns + j = kap" "j < kap"
      "digits_value ns * 10 ^ j * ?one \<le> unat u" "unat u \<le> unat delta + digits_value ns * 10 ^ j * ?one"
      using r(2) by (cases x) (auto simp: integral_result_def)
    then show thesis using that [of ns j 0] gen k(3) d \<open>unat l \<le> unat u\<close> by (simp add: sh_def)
  next
    case (Inr buf)
    then obtain ns where ns: "buf = map digit_char ns" "leading ns" "ns \<noteq> []" "length ns = kap"
      "unat u = digits_value ns * ?one + unat p2" "unat delta < unat p2"
      using r(2) by (auto simp: integral_result_def)
    have wide': "?one \<le> 10 ^ (17 - length ns) * unat delta"
    proof -
      have "10 ^ (kap - 1) * ?one \<le> 10 ^ 16 * unat delta" using order_trans [OF lead wide] unfolding d(1) .
      also have "(10 :: nat) ^ 16 = 10 ^ (kap - 1) * 10 ^ (17 - kap)" using k(2,3) by (simp flip: power_add)
      finally show ?thesis by (simp add: ns(4))
    qed
    have "unat p2 < ?one" "length ns \<le> 17" using k(3) ns(4) unfolding p2 by simp_all
    note fraction_digits_result [OF sh(2) refl this(1) ns(6) dd(2) ns(2,3) this(2) wide' cap, of 0]
    then obtain ns' t where f: "fraction_digits cap sh (push_bit sh 1) dist delta p2 0 (map digit_char ns) = Inr (map digit_char ns', 0 + int t)"
      "shortened ns'" "length ns' \<le> 17" "t \<le> 17" "digits_value ns' * ?one \<le> 10 ^ t * unat u"
      "10 ^ t * unat u \<le> digits_value ns' * ?one + 10 ^ t * unat delta"
      unfolding ns(5) by (metis add_leD2)
    have "10 ^ t * unat u = 10 ^ t * unat l + 10 ^ t * unat delta" using d \<open>unat l \<le> unat u\<close> by (simp flip: add_mult_distrib2)
    then have "10 ^ t * unat l \<le> digits_value ns' * ?one" using f(6) by simp
    then show thesis using that [of ns' 0 t] gen f Inr ns(1,6) by (simp add: sh_def json_assert_def word_less_nat_alt)
  qed
qed

end
