(* ===== verification/Grisu_Powers.thy ===== *)
theory Grisu_Powers
  imports Float_Text Complex_Main
begin

text \<open>
  The cached powers of ten of Grisu2: each is the power rounded to 64 bits, and the index computed
  from a binary exponent picks one that brings the product into the range of the digit generation,
  for every exponent a normalised double can have.
\<close>

section \<open>The index\<close>

definition power_index :: "int \<Rightarrow> int" where
  "power_index e = int_div (300 + (int_div ((- 60 - e - 1) * 78913) (2 ^ 18) + of_bool (0 < - 60 - e - 1)) + (8 - 1)) 8"

lemma int_div_mono: "0 < c \<Longrightarrow> a \<le> b \<Longrightarrow> int_div a c \<le> int_div b c"
proof -
  assume c: "0 < c" and ab: "a \<le> b"
  have n: "int_div x c = - ((- x) div c)" if "x \<le> 0" for x using that c by (cases "x = 0") (simp_all add: int_div_def)
  have p: "int_div x c = x div c" if "0 \<le> x" for x using that c by (cases "x = 0") (simp_all add: int_div_def)
  consider "0 \<le> a" | "b \<le> 0" | "a \<le> 0" "0 \<le> b" using ab by linarith
  then show ?thesis
  proof cases
    case 1 then show ?thesis using ab c p zdiv_mono1 by simp
  next
    case 2 then show ?thesis using ab c n zdiv_mono1 [of "- b" "- a" c] by simp
  next
    case 3 then show ?thesis
      using n [of a] p [of b] pos_imp_zdiv_nonneg_iff [OF c, of "- a"] pos_imp_zdiv_nonneg_iff [OF c, of b] by linarith
  qed
qed

lemma power_index_mono: "e \<le> e' \<Longrightarrow> power_index e' \<le> power_index e"
  unfolding power_index_def
  by (intro int_div_mono add_mono order.refl) (auto intro!: int_div_mono)

text \<open>The exponents that get an entry's index lie in the entry's range.\<close>

fun separates :: "int \<Rightarrow> (u64 \<times> int \<times> int) list \<Rightarrow> bool" where
  "separates i [] = True"
| "separates i ((c, ec, k) # es) = (i < power_index (- 125 - ec) \<and> (i = 0 \<or> power_index (- 95 - ec) < i) \<and>
     k = 8 * i - 300 \<and> separates (i + 1) es)"

lemma kCachedPowers_separates: "separates 0 kCachedPowers"
  by (simp add: kCachedPowers_def power_index_def int_div_def)

lemma separates_entry:
  "separates i es \<Longrightarrow> n < length es \<Longrightarrow> es ! n = (c, ec, k) \<Longrightarrow>
   i + int n < power_index (- 125 - ec) \<and> (i + int n = 0 \<or> power_index (- 95 - ec) < i + int n) \<and> k = 8 * (i + int n) - 300"
proof (induction i es arbitrary: n rule: separates.induct)
  case (2 i c' ec' k' es)
  then show ?case by (cases n) (auto simp: algebra_simps)
qed simp

lemma kCachedPowers_ends: "length kCachedPowers = 79" "hd kCachedPowers = (0xAB70FE17C79AC6CA, -1060, -300)"
  by (simp_all add: kCachedPowers_def)

lemma cached_power_range:
  assumes "-1137 \<le> e" and "e \<le> 960"
  obtains n c ec k where "n < length kCachedPowers" "kCachedPowers ! n = (c, ec, k)"
    "get_cached_power_for_binary_exponent e = Inr (c, ec, k)" "-60 \<le> ec + e + 64" "ec + e + 64 \<le> -32" "k = 8 * int n - 300"
proof -
  have ends: "power_index 960 = 0" "power_index (- 1137) = 78" by (simp_all add: power_index_def int_div_def)
  have i: "0 \<le> power_index e" "power_index e < 79"
    using power_index_mono [OF assms(1)] power_index_mono [OF assms(2)] ends by simp_all
  define n where "n = nat (power_index e)"
  have n: "power_index e = int n" "n < 79" using i by (simp_all add: n_def)
  obtain c ec k where p: "kCachedPowers ! n = (c, ec, k)" by (cases "kCachedPowers ! n")
  have s: "int n < power_index (- 125 - ec)" "int n = 0 \<or> power_index (- 95 - ec) < int n" "k = 8 * int n - 300"
    using separates_entry [OF kCachedPowers_separates _ p] n kCachedPowers_ends by simp_all
  have lo: "- 124 - ec \<le> e" using s(1) power_index_mono [of e "- 125 - ec"] n(1) by linarith
  have hi: "e \<le> - 96 - ec"
  proof (cases "n = 0")
    case True
    then have "ec = -1060" using p kCachedPowers_ends by (simp add: hd_conv_nth kCachedPowers_def)
    then show ?thesis using assms(2) by simp
  next
    case False
    then show ?thesis using s(2) power_index_mono [of "- 95 - ec" e] n(1) by linarith
  qed
  have "get_cached_power_for_binary_exponent e = Inr (c, ec, k)"
    using assms lo hi n p kCachedPowers_ends i
    unfolding get_cached_power_for_binary_exponent_def Let_def power_index_def [symmetric]
    by (simp add: json_assert_def)
  then show thesis using that [of n c ec k] n p lo hi s(3) kCachedPowers_ends by simp
qed

section \<open>The error\<close>

definition accurate :: "u64 \<times> int \<times> int \<Rightarrow> bool" where
  "accurate = (\<lambda>(c, ec, k). 2 ^ 63 \<le> unat c \<and>
     \<bar>real (unat c) * 2 powi ec - 10 powi k\<bar> * 2 \<le> 2 powi ec)"

text \<open>The powers of five that the check of an entry needs are computed from entry to entry.\<close>

fun accurate_up :: "int \<Rightarrow> (u64 \<times> int \<times> int) list \<Rightarrow> bool" where
  "accurate_up p [] = True"
| "accurate_up p ((c, ec, k) # es) = (2 ^ 63 \<le> uint c \<and>
     \<bar>uint c * 2 ^ nat (ec - k) - p * 2 ^ nat (k - ec)\<bar> * 2 \<le> 2 ^ nat (ec - k) \<and> accurate_up (p * 390625) es)"

fun accurate_down :: "int \<Rightarrow> (u64 \<times> int \<times> int) list \<Rightarrow> bool" where
  "accurate_down p [] = True"
| "accurate_down p ((c, ec, k) # es) = (2 ^ 63 \<le> uint c \<and>
     \<bar>uint c * p * 2 ^ nat (ec - k) - 2 ^ nat (k - ec)\<bar> * 2 \<le> p * 2 ^ nat (ec - k) \<and> accurate_down (p * 390625) es)"

lemma accurate_entry:
  fixes q :: real
  assumes "2 ^ 63 \<le> uint c" and "q = 5 powi k"
    and "\<bar>real_of_int (uint c) * 2 ^ nat (ec - k) - q * 2 ^ nat (k - ec)\<bar> * 2 \<le> 2 ^ nat (ec - k)"
  shows "accurate (c, ec, k)"
proof -
  define t :: real where "t = 2 powi min ec k"
  have t: "0 < t" by (simp add: t_def)
  have "(2 :: real) powi ec = 2 ^ nat (ec - k) * t" "(2 :: real) powi k = 2 ^ nat (k - ec) * t"
    by (cases "k \<le> ec"; simp add: t_def min_def power_int_add [symmetric] flip: power_int_of_nat)+
  moreover have "(10 :: real) powi k = q * 2 powi k" unfolding assms(2) by (simp flip: power_int_mult_distrib)
  ultimately have e: "real_of_int (uint c) * 2 powi ec - 10 powi k =
      (real_of_int (uint c) * 2 ^ nat (ec - k) - q * 2 ^ nat (k - ec)) * t" "(2 :: real) powi ec = 2 ^ nat (ec - k) * t"
    by (simp_all add: algebra_simps)
  have "\<bar>real_of_int (uint c) * 2 powi ec - 10 powi k\<bar> * 2 =
      \<bar>real_of_int (uint c) * 2 ^ nat (ec - k) - q * 2 ^ nat (k - ec)\<bar> * 2 * t"
    unfolding e(1) using t by (simp add: abs_mult)
  also have "\<dots> \<le> 2 ^ nat (ec - k) * t" using assms(3) t by (intro mult_right_mono) simp_all
  finally have "\<bar>real_of_int (uint c) * 2 powi ec - 10 powi k\<bar> * 2 \<le> 2 powi ec" unfolding e(2) .
  moreover have u: "uint c = int (unat c)" by (rule uint_nat)
  moreover have "2 ^ 63 \<le> unat c" using assms(1) unfolding u by (simp only: of_nat_le_iff [symmetric, where 'a = int]) simp
  ultimately show ?thesis by (simp only: accurate_def prod.case of_int_of_nat_eq)
qed

text \<open>Every entry stands for a power with an exponent eight more than the one before.\<close>

definition steps_from :: "int \<Rightarrow> int \<Rightarrow> (u64 \<times> int \<times> int) list \<Rightarrow> bool" where
  "steps_from k0 s es \<longleftrightarrow> (\<forall>n < length es. snd (snd (es ! n)) = k0 + s * int n)"

lemma steps_from_Cons: "steps_from k0 s ((c, ec, k) # es) \<Longrightarrow> k = k0 \<and> steps_from (k0 + s) s es"
  unfolding steps_from_def by (force simp: algebra_simps)

lemma accurate_up_all:
  "accurate_up p es \<Longrightarrow> steps_from k0 8 es \<Longrightarrow> real_of_int p = 5 powi k0 \<Longrightarrow> list_all accurate es"
proof (induction p es arbitrary: k0 rule: accurate_up.induct)
  case (2 p c ec k es)
  have k: "k = k0" "steps_from (k0 + 8) 8 es" using steps_from_Cons 2(3) by blast+
  have "real_of_int (p * 390625) = 5 powi (k0 + 8)" using 2(4) by (simp add: power_int_add)
  then have "list_all accurate es" using 2(1,2) k(2) by simp
  moreover have "accurate (c, ec, k)"
  proof (rule accurate_entry [where q = "real_of_int p"])
    have "real_of_int (\<bar>uint c * 2 ^ nat (ec - k) - p * 2 ^ nat (k - ec)\<bar> * 2) \<le> real_of_int (2 ^ nat (ec - k))"
      using 2(2) by (simp only: of_int_le_iff accurate_up.simps)
    then show "\<bar>real_of_int (uint c) * 2 ^ nat (ec - k) - real_of_int p * 2 ^ nat (k - ec)\<bar> * 2 \<le> 2 ^ nat (ec - k)" by simp
  qed (use 2 k in simp_all)
  ultimately show ?case by simp
qed simp

lemma accurate_down_all:
  "accurate_down p es \<Longrightarrow> steps_from k0 (- 8) es \<Longrightarrow> real_of_int p = 5 powi (- k0) \<Longrightarrow> list_all accurate es"
proof (induction p es arbitrary: k0 rule: accurate_down.induct)
  case (2 p c ec k es)
  have k: "k = k0" "steps_from (k0 - 8) (- 8) es" using steps_from_Cons [OF 2(3)] by simp_all
  have p: "0 < real_of_int p" unfolding 2(4) by simp
  have "real_of_int (p * 390625) = 5 powi (- (k0 - 8))" using 2(4) power_int_add [of "5 :: real" "- k0" 8] by simp
  then have "list_all accurate es" using 2(1,2) k(2) by simp
  moreover have "accurate (c, ec, k)"
  proof (rule accurate_entry [where q = "1 / real_of_int p"])
    let ?A = "2 ^ nat (ec - k) :: real" and ?B = "2 ^ nat (k - ec) :: real"
    have "real_of_int (\<bar>uint c * p * 2 ^ nat (ec - k) - 2 ^ nat (k - ec)\<bar> * 2) \<le> real_of_int (p * 2 ^ nat (ec - k))"
      using 2(2) by (simp only: of_int_le_iff accurate_down.simps)
    then have "\<bar>real_of_int (uint c) * p * ?A - ?B\<bar> * 2 \<le> p * ?A" by simp
    moreover have "real_of_int (uint c) * p * ?A - ?B = p * (real_of_int (uint c) * ?A - 1 / p * ?B)"
      using p by (simp add: field_simps)
    ultimately have "p * (\<bar>real_of_int (uint c) * ?A - 1 / p * ?B\<bar> * 2) \<le> p * ?A" using p by (simp add: abs_mult)
    then show "\<bar>real_of_int (uint c) * ?A - 1 / p * ?B\<bar> * 2 \<le> ?A" using p by (simp only: mult_le_cancel_left_pos)
    show "1 / real_of_int p = 5 powi k" using 2(4) k(1) by (simp add: power_int_minus inverse_eq_divide)
  qed (use 2 in simp)
  ultimately show ?case by simp
qed simp

lemma kCachedPowers_up: "accurate_up 625 (drop 38 kCachedPowers)"
  by (simp add: kCachedPowers_def)

lemma kCachedPowers_down: "accurate_down 625 (rev (take 38 kCachedPowers))"
  by (simp add: kCachedPowers_def)

lemma kCachedPowers_accurate: "list_all accurate kCachedPowers"
proof -
  have k: "snd (snd (kCachedPowers ! n)) = 8 * int n - 300" if "n < 79" for n
    using separates_entry [OF kCachedPowers_separates, of n] that kCachedPowers_ends(1) by (cases "kCachedPowers ! n") simp
  have "steps_from 4 8 (drop 38 kCachedPowers)" "steps_from (- 4) (- 8) (rev (take 38 kCachedPowers))"
    using kCachedPowers_ends(1) k by (simp_all add: steps_from_def rev_nth of_nat_diff)
  then have "list_all accurate (drop 38 kCachedPowers)" "list_all accurate (rev (take 38 kCachedPowers))"
    using accurate_up_all [OF kCachedPowers_up] accurate_down_all [OF kCachedPowers_down] by simp_all
  then have "list_all accurate (take 38 kCachedPowers @ drop 38 kCachedPowers)" by (simp only: list_all_append list_all_rev)
  then show ?thesis by simp
qed

text \<open>What a normalised number gets.\<close>

lemma cached_power:
  assumes "-1137 \<le> e" and "e \<le> 960"
  obtains c ec k where "get_cached_power_for_binary_exponent e = Inr (c, ec, k)"
    and "-60 \<le> ec + e + 64" and "ec + e + 64 \<le> -32" and "2 ^ 63 \<le> unat c"
    and "\<bar>real (unat c) * 2 powi ec - 10 powi k\<bar> * 2 \<le> 2 powi ec" and "-300 \<le> k" and "k \<le> 324"
proof -
  obtain n c ec k where n: "n < length kCachedPowers" "kCachedPowers ! n = (c, ec, k)"
    "get_cached_power_for_binary_exponent e = Inr (c, ec, k)" "-60 \<le> ec + e + 64" "ec + e + 64 \<le> -32" "k = 8 * int n - 300"
    by (rule cached_power_range [OF assms])
  then have "accurate (c, ec, k)" using kCachedPowers_accurate by (metis list_all_length)
  then show thesis using that n kCachedPowers_ends(1) by (simp add: accurate_def)
qed

end
