(* ===== verification/Grisu.thy ===== *)
theory Grisu
  imports Grisu_Digits Grisu_Powers
begin

text \<open>
  Grisu2 prints every positive finite double with at most 17 digits, and the decimal number printed
  lies strictly between the midpoints to the neighbouring doubles, so that it is rounded back to it.
\<close>

section \<open>Rounding errors\<close>

lemma rounded_bounds:
  fixes n :: nat
  defines "r \<equiv> (n + 2 ^ 63) div 2 ^ 64"
  shows "2 ^ 64 * r \<le> n + 2 ^ 63" and "n + 2 ^ 63 < 2 ^ 64 * r + 2 ^ 64"
  unfolding r_def by (simp_all add: div_times_less_eq_dividend dividend_less_div_times mult.commute)

text \<open>The scaled boundaries keep their order, and their distance is wide enough for 17 digits.\<close>

lemma scaled_order:
  fixes wm w wp c A f :: nat
  assumes "wp = (2 * f + 1) * A" and "w = 2 * f * A" and "wm + B = w" and "A \<le> 2 * B" and "2 ^ 10 \<le> A" and "2 ^ 63 \<le> c"
    and "2 ^ 63 \<le> wp" and "wp + 6 * 10 ^ 16 \<le> 10 ^ 16 * (A + B)"
  defines "Up \<equiv> (wp * c + 2 ^ 63) div 2 ^ 64" and "Mid \<equiv> (w * c + 2 ^ 63) div 2 ^ 64" and "Low \<equiv> (wm * c + 2 ^ 63) div 2 ^ 64"
  shows "Low + 1 \<le> Mid" "Mid \<le> Up - 1" "2 ^ 62 \<le> Up" "Up - 1 \<le> 10 ^ 16 * (Up - 1 - (Low + 1))"
proof -
  note b = rounded_bounds [of "wp * c", folded Up_def] rounded_bounds [of "w * c", folded Mid_def] rounded_bounds [of "wm * c", folded Low_def]
  have e: "wp * c = w * c + A * c" "w * c = wm * c + B * c" using assms(1-3) by (simp_all flip: add_mult_distrib)
  have Ac: "2 ^ 73 \<le> A * c" using mult_le_mono [OF assms(5,6)] by simp
  have "2 ^ 9 \<le> B" using assms(4,5) by simp
  then have Bc: "2 ^ 72 \<le> B * c" using mult_le_mono [OF _ assms(6), of "2 ^ 9" B] by simp
  have wc: "2 ^ 126 \<le> wp * c" using mult_le_mono [OF assms(7,6)] by simp
  show l: "Low + 1 \<le> Mid" using b e Bc by simp
  show m: "Mid \<le> Up - 1" using b e Ac by simp
  show u: "2 ^ 62 \<le> Up" using b(2) wc by simp
  have "(wp + 6 * 10 ^ 16) * c \<le> 10 ^ 16 * (A + B) * c" using assms(8) by (rule mult_le_mono1)
  then have "wp * c + 6 * 10 ^ 16 * c \<le> 10 ^ 16 * (A * c + B * c)" by (simp add: algebra_simps)
  then have "2 ^ 64 * (Up - 1) \<le> 2 ^ 64 * (10 ^ 16 * (Up - 1 - (Low + 1)))" using b e assms(6) l m u by simp
  then show "Up - 1 \<le> 10 ^ 16 * (Up - 1 - (Low + 1))" by simp
qed

lemma real_u64: "n < 2 ^ 64 \<Longrightarrow> real n < 2 ^ 64"
proof -
  assume "n < 2 ^ 64"
  then have "real n < real (2 ^ 64)" by (simp only: of_nat_less_iff)
  then show "real n < 2 ^ 64" by simp
qed

text \<open>Numbers between the two scaled boundaries are between the boundaries.\<close>

lemma scaled_between:
  fixes wm wp c Low Up :: nat and X :: real
  assumes "2 ^ 64 * (Up - 1) + 2 ^ 63 \<le> wp * c" and "wm * c + 2 ^ 63 < 2 ^ 64 * (Low + 1)" and "wp < 2 ^ 64" and "wm < 2 ^ 64"
    and "\<bar>real c * 2 powi ec - 10 powi ck\<bar> * 2 \<le> 2 powi ec"
    and "real (Low + 1) \<le> X" and "X \<le> real (Up - 1)" and "0 < wp"
  shows "real wm * 2 powi e < X * 2 powi (ec + e + 64) * 10 powi (- ck)" (is "?l < ?v")
    and "X * 2 powi (ec + e + 64) * 10 powi (- ck) < real wp * 2 powi e" (is "?v < ?u")
proof -
  define p q :: real where "p = 2 powi ec" and "q = 10 powi ck"
  have pq: "0 < p" "0 < q" by (simp_all add: p_def q_def)
  have q: "(real c - 1 / 2) * p \<le> q" "q \<le> (real c + 1 / 2) * p"
  proof -
    have "\<bar>real c * p - q\<bar> * 2 \<le> p" using assms(5) unfolding p_def q_def .
    then have "\<bar>real c * p - q\<bar> \<le> p / 2" by simp
    from abs_le_D1 [OF this] abs_le_D2 [OF this] have "real c * p - q \<le> p / 2" "q - real c * p \<le> p / 2" by simp_all
    then show "(real c - 1 / 2) * p \<le> q" "q \<le> (real c + 1 / 2) * p" by (simp_all add: algebra_simps)
  qed
  have v: "?v = X * 2 ^ 64 * p * 2 powi e / q"
    by (simp add: p_def q_def power_int_add power_int_minus field_simps)
  have up: "X * 2 ^ 64 \<le> real wp * real c - 2 ^ 63"
  proof -
    have "X * 2 ^ 64 \<le> real (Up - 1) * 2 ^ 64" using assms(7) by (intro mult_right_mono) simp_all
    moreover have "real (2 ^ 64 * (Up - 1) + 2 ^ 63) \<le> real (wp * c)" using assms(1) by (simp only: of_nat_le_iff)
    ultimately show ?thesis by (simp add: algebra_simps)
  qed
  have lo: "real wm * real c + 2 ^ 63 < X * 2 ^ 64"
  proof -
    have "real (Low + 1) * 2 ^ 64 \<le> X * 2 ^ 64" using assms(6) by (intro mult_right_mono) simp_all
    moreover have "real (wm * c + 2 ^ 63) < real (2 ^ 64 * (Low + 1))" using assms(2) by (simp only: of_nat_less_iff)
    ultimately show ?thesis by (simp add: algebra_simps)
  qed
  have "X * 2 ^ 64 * p < real wp * q"
  proof -
    have "real wp < 2 ^ 64" using assms(3) by (rule real_u64)
    then have "real wp * real c - 2 ^ 63 < real wp * (real c - 1 / 2)" by (simp add: algebra_simps)
    then have "X * 2 ^ 64 * p < real wp * (real c - 1 / 2) * p" using up pq(1) by (intro mult_strict_right_mono) simp_all
    also have "\<dots> \<le> real wp * q" using q(1) by (simp add: mult.assoc mult_left_mono)
    finally show ?thesis .
  qed
  then show "?v < ?u" unfolding v using pq by (simp add: field_simps)
  have "real wm * q < X * 2 ^ 64 * p"
  proof -
    have "real wm < 2 ^ 64" using assms(4) by (rule real_u64)
    then have "real wm * (real c + 1 / 2) < real wm * real c + 2 ^ 63" by (simp add: algebra_simps)
    then have "real wm * (real c + 1 / 2) * p < X * 2 ^ 64 * p" using lo pq(1) by (intro mult_strict_right_mono) simp_all
    moreover have "real wm * q \<le> real wm * (real c + 1 / 2) * p" using q(2) by (simp add: mult.assoc mult_left_mono)
    ultimately show ?thesis by simp
  qed
  then show "?l < ?v" unfolding v using pq by (simp add: field_simps)
qed

section \<open>Grisu2\<close>

text \<open>The value of a double, and the midpoints to its neighbours in absolute value.\<close>

definition double_value :: "double \<Rightarrow> real" where
  "double_value d = real (significand d) * 2 powi exponent d"

definition midpoint_above :: "double \<Rightarrow> real" where
  "midpoint_above d = double_value d + 2 powi (exponent d - 1)"

definition midpoint_below :: "double \<Rightarrow> real" where
  "midpoint_below d = double_value d - (if lower_closer d then 2 powi (exponent d - 2) else 2 powi (exponent d - 1))"

lemma midpoints:
  assumes "0 < significand d" and "1 \<le> a"
  shows "real ((2 * significand d + 1) * 2 ^ a) * 2 powi (exponent d - 1 - int a) = midpoint_above d"
    and "real (if lower_closer d then (4 * significand d - 1) * 2 ^ (a - 1) else (2 * significand d - 1) * 2 ^ a) *
      2 powi (exponent d - 1 - int a) = midpoint_below d"
proof -
  let ?f = "significand d" and ?x = "exponent d"
  have p: "(2 :: real) ^ k * 2 powi (y - int k) = 2 powi y" for k y
    by (simp add: power_int_diff)
  have h: "(2 :: real) powi ?x = 2 * 2 powi (?x - 1)" "(2 :: real) powi (?x - 1) = 2 * 2 powi (?x - 2)"
    using power_int_add [of "2 :: real" 1 "?x - 1"] power_int_add [of "2 :: real" 1 "?x - 2"] by simp_all
  show "real ((2 * ?f + 1) * 2 ^ a) * 2 powi (?x - 1 - int a) = midpoint_above d"
    using p [of a "?x - 1"] h by (simp add: midpoint_above_def double_value_def algebra_simps)
  show "real (if lower_closer d then (4 * ?f - 1) * 2 ^ (a - 1) else (2 * ?f - 1) * 2 ^ a) *
      2 powi (?x - 1 - int a) = midpoint_below d"
  proof (cases "lower_closer d")
    case True
    have "real ((4 * ?f - 1) * 2 ^ (a - 1)) * 2 powi (?x - 1 - int a) = (4 * real ?f - 1) * (2 ^ (a - 1) * 2 powi (?x - 2 - int (a - 1)))"
      using assms by (simp add: of_nat_diff algebra_simps)
    also have "\<dots> = (4 * real ?f - 1) * 2 powi (?x - 2)" by (simp only: p)
    finally show ?thesis using True h by (simp add: midpoint_below_def double_value_def algebra_simps)
  next
    case False
    have "real ((2 * ?f - 1) * 2 ^ a) * 2 powi (?x - 1 - int a) = (2 * real ?f - 1) * (2 ^ a * 2 powi (?x - 1 - int a))"
      using assms by (simp add: of_nat_diff)
    also have "\<dots> = (2 * real ?f - 1) * 2 powi (?x - 1)" by (simp only: p)
    finally show ?thesis using False h by (simp add: midpoint_below_def double_value_def algebra_simps)
  qed
qed

lemma exponent_range:
  assumes "unat d < 2 ^ 63" and "isfinite d" and "d \<noteq> 0" and "2 ^ 63 \<le> (2 * significand d + 1) * 2 ^ a"
    and "(2 * significand d + 1) * 2 ^ a < 2 ^ 64"
  shows "-1137 \<le> exponent d - 1 - int a" and "exponent d - 1 - int a \<le> 960"
proof -
  note f = significand_bounds [OF assms(1,3)]
  note a = same_shift [OF f(1,2) assms(4,5)]
  have x: "-1074 \<le> exponent d" "exponent d \<le> 971"
    using assms(2) double_parts(4) [OF assms(1)] by (auto simp: exponent_def isfinite_def)
  show "-1137 \<le> exponent d - 1 - int a" using x a by linarith
  show "exponent d - 1 - int a \<le> 960" using x a by linarith
qed

lemma wide_boundaries:
  fixes f A B :: nat
  assumes "f < 2 ^ 53" and "2 ^ 10 \<le> A" and "A = B \<or> A = 2 * B \<and> f = 2 ^ 52"
  shows "(2 * f + 1) * A + 6 * 10 ^ 16 \<le> 10 ^ 16 * (A + B)"
  using assms(3)
proof
  assume "A = B"
  moreover define g where "g = (2 * f + 1) * A"
  moreover have "g \<le> 18014398509481983 * A" using assms(1) unfolding g_def by (intro mult_le_mono1) simp
  ultimately show ?thesis using assms(2) unfolding g_def [symmetric] by simp
next
  assume "A = 2 * B \<and> f = 2 ^ 52"
  then show ?thesis using assms(2) by simp
qed

lemma powi_negative: "z \<le> 0 \<Longrightarrow> (2 :: real) powi z = 1 / 2 ^ nat (- z)"
  by (cases "z = 0") (simp_all add: power_int_def power_one_over inverse_eq_divide)

lemma grisu2_result:
  assumes "unat d < 2 ^ 63" and "isfinite d" and "d \<noteq> 0" and "17 \<le> cap"
  obtains ns x where "grisu2 cap d = Inr (map digit_char ns, x)" and "shortened ns" and "length ns \<le> 17"
    and "-400 \<le> x" and "x \<le> 400"
    and "midpoint_below d < real (digits_value ns) * 10 powi x" and "real (digits_value ns) * 10 powi x < midpoint_above d"
proof -
  let ?f = "significand d"
  note f = significand_bounds [OF assms(1,3)]
  obtain a w wm wp where b:
    "compute_boundaries d = Inr \<lparr>bd_w = \<lparr>dy_f = w, dy_e = exponent d - 1 - int a\<rparr>,
       bd_minus = \<lparr>dy_f = wm, dy_e = exponent d - 1 - int a\<rparr>, bd_plus = \<lparr>dy_f = wp, dy_e = exponent d - 1 - int a\<rparr>\<rparr>"
    "unat w = ?f * 2 ^ (a + 1)" "unat wp = (2 * ?f + 1) * 2 ^ a"
    "unat wm = (if lower_closer d then (4 * ?f - 1) * 2 ^ (a - 1) else (2 * ?f - 1) * 2 ^ a)"
    "2 ^ 63 \<le> (2 * ?f + 1) * 2 ^ a" "(2 * ?f + 1) * 2 ^ a < 2 ^ 64"
    by (rule boundaries_result [OF assms(1-3)])
  define e where "e = exponent d - 1 - int a"
  note a = same_shift [OF f(1,2) b(5,6)]
  have e: "-1137 \<le> e" "e \<le> 960" unfolding e_def by (rule exponent_range [OF assms(1-3) b(5,6)])+
  obtain c ec ck where c: "get_cached_power_for_binary_exponent e = Inr (c, ec, ck)"
    "-60 \<le> ec + e + 64" "ec + e + 64 \<le> -32" "2 ^ 63 \<le> unat c"
    "\<bar>real (unat c) * 2 powi ec - 10 powi ck\<bar> * 2 \<le> 2 powi ec" "-300 \<le> ck" "ck \<le> 324"
    by (rule cached_power [OF e])
  define A B :: nat where "A = 2 ^ a" and "B = (if lower_closer d then 2 ^ (a - 1) else 2 ^ a)"
  have A: "2 ^ 10 \<le> A" unfolding A_def using a(1) by (rule power_increasing) simp
  have AB: "A = 2 * 2 ^ (a - 1)" unfolding A_def using a(1) by (cases a) simp_all
  have close: "?f = 2 ^ 52" if "lower_closer d" using that by (simp add: lower_closer_def significand_def)
  have w: "unat wp = (2 * ?f + 1) * A" "unat w = 2 * ?f * A" unfolding b A_def by simp_all
  have wmB: "unat wm + B = unat w"
    using f(1) unfolding w(2) b(4) B_def by (cases "lower_closer d") (simp_all add: AB A_def [symmetric] algebra_simps flip: add_mult_distrib)
  define Up Low where "Up = (unat wp * unat c + 2 ^ 63) div 2 ^ 64" and "Low = (unat wm * unat c + 2 ^ 63) div 2 ^ 64"
  define Mid where "Mid = (unat w * unat c + 2 ^ 63) div 2 ^ 64"
  have "A \<le> 2 * B" "A = B \<or> A = 2 * B \<and> ?f = 2 ^ 52" using AB close by (auto simp: B_def A_def)
  then have ord: "Low + 1 \<le> Mid" "Mid \<le> Up - 1" "2 ^ 62 \<le> Up" "Up - 1 \<le> 10 ^ 16 * (Up - 1 - (Low + 1))"
    using scaled_order [OF w wmB _ A c(4)] wide_boundaries [OF f(2) A, of B] b(5) unfolding Up_def Low_def Mid_def b(3) A_def by auto
  define cm where "cm = \<lparr>dy_f = c, dy_e = ec\<rparr>"
  define l m u where "l = dy_f (diyfp_mul \<lparr>dy_f = wm, dy_e = e\<rparr> cm) + 1" and "m = dy_f (diyfp_mul \<lparr>dy_f = w, dy_e = e\<rparr> cm)"
    and "u = dy_f (diyfp_mul \<lparr>dy_f = wp, dy_e = e\<rparr> cm) - 1"
  have raw: "unat (dy_f (diyfp_mul \<lparr>dy_f = wm, dy_e = e\<rparr> cm)) = Low" "unat m = Mid"
    "unat (dy_f (diyfp_mul \<lparr>dy_f = wp, dy_e = e\<rparr> cm)) = Up"
    by (simp_all add: diyfp_mul_f cm_def m_def Low_def Mid_def Up_def)
  have lmu: "unat l = Low + 1" "unat m = Mid" "unat u = Up - 1"
  proof -
    have "Low + 1 < 2 ^ 64" using ord(1) raw(2) unat_less_u64 [of m] by simp
    then show "unat l = Low + 1" unfolding l_def using raw(1) by (subst unat_plus) simp_all
    show "unat u = Up - 1" unfolding u_def using raw(3) ord(3) by (subst unat_sub) (simp_all add: word_le_nat_alt)
  qed (rule raw)
  have mul_e: "dy_e (diyfp_mul \<lparr>dy_f = g, dy_e = e\<rparr> cm) = ec + e + 64" for g by (simp add: diyfp_mul_def Let_def cm_def)
  have mw: "diyfp_mul \<lparr>dy_f = w, dy_e = e\<rparr> cm = \<lparr>dy_f = m, dy_e = ec + e + 64\<rparr>"
    using mul_e [of w] by (intro diyfp.equality) (simp_all add: m_def)
  have dg: "unat l \<le> unat m" "unat m \<le> unat u" "0 < unat l" "2 ^ 60 \<le> unat u" "unat u \<le> 10 ^ 16 * (unat u - unat l)"
    using ord unfolding lmu by simp_all
  obtain ns k t where g: "grisu2_digit_gen cap (- ck) \<lparr>dy_f = l, dy_e = ec + e + 64\<rparr> \<lparr>dy_f = m, dy_e = ec + e + 64\<rparr>
      \<lparr>dy_f = u, dy_e = ec + e + 64\<rparr> = Inr (map digit_char ns, - ck + int k - int t)"
    "shortened ns" "length ns \<le> 17" "k \<le> 10" "t \<le> 17"
    "10 ^ t * unat l \<le> digits_value ns * 10 ^ k * 2 ^ nat (- (ec + e + 64))"
    "digits_value ns * 10 ^ k * 2 ^ nat (- (ec + e + 64)) \<le> 10 ^ t * unat u"
    by (rule digit_gen_result [OF c(2,3) dg assms(4)])
  have "grisu2 cap d = grisu2_digit_gen cap (- ck) \<lparr>dy_f = l, dy_e = ec + e + 64\<rparr> \<lparr>dy_f = m, dy_e = ec + e + 64\<rparr>
      \<lparr>dy_f = u, dy_e = ec + e + 64\<rparr>"
    using b(1) c(1) assms(2) is_positive_small [OF assms(1,3)] unfolding grisu2_def grisu2_scaled_def Let_def e_def [symmetric]
    by (simp add: json_assert_def l_def u_def mul_e mw cm_def [symmetric])
  with g(1) have run: "grisu2 cap d = Inr (map digit_char ns, - ck + int k - int t)" by simp
  define X where "X = real (digits_value ns) * 10 ^ k * 2 ^ nat (- (ec + e + 64)) / 10 ^ t"
  have X: "real (Low + 1) \<le> X" "X \<le> real (Up - 1)"
  proof -
    have t: "(0 :: real) < 10 ^ t" by simp
    define N L U where "N = digits_value ns * 10 ^ k * 2 ^ nat (- (ec + e + 64))" and "L = Low + 1" and "U = Up - 1"
    have "real (10 ^ t * L) \<le> real N" "real N \<le> real (10 ^ t * U)"
      using g(6,7) unfolding lmu of_nat_le_iff N_def L_def U_def .
    moreover have "X = real N / 10 ^ t" by (simp add: X_def N_def)
    ultimately show "real (Low + 1) \<le> X" "X \<le> real (Up - 1)"
      unfolding L_def [symmetric] U_def [symmetric] by (simp_all add: pos_le_divide_eq [OF t] pos_divide_le_eq [OF t] mult.commute)
  qed
  have v: "real (digits_value ns) * 10 powi (- ck + int k - int t) = X * 2 powi (ec + e + 64) * 10 powi (- ck)"
  proof -
    have s: "(2 :: real) powi (ec + e + 64) = 1 / 2 ^ nat (- (ec + e + 64))"
      by (rule powi_negative) (use c(3) in simp)
    have "(10 :: real) powi (- ck + int k - int t) = 10 powi (- ck) * 10 ^ k / 10 ^ t"
      by (simp add: power_int_diff power_int_add power_int_minus field_simps)
    then show ?thesis unfolding X_def s by simp
  qed
  have rnd: "2 ^ 64 * (Up - 1) + 2 ^ 63 \<le> unat wp * unat c" "unat wm * unat c + 2 ^ 63 < 2 ^ 64 * (Low + 1)"
    using rounded_bounds(1) [of "unat wp * unat c"] rounded_bounds(2) [of "unat wm * unat c"] ord(3)
    unfolding Up_def [symmetric] Low_def [symmetric] by simp_all
  have wp: "0 < unat wp" using b(3,5) by simp
  have "1 \<le> a" using a(1) by simp
  show thesis
  proof (rule that [OF run g(2,3)])
    show "-400 \<le> - ck + int k - int t" "- ck + int k - int t \<le> 400" using c(6,7) g(4,5) by linarith+
    show "midpoint_below d < real (digits_value ns) * 10 powi (- ck + int k - int t)"
      "real (digits_value ns) * 10 powi (- ck + int k - int t) < midpoint_above d"
      unfolding v midpoints [OF f(1) \<open>1 \<le> a\<close>, folded b(3,4) e_def, symmetric]
      by (rule scaled_between [OF rnd unat_less_u64 unat_less_u64 c(5) X wp])+
  qed
qed

end
