(* ===== verification/Json_Lexer.thy ===== *)
theory Json_Lexer
  imports Json
begin

text \<open>
  \<^verbatim>\<open>src/include/nlohmann/detail/input/lexer.hpp\<close> with the iterator adapter of
  \<^verbatim>\<open>input_adapters.hpp\<close>: the input is a byte string, a character an \<open>int\<close> in 0..255
  or -1 at the end. Methods that return \<open>bool\<close> or a token return it with the new state. The
  locale is the \<open>C\<close> locale the program runs in, whose decimal point is a full stop, and the
  conversion of a decimal literal to \<open>double\<close> is the parameter \<open>strtod\<close>.
\<close>

section \<open>State\<close>

datatype token_type =
    Uninitialized | Literal_True | Literal_False | Literal_Null | Value_String | Value_Unsigned
  | Value_Integer | Value_Float | Begin_Array | Begin_Object | End_Array | End_Object
  | Name_Separator | Value_Separator | Parse_Error | End_Of_Input | Literal_Or_Value

definition in_quotes :: "string \<Rightarrow> string" where
  "in_quotes s = CHR 0x27 # s @ [CHR 0x27]"

fun token_type_name :: "token_type \<Rightarrow> string" where
  "token_type_name Uninitialized = ''<uninitialized>''"
| "token_type_name Literal_True = ''true literal''"
| "token_type_name Literal_False = ''false literal''"
| "token_type_name Literal_Null = ''null literal''"
| "token_type_name Value_String = ''string literal''"
| "token_type_name Value_Unsigned = ''number literal''"
| "token_type_name Value_Integer = ''number literal''"
| "token_type_name Value_Float = ''number literal''"
| "token_type_name Begin_Array = in_quotes ''[''"
| "token_type_name Begin_Object = in_quotes ''{''"
| "token_type_name End_Array = in_quotes '']''"
| "token_type_name End_Object = in_quotes ''}''"
| "token_type_name Name_Separator = in_quotes '':''"
| "token_type_name Value_Separator = in_quotes '',''"
| "token_type_name Parse_Error = ''<parse error>''"
| "token_type_name End_Of_Input = ''end of input''"
| "token_type_name Literal_Or_Value = in_quotes ''['' @ '', '' @ in_quotes ''{'' @ '', or a literal''"

record lexer =
  ia :: string
  ignore_comments :: bool
  current :: int
  next_unget :: bool
  chars_read_total :: nat
  chars_read_current_line :: nat
  lines_read :: nat
  token_string :: string
  token_buffer :: string
  error_message :: string
  value_integer :: u64
  value_unsigned :: u64
  value_float :: double

definition new_lexer :: "string \<Rightarrow> bool \<Rightarrow> lexer" where
  "new_lexer adapter comments = \<lparr>ia = adapter, ignore_comments = comments, current = -1, next_unget = False,
     chars_read_total = 0, chars_read_current_line = 0, lines_read = 0, token_string = [], token_buffer = [],
     error_message = [], value_integer = 0, value_unsigned = 0, value_float = 0\<rparr>"

section \<open>Input management\<close>

definition get_character :: "lexer \<Rightarrow> lexer" where
  "get_character s = (case ia s of [] \<Rightarrow> s\<lparr>current := -1\<rparr> | c # cs \<Rightarrow> s\<lparr>current := of_char c, ia := cs\<rparr>)"

definition reset :: "lexer \<Rightarrow> lexer" where
  "reset s = s\<lparr>token_buffer := [], token_string := [char_of (current s)]\<rparr>"

definition get :: "lexer \<Rightarrow> lexer" where
  "get s =
    (let s = s\<lparr>chars_read_total := chars_read_total s + 1,
           chars_read_current_line := chars_read_current_line s + 1\<rparr>;
         s = (if next_unget s then s\<lparr>next_unget := False\<rparr> else get_character s);
         s = (if current s \<noteq> -1 then s\<lparr>token_string := token_string s @ [char_of (current s)]\<rparr> else s) in
     if current s = 0x0A then s\<lparr>lines_read := lines_read s + 1, chars_read_current_line := 0\<rparr> else s)"

definition unget :: "lexer \<Rightarrow> lexer" where
  "unget s =
    (let s = s\<lparr>next_unget := True, chars_read_total := chars_read_total s - 1\<rparr>;
         s = (if chars_read_current_line s = 0
              then (if 0 < lines_read s then s\<lparr>lines_read := lines_read s - 1\<rparr> else s)
              else s\<lparr>chars_read_current_line := chars_read_current_line s - 1\<rparr>) in
     if current s \<noteq> -1 then s\<lparr>token_string := butlast (token_string s)\<rparr> else s)"

definition add :: "int \<Rightarrow> lexer \<Rightarrow> lexer" where
  "add c s = s\<lparr>token_buffer := token_buffer s @ [char_of c]\<rparr>"

text \<open>Setting the error message and returning the error token, or \<open>false\<close>.\<close>

definition token_error :: "string \<Rightarrow> lexer \<Rightarrow> token_type \<times> lexer" where
  "token_error msg s = (Parse_Error, s\<lparr>error_message := msg\<rparr>)"

definition scan_error :: "string \<Rightarrow> lexer \<Rightarrow> bool \<times> lexer" where
  "scan_error msg s = (False, s\<lparr>error_message := msg\<rparr>)"

section \<open>Strings\<close>

fun codepoint_loop :: "nat list \<Rightarrow> int \<Rightarrow> lexer \<Rightarrow> int \<times> lexer" where
  "codepoint_loop [] codepoint s = (codepoint, s)"
| "codepoint_loop (factor # factors) codepoint s =
    (let s = get s; c = current s in
     if 0x30 \<le> c \<and> c \<le> 0x39 then codepoint_loop factors (codepoint + push_bit factor (c - 0x30)) s
     else if 0x41 \<le> c \<and> c \<le> 0x46 then codepoint_loop factors (codepoint + push_bit factor (c - 0x37)) s
     else if 0x61 \<le> c \<and> c \<le> 0x66 then codepoint_loop factors (codepoint + push_bit factor (c - 0x57)) s
     else (-1, s))"

definition get_codepoint :: "lexer \<Rightarrow> int \<times> lexer" where
  "get_codepoint s = codepoint_loop [12, 8, 4, 0] 0 s"

fun range_loop :: "(int \<times> int) list \<Rightarrow> lexer \<Rightarrow> bool \<times> lexer" where
  "range_loop [] s = (True, s)"
| "range_loop ((lo, hi) # ranges) s =
    (let s = get s in
     if lo \<le> current s \<and> current s \<le> hi then range_loop ranges (add (current s) s)
     else scan_error ''invalid string: ill-formed UTF-8 byte'' s)"

definition next_byte_in_range :: "(int \<times> int) list \<Rightarrow> lexer \<Rightarrow> bool \<times> lexer" where
  "next_byte_in_range ranges s = range_loop ranges (add (current s) s)"

definition add_codepoint :: "int \<Rightarrow> lexer \<Rightarrow> lexer" where
  "add_codepoint codepoint s =
    (if codepoint < 0x80 then add codepoint s
     else if codepoint \<le> 0x7FF then
       add (0x80 OR (codepoint AND 0x3F)) (add (0xC0 OR drop_bit 6 codepoint) s)
     else if codepoint \<le> 0xFFFF then
       add (0x80 OR (codepoint AND 0x3F)) (add (0x80 OR (drop_bit 6 codepoint AND 0x3F))
         (add (0xE0 OR drop_bit 12 codepoint) s))
     else
       add (0x80 OR (codepoint AND 0x3F)) (add (0x80 OR (drop_bit 6 codepoint AND 0x3F))
         (add (0x80 OR (drop_bit 12 codepoint AND 0x3F)) (add (0xF0 OR drop_bit 18 codepoint) s))))"

definition backslash_u :: string where
  "backslash_u = [CHR 0x5C, CHR ''u'']"

definition no_hex_digits :: string where
  "no_hex_digits = ''invalid string: '' @ in_quotes backslash_u @ '' must be followed by 4 hex digits''"

definition lone_high_surrogate :: string where
  "lone_high_surrogate = ''invalid string: surrogate U+D800..U+DBFF must be followed by U+DC00..U+DFFF''"

definition lone_low_surrogate :: string where
  "lone_low_surrogate = ''invalid string: surrogate U+DC00..U+DFFF must follow U+D800..U+DBFF''"

text \<open>What follows the first four digits; subtracting as \<open>unsigned int\<close> does not wrap around here.\<close>

definition scan_surrogate :: "int \<Rightarrow> lexer \<Rightarrow> bool \<times> lexer" where
  "scan_surrogate codepoint1 s =
    (if 0xD800 \<le> codepoint1 \<and> codepoint1 \<le> 0xDBFF then
       let s = get s in
       if current s \<noteq> 0x5C then scan_error lone_high_surrogate s
       else
         let s = get s in
         if current s \<noteq> 0x75 then scan_error lone_high_surrogate s
         else case get_codepoint s of (codepoint2, s) \<Rightarrow>
           if codepoint2 = -1 then scan_error no_hex_digits s
           else if 0xDC00 \<le> codepoint2 \<and> codepoint2 \<le> 0xDFFF then
             (True, add_codepoint (push_bit 10 codepoint1 + codepoint2 - 0x35FDC00) s)
           else scan_error lone_high_surrogate s
     else if 0xDC00 \<le> codepoint1 \<and> codepoint1 \<le> 0xDFFF then scan_error lone_low_surrogate s
     else (True, add_codepoint codepoint1 s))"

definition scan_unicode_escape :: "lexer \<Rightarrow> bool \<times> lexer" where
  "scan_unicode_escape s =
    (case get_codepoint s of (codepoint1, s) \<Rightarrow>
       if codepoint1 = -1 then scan_error no_hex_digits s else scan_surrogate codepoint1 s)"

definition scan_escape :: "lexer \<Rightarrow> bool \<times> lexer" where
  "scan_escape s =
    (let s = get s; c = current s in
     if c = 0x22 then (True, add 0x22 s)
     else if c = 0x5C then (True, add 0x5C s)
     else if c = 0x2F then (True, add 0x2F s)
     else if c = 0x62 then (True, add 0x08 s)
     else if c = 0x66 then (True, add 0x0C s)
     else if c = 0x6E then (True, add 0x0A s)
     else if c = 0x72 then (True, add 0x0D s)
     else if c = 0x74 then (True, add 0x09 s)
     else if c = 0x75 then scan_unicode_escape s
     else scan_error ''invalid string: forbidden character after backslash'' s)"

definition control_names :: "string list" where
  "control_names = [''NUL'', ''SOH'', ''STX'', ''ETX'', ''EOT'', ''ENQ'', ''ACK'', ''BEL'', ''BS'', ''HT'', ''LF'',
     ''VT'', ''FF'', ''CR'', ''SO'', ''SI'', ''DLE'', ''DC1'', ''DC2'', ''DC3'', ''DC4'', ''NAK'', ''SYN'', ''ETB'',
     ''CAN'', ''EM'', ''SUB'', ''ESC'', ''FS'', ''GS'', ''RS'', ''US'']"

definition hex_digits :: string where
  "hex_digits = ''0123456789ABCDEF''"

definition control_message :: "int \<Rightarrow> string" where
  "control_message c =
    (let hex = [CHR ''0'', CHR ''0'', hex_digits ! nat (c div 16), hex_digits ! nat (c mod 16)];
         alternative = (case map_of [(8, CHR ''b''), (9, CHR ''t''), (10, CHR ''n''), (12, CHR ''f''), (13, CHR ''r'')] c of
           None \<Rightarrow> [] | Some e \<Rightarrow> '' or '' @ [CHR 0x5C, e]) in
     ''invalid string: control character U+'' @ hex @ '' ('' @ control_names ! nat c @ '') must be escaped to '' @
     backslash_u @ hex @ alternative)"

text \<open>The ranges the bytes after a lead byte must be in.\<close>

definition continuation_ranges :: "int \<Rightarrow> (int \<times> int) list option" where
  "continuation_ranges c =
    (if 0xC2 \<le> c \<and> c \<le> 0xDF then Some [(0x80, 0xBF)]
     else if c = 0xE0 then Some [(0xA0, 0xBF), (0x80, 0xBF)]
     else if 0xE1 \<le> c \<and> c \<le> 0xEC \<or> c = 0xEE \<or> c = 0xEF then Some [(0x80, 0xBF), (0x80, 0xBF)]
     else if c = 0xED then Some [(0x80, 0x9F), (0x80, 0xBF)]
     else if c = 0xF0 then Some [(0x90, 0xBF), (0x80, 0xBF), (0x80, 0xBF)]
     else if 0xF1 \<le> c \<and> c \<le> 0xF3 then Some [(0x80, 0xBF), (0x80, 0xBF), (0x80, 0xBF)]
     else if c = 0xF4 then Some [(0x80, 0x8F), (0x80, 0xBF), (0x80, 0xBF)]
     else None)"

text \<open>What is still to be read.\<close>

definition unread :: "lexer \<Rightarrow> int list" where
  "unread s = (if next_unget s \<and> current s \<noteq> -1 then [current s] else []) @ map of_char (ia s)"

lemma of_char_int [simp]: "(0::int) \<le> of_char c" "of_char c < (256::int)" "of_char c \<noteq> (-1::int)" "(-1::int) \<noteq> of_char c"
proof -
  have "int (of_char c) = of_char c" by (rule of_nat_of_char)
  moreover have "of_char c < (256::nat)" by simp
  ultimately show "(0::int) \<le> of_char c" "of_char c < (256::int)" by linarith+
  then show "of_char c \<noteq> (-1::int)" "(-1::int) \<noteq> of_char c" by linarith+
qed

lemma add_simps [simp]:
  "unread (add c s) = unread s" "current (add c s) = current s" "next_unget (add c s) = next_unget s"
  "ia (add c s) = ia s" "token_buffer (add c s) = token_buffer s @ [char_of c]"
  "ignore_comments (add c s) = ignore_comments s" "chars_read_total (add c s) = chars_read_total s"
  by (simp_all add: add_def unread_def)

lemma current_get: "current (get s) = (if next_unget s then current s else case ia s of [] \<Rightarrow> -1 | c # cs \<Rightarrow> of_char c)"
  by (cases "next_unget s"; cases "ia s"; simp add: get_def get_character_def Let_def)+

lemma get_simps [simp]:
  "ia (get s) = (if next_unget s then ia s else tl (ia s))" "next_unget (get s) = False"
  "token_buffer (get s) = token_buffer s" "ignore_comments (get s) = ignore_comments s"
  "chars_read_total (get s) = Suc (chars_read_total s)"
  by (cases "next_unget s"; cases "ia s"; simp add: get_def get_character_def Let_def)+

lemma unget_simps [simp]:
  "current (unget s) = current s" "ia (unget s) = ia s" "next_unget (unget s)" "token_buffer (unget s) = token_buffer s"
  "ignore_comments (unget s) = ignore_comments s" "chars_read_total (unget s) = chars_read_total s - 1"
  by (simp_all add: unget_def Let_def)

abbreviation left :: "lexer \<Rightarrow> nat" where
  "left s \<equiv> length (unread s)"

named_theorems left "the input does not grow"

lemma left_get_less: "current (get s) \<noteq> -1 \<Longrightarrow> left (get s) < left s"
  by (auto simp: unread_def current_get split: list.splits if_splits)

lemma left_get [left]: "left s \<le> n \<Longrightarrow> left (get s) \<le> n"
  by (auto simp: unread_def)

lemma left_add [left]: "left s \<le> n \<Longrightarrow> left (add c s) \<le> n"
  by simp

lemma left_unget_get [left]: "left s \<le> n \<Longrightarrow> left (unget (get s)) \<le> n"
  by (auto simp: unread_def unget_def Let_def current_get split: list.splits if_splits)

lemma unread_updates [simp]:
  "unread (s\<lparr>error_message := m\<rparr>) = unread s" "unread (reset s) = unread s"
  "unread (s\<lparr>value_float := d\<rparr>) = unread s" "unread (s\<lparr>value_integer := x\<rparr>) = unread s"
  "unread (s\<lparr>value_unsigned := x\<rparr>) = unread s" "unread (add_codepoint c s) = unread s"
  "unread (snd (scan_error m s)) = unread s" "unread (snd (token_error m s)) = unread s"
  by (simp_all add: unread_def reset_def add_codepoint_def add_def scan_error_def token_error_def)

lemma left_codepoint_loop [left]: "left s \<le> n \<Longrightarrow> left (snd (codepoint_loop fs c s)) \<le> n"
proof (induction fs c s rule: codepoint_loop.induct)
  case (2 f fs c s)
  note IH = 2(1-3) [OF refl refl]
  show ?case using 2(4) IH by (auto simp: Let_def intro: left)
qed simp

lemma left_get_codepoint [left]: "left s \<le> n \<Longrightarrow> left (snd (get_codepoint s)) \<le> n"
  unfolding get_codepoint_def by (rule left_codepoint_loop)

lemma left_range_loop [left]: "left s \<le> n \<Longrightarrow> left (snd (range_loop rs s)) \<le> n"
  by (induction rs s rule: range_loop.induct) (auto simp: Let_def intro: left)

lemma left_next_byte [left]: "left s \<le> n \<Longrightarrow> left (snd (next_byte_in_range rs s)) \<le> n"
  unfolding next_byte_in_range_def by (intro left) simp

lemma left_scan_surrogate [left]: "left s \<le> n \<Longrightarrow> left (snd (scan_surrogate c s)) \<le> n"
  by (auto simp: scan_surrogate_def Let_def case_prod_beta intro: left)

lemma left_scan_unicode_escape [left]: "left s \<le> n \<Longrightarrow> left (snd (scan_unicode_escape s)) \<le> n"
  by (auto simp: scan_unicode_escape_def case_prod_beta intro: left)

lemma left_scan_escape [left]: "left s \<le> n \<Longrightarrow> left (snd (scan_escape s)) \<le> n"
  by (auto simp: scan_escape_def Let_def intro: left)

text \<open>A loop that goes on after reading a character has less to read.\<close>

lemma left_less:
  assumes "current (get s) \<noteq> -1" and "\<And>n. left (get s) \<le> n \<Longrightarrow> left x \<le> n"
  shows "left x < left s"
  using left_get_less [OF assms(1)] assms(2) [of "left (get s)"] by simp

lemma left_less_snd:
  assumes "current (get s) \<noteq> -1" and "(b, x) = f (get s)" and "\<And>n. left (get s) \<le> n \<Longrightarrow> left (snd (f (get s))) \<le> n"
  shows "left x < left s"
  using left_less [OF assms(1), of "snd (f (get s))"] assms(2,3) by (metis snd_conv)

function scan_chars :: "lexer \<Rightarrow> token_type \<times> lexer" where
  "scan_chars s =
    (let s = get s; c = current s in
     if c = -1 then token_error ''invalid string: missing closing quote'' s
     else if c = 0x22 then (Value_String, s)
     else if c = 0x5C then
       (case scan_escape s of (ok, s) \<Rightarrow> if ok then scan_chars s else (Parse_Error, s))
     else if c \<le> 0x1F then token_error (control_message c) s
     else if c \<le> 0x7F then scan_chars (add c s)
     else case continuation_ranges c of
       None \<Rightarrow> token_error ''invalid string: ill-formed UTF-8 byte'' s
     | Some ranges \<Rightarrow>
         (case next_byte_in_range ranges s of (ok, s) \<Rightarrow> if ok then scan_chars s else (Parse_Error, s)))"
  by pat_completeness auto
termination
proof (relation "measure left", goal_cases)
  case (2 s x y z ok)
  then show ?case by (auto intro!: left_less_snd [where f = scan_escape] left)
next
  case (3 s x y)
  then show ?case by (auto intro: left_get_less)
next
  case (4 s x y rs z ok)
  then show ?case by (auto intro!: left_less_snd [where f = "next_byte_in_range rs"] left)
qed simp

declare scan_chars.simps [simp del]

definition scan_string :: "lexer \<Rightarrow> token_type \<times> lexer" where
  "scan_string s = scan_chars (reset s)"

section \<open>Comments\<close>

text \<open>Both loops; \<open>case\<close> labels that continue are the last branch.\<close>

function line_comment :: "lexer \<Rightarrow> lexer" where
  "line_comment s =
    (let s = get s; c = current s in if c = 0x0A \<or> c = 0x0D \<or> c = -1 \<or> c = 0 then s else line_comment s)"
  by pat_completeness auto
termination
  by (relation "measure left") (auto intro: left_get_less)

declare line_comment.simps [simp del]

function block_comment :: "lexer \<Rightarrow> bool \<times> lexer" where
  "block_comment s =
    (let s = get s; c = current s in
     if c = -1 \<or> c = 0 then scan_error (''invalid comment; missing closing '' @ in_quotes ''*/'') s
     else if c = 0x2A then
       (let s' = get s in if current s' = 0x2F then (True, s') else block_comment (unget s'))
     else block_comment s)"
  by pat_completeness auto
termination
proof (relation "measure left", goal_cases)
  case (2 s x y z)
  then show ?case by (auto intro!: left_less left)
qed (auto intro: left_get_less)

declare block_comment.simps [simp del]

definition scan_comment :: "lexer \<Rightarrow> bool \<times> lexer" where
  "scan_comment s =
    (let s = get s in
     if current s = 0x2F then (True, line_comment s)
     else if current s = 0x2A then block_comment s
     else scan_error (''invalid comment; expecting '' @ in_quotes ''/'' @ '' or '' @ in_quotes ''*'' @ '' after '' @
       in_quotes ''/'') s)"

section \<open>Numbers\<close>

definition digit :: "int \<Rightarrow> bool" where
  "digit c \<longleftrightarrow> 0x30 \<le> c \<and> c \<le> 0x39"

lemma not_digit [simp]: "\<not> digit 101" "\<not> digit 69" "\<not> digit 46" "\<not> digit 45" "\<not> digit (-1)" "digit 48"
  by (simp_all add: digit_def)

text \<open>
  \<open>strtoull\<close> and \<open>strtoll\<close> on a token of digits, the latter after an optional minus sign;
  \<open>None\<close>: \<open>errno\<close> is set, since the number is out of range.
\<close>

fun decimal :: "nat \<Rightarrow> string \<Rightarrow> nat" where
  "decimal n [] = n"
| "decimal n (c # cs) = decimal (10 * n + (of_char c - 0x30)) cs"

definition strtoull :: "string \<Rightarrow> u64 option" where
  "strtoull txt = (let n = decimal 0 txt in if n < 2 ^ 64 then Some (of_nat n) else None)"

definition strtoll :: "string \<Rightarrow> u64 option" where
  "strtoll txt =
    (case txt of
       CHR ''-'' # ds \<Rightarrow> (let n = decimal 0 ds in if n \<le> 2 ^ 63 then Some (- of_nat n) else None)
     | _ \<Rightarrow> (let n = decimal 0 txt in if n < 2 ^ 63 then Some (of_nat n) else None))"

definition number_float :: "(string \<Rightarrow> double) \<Rightarrow> lexer \<Rightarrow> token_type \<times> lexer" where
  "number_float strtod s = (Value_Float, s\<lparr>value_float := strtod (token_buffer s)\<rparr>)"

definition scan_number_done :: "(string \<Rightarrow> double) \<Rightarrow> token_type \<Rightarrow> lexer \<Rightarrow> token_type \<times> lexer" where
  "scan_number_done strtod number_type s =
    (let s = unget s in
     if number_type = Value_Unsigned then
       (case strtoull (token_buffer s) of
          Some x \<Rightarrow> (Value_Unsigned, s\<lparr>value_unsigned := x\<rparr>)
        | None \<Rightarrow> number_float strtod s)
     else if number_type = Value_Integer then
       (case strtoll (token_buffer s) of
          Some x \<Rightarrow> (Value_Integer, s\<lparr>value_integer := x\<rparr>)
        | None \<Rightarrow> number_float strtod s)
     else number_float strtod s)"

text \<open>The states of the automaton, each before the ones that jump to it.\<close>

function scan_number_any2 :: "(string \<Rightarrow> double) \<Rightarrow> lexer \<Rightarrow> token_type \<times> lexer" where
  "scan_number_any2 strtod s =
    (let s = get s; c = current s in
     if digit c then scan_number_any2 strtod (add c s) else scan_number_done strtod Value_Float s)"
  by pat_completeness auto
termination
  by (relation "measure (left \<circ> snd)") (auto simp: digit_def intro: left_get_less)

definition scan_number_sign :: "(string \<Rightarrow> double) \<Rightarrow> lexer \<Rightarrow> token_type \<times> lexer" where
  "scan_number_sign strtod s =
    (let s = get s; c = current s in
     if digit c then scan_number_any2 strtod (add c s)
     else token_error ''invalid number; expected digit after exponent sign'' s)"

definition scan_number_exponent :: "(string \<Rightarrow> double) \<Rightarrow> lexer \<Rightarrow> token_type \<times> lexer" where
  "scan_number_exponent strtod s =
    (let s = get s; c = current s in
     if c = 0x2B \<or> c = 0x2D then scan_number_sign strtod (add c s)
     else if digit c then scan_number_any2 strtod (add c s)
     else token_error (''invalid number; expected '' @ in_quotes ''+'' @ '', '' @ in_quotes ''-'' @
       '', or digit after exponent'') s)"

function scan_number_decimal2 :: "(string \<Rightarrow> double) \<Rightarrow> lexer \<Rightarrow> token_type \<times> lexer" where
  "scan_number_decimal2 strtod s =
    (let s = get s; c = current s in
     if digit c then scan_number_decimal2 strtod (add c s)
     else if c = 0x65 \<or> c = 0x45 then scan_number_exponent strtod (add c s)
     else scan_number_done strtod Value_Float s)"
  by pat_completeness auto
termination
  by (relation "measure (left \<circ> snd)") (auto simp: digit_def intro: left_get_less)

definition scan_number_decimal1 :: "(string \<Rightarrow> double) \<Rightarrow> lexer \<Rightarrow> token_type \<times> lexer" where
  "scan_number_decimal1 strtod s =
    (let s = get s; c = current s in
     if digit c then scan_number_decimal2 strtod (add c s)
     else token_error (''invalid number; expected digit after '' @ in_quotes ''.'') s)"

function scan_number_any1 :: "(string \<Rightarrow> double) \<Rightarrow> token_type \<Rightarrow> lexer \<Rightarrow> token_type \<times> lexer" where
  "scan_number_any1 strtod number_type s =
    (let s = get s; c = current s in
     if digit c then scan_number_any1 strtod number_type (add c s)
     else if c = 0x2E then scan_number_decimal1 strtod (add 0x2E s)
     else if c = 0x65 \<or> c = 0x45 then scan_number_exponent strtod (add c s)
     else scan_number_done strtod number_type s)"
  by pat_completeness auto
termination
  by (relation "measure (\<lambda>(_, _, s). left s)") (auto simp: digit_def intro: left_get_less)

definition scan_number_zero :: "(string \<Rightarrow> double) \<Rightarrow> token_type \<Rightarrow> lexer \<Rightarrow> token_type \<times> lexer" where
  "scan_number_zero strtod number_type s =
    (let s = get s; c = current s in
     if c = 0x2E then scan_number_decimal1 strtod (add 0x2E s)
     else if c = 0x65 \<or> c = 0x45 then scan_number_exponent strtod (add c s)
     else scan_number_done strtod number_type s)"

definition scan_number_minus :: "(string \<Rightarrow> double) \<Rightarrow> lexer \<Rightarrow> token_type \<times> lexer" where
  "scan_number_minus strtod s =
    (let s = get s; c = current s in
     if c = 0x30 then scan_number_zero strtod Value_Integer (add c s)
     else if digit c then scan_number_any1 strtod Value_Integer (add c s)
     else token_error (''invalid number; expected digit after '' @ in_quotes ''-'') s)"

text \<open>Called on a minus sign or a digit only.\<close>

definition scan_number :: "(string \<Rightarrow> double) \<Rightarrow> lexer \<Rightarrow> token_type \<times> lexer" where
  "scan_number strtod s =
    (let s = reset s; c = current s in
     if c = 0x2D then scan_number_minus strtod (add c s)
     else if c = 0x30 then scan_number_zero strtod Value_Unsigned (add c s)
     else scan_number_any1 strtod Value_Unsigned (add c s))"

declare scan_number_any2.simps [simp del] scan_number_decimal2.simps [simp del]
  scan_number_any1.simps [simp del]

section \<open>Literals, white space and tokens\<close>

text \<open>The characters of the literal after the first one; the end of the input reads as 0xFF.\<close>

fun scan_literal :: "string \<Rightarrow> token_type \<Rightarrow> lexer \<Rightarrow> token_type \<times> lexer" where
  "scan_literal [] return_type s = (return_type, s)"
| "scan_literal (c # cs) return_type s =
    (let s = get s in
     if char_of (current s) \<noteq> c then token_error ''invalid literal'' s else scan_literal cs return_type s)"

definition skip_bom :: "lexer \<Rightarrow> bool \<times> lexer" where
  "skip_bom s =
    (let s = get s in
     if current s = 0xEF then
       let s = get s in
       if current s = 0xBB then let s = get s in (current s = 0xBF, s) else (False, s)
     else (True, unget s))"

function skip_whitespace :: "lexer \<Rightarrow> lexer" where
  "skip_whitespace s =
    (let s = get s in
     if current s \<in> {0x20, 0x09, 0x0A, 0x0D} then skip_whitespace s else s)"
  by pat_completeness auto
termination
  by (relation "measure left") (auto intro: left_get_less)

declare skip_whitespace.simps [simp del]

lemma left_skip_whitespace [left]: "left s \<le> n \<Longrightarrow> left (skip_whitespace s) \<le> n"
proof (induction s rule: skip_whitespace.induct)
  case (1 s)
  note IH = 1(1) [OF refl]
  show ?case using 1(2) IH by (subst skip_whitespace.simps) (auto simp: Let_def intro: left)
qed

lemma left_line_comment [left]: "left s \<le> n \<Longrightarrow> left (line_comment s) \<le> n"
proof (induction s rule: line_comment.induct)
  case (1 s)
  note IH = 1(1) [OF refl refl]
  show ?case using 1(2) IH by (subst line_comment.simps) (auto simp: Let_def intro: left)
qed

lemma left_block_comment [left]: "left s \<le> n \<Longrightarrow> left (snd (block_comment s)) \<le> n"
proof (induction s rule: block_comment.induct)
  case (1 s)
  note IH = 1(1) [OF refl refl _ _ refl] 1(2) [OF refl refl]
  show ?case using 1(3) IH by (subst block_comment.simps) (auto simp: Let_def intro: left)
qed

lemma left_scan_comment [left]: "left s \<le> n \<Longrightarrow> left (snd (scan_comment s)) \<le> n"
  by (auto simp: scan_comment_def Let_def intro: left)

lemma left_whitespace_less: "current (skip_whitespace s) \<noteq> -1 \<Longrightarrow> left (skip_whitespace s) < left s"
proof (subst skip_whitespace.simps, goal_cases)
  case 1
  show ?case
  proof (cases "current (get s) \<in> {0x20, 0x09, 0x0A, 0x0D}")
    case True
    then show ?thesis by (auto simp: Let_def intro!: left_less left)
  next
    case False
    then show ?thesis using 1 by (auto simp: Let_def skip_whitespace.simps [of s] intro: left_get_less)
  qed
qed

text \<open>The loop over comments, each followed by white space.\<close>

function skip_comments :: "lexer \<Rightarrow> bool \<times> lexer" where
  "skip_comments s =
    (if ignore_comments s \<and> current s = 0x2F then
       (case scan_comment s of (ok, s) \<Rightarrow>
          if ok then skip_comments (skip_whitespace s) else (False, s))
     else (True, s))"
  by pat_completeness auto
termination
proof (relation "measure (\<lambda>s. left s + (if current s = -1 then 0 else 1))", goal_cases)
  case (2 s ok s')
  then have "left s' \<le> left s" using left_scan_comment [of s "left s"] by (metis snd_conv order_refl)
  then show ?case
    using 2 left_whitespace_less [of s'] left_skip_whitespace [of s' "left s'"] by auto
qed simp

declare skip_comments.simps [simp del]

definition scan_token :: "(string \<Rightarrow> double) \<Rightarrow> lexer \<Rightarrow> token_type \<times> lexer" where
  "scan_token strtod s =
    (let c = current s in
     if c = 0x5B then (Begin_Array, s)
     else if c = 0x5D then (End_Array, s)
     else if c = 0x7B then (Begin_Object, s)
     else if c = 0x7D then (End_Object, s)
     else if c = 0x3A then (Name_Separator, s)
     else if c = 0x2C then (Value_Separator, s)
     else if c = 0x74 then scan_literal ''rue'' Literal_True s
     else if c = 0x66 then scan_literal ''alse'' Literal_False s
     else if c = 0x6E then scan_literal ''ull'' Literal_Null s
     else if c = 0x22 then scan_string s
     else if c = 0x2D \<or> digit c then scan_number strtod s
     else if c = 0 \<or> c = -1 then (End_Of_Input, s)
     else token_error ''invalid literal'' s)"

definition scan :: "(string \<Rightarrow> double) \<Rightarrow> lexer \<Rightarrow> token_type \<times> lexer" where
  "scan strtod s =
    (case (if chars_read_total s = 0 then skip_bom s else (True, s)) of (bom_ok, s) \<Rightarrow>
       if \<not> bom_ok then token_error ''invalid BOM; must be 0xEF 0xBB 0xBF if given'' s
       else case skip_comments (skip_whitespace s) of (ok, s) \<Rightarrow>
         if \<not> ok then (Parse_Error, s) else scan_token strtod s)"

text \<open>Control characters of the last token are shown by their code.\<close>

definition get_token_string :: "lexer \<Rightarrow> string" where
  "get_token_string s =
    concat (map (\<lambda>c. if of_char c \<le> (0x1F :: nat)
       then ''<U+00'' @ [hex_digits ! (of_char c div 16), hex_digits ! (of_char c mod 16)] @ ''>'' else [c])
     (token_string s))"

text \<open>A token other than an error or the end takes input.\<close>

lemma left_scan_chars [left]: "left s \<le> n \<Longrightarrow> left (snd (scan_chars s)) \<le> n"
proof (induction s rule: scan_chars.induct)
  case (1 s)
  have g: "left (get s) \<le> n" "left (snd (scan_escape (get s))) \<le> n"
    "left (snd (next_byte_in_range rs (get s))) \<le> n" for rs
    using 1(4) by (auto intro: left)
  note IH = 1(1) [OF refl refl _ _ _ prod.collapse] 1(2) [OF refl refl] 1(3) [OF refl refl _ _ _ _ _ _ prod.collapse]
  show ?case
    using g IH by (subst scan_chars.simps) (simp add: Let_def case_prod_beta split: option.split)
qed

lemma left_done [left]: "left s \<le> n \<Longrightarrow> left (snd (scan_number_done strtod ty (get s))) \<le> n"
  by (auto simp: scan_number_done_def Let_def number_float_def split: option.split intro: left)

lemma left_any2 [left]: "left s \<le> n \<Longrightarrow> left (snd (scan_number_any2 strtod s)) \<le> n"
proof (induction strtod s rule: scan_number_any2.induct)
  case (1 strtod s)
  note IH = 1(1) [OF refl refl]
  show ?case using 1(2) IH by (subst scan_number_any2.simps) (auto simp: Let_def intro: left)
qed

lemma left_exponent [left]: "left s \<le> n \<Longrightarrow> left (snd (scan_number_exponent strtod s)) \<le> n"
  by (auto simp: scan_number_exponent_def scan_number_sign_def Let_def intro!: left)

lemma left_decimal2 [left]: "left s \<le> n \<Longrightarrow> left (snd (scan_number_decimal2 strtod s)) \<le> n"
proof (induction strtod s rule: scan_number_decimal2.induct)
  case (1 strtod s)
  note IH = 1(1) [OF refl refl]
  show ?case using 1(2) IH by (subst scan_number_decimal2.simps) (auto simp: Let_def intro: left)
qed

lemma left_decimal1 [left]: "left s \<le> n \<Longrightarrow> left (snd (scan_number_decimal1 strtod s)) \<le> n"
  by (auto simp: scan_number_decimal1_def Let_def intro!: left)

lemma left_any1 [left]: "left s \<le> n \<Longrightarrow> left (snd (scan_number_any1 strtod ty s)) \<le> n"
proof (induction strtod ty s rule: scan_number_any1.induct)
  case (1 strtod ty s)
  note IH = 1(1) [OF refl refl]
  show ?case using 1(2) IH by (subst scan_number_any1.simps) (auto simp: Let_def intro: left)
qed

lemma left_scan_number [left]: "left s \<le> n \<Longrightarrow> left (snd (scan_number strtod s)) \<le> n"
  by (auto simp: scan_number_def scan_number_minus_def scan_number_zero_def Let_def intro!: left)

lemma left_scan_literal [left]: "left s \<le> n \<Longrightarrow> left (snd (scan_literal cs ty s)) \<le> n"
  by (induction cs ty s rule: scan_literal.induct) (auto simp: Let_def intro: left)

lemma left_scan_token [left]: "left s \<le> n \<Longrightarrow> left (snd (scan_token strtod s)) \<le> n"
  by (auto simp: scan_token_def scan_string_def Let_def simp del: scan_literal.simps intro: left)

lemma left_skip_comments [left]: "left s \<le> n \<Longrightarrow> left (snd (skip_comments s)) \<le> n"
proof (induction s rule: skip_comments.induct)
  case (1 s)
  note IH = 1(1) [OF _ prod.collapse]
  show ?case using 1(2) IH by (subst skip_comments.simps) (auto simp: case_prod_beta intro: left)
qed

lemma skip_comments_less:
  "current s = -1 \<or> left s < n \<Longrightarrow> current (snd (skip_comments s)) = -1 \<or> left (snd (skip_comments s)) < n
     \<or> \<not> fst (skip_comments s)"
proof (induction s rule: skip_comments.induct)
  case (1 s)
  note IH = 1(1) [OF _ prod.collapse]
  let ?s = "snd (scan_comment s)"
  have "current (skip_whitespace ?s) = -1 \<or> left (skip_whitespace ?s) < n" if "left s < n"
    using that left_skip_whitespace [OF left_scan_comment [OF order.refl], of s] by linarith
  then show ?case using 1(2) IH by (subst (1 2 3) skip_comments.simps) (auto simp: case_prod_beta)
qed

lemma left_skip_bom [left]: "left s \<le> n \<Longrightarrow> left (snd (skip_bom s)) \<le> n"
  by (auto simp: skip_bom_def Let_def intro: left)

lemma left_scan [left]: "left s \<le> n \<Longrightarrow> left (snd (scan strtod s)) \<le> n"
  by (auto simp: scan_def case_prod_beta intro: left)

lemma scan_takes_input:
  assumes "fst (scan strtod s) \<noteq> Parse_Error" and "fst (scan strtod s) \<noteq> End_Of_Input"
  shows "left (snd (scan strtod s)) < left s"
proof -
  define b where "b = (if chars_read_total s = 0 then skip_bom s else (True, s))"
  define c where "c = skip_comments (skip_whitespace (snd b))"
  have b: "left (snd b) \<le> left s" by (auto simp: b_def intro: left)
  have sc: "scan strtod s = scan_token strtod (snd c)" and ok: "fst c"
    using assms unfolding b_def [symmetric] c_def scan_def
    by (auto simp: case_prod_beta token_error_def b_def [symmetric] split: if_splits)
  have "current (snd c) \<noteq> -1" using assms(2) by (auto simp: sc scan_token_def Let_def)
  moreover have "current (skip_whitespace (snd b)) = -1 \<or> left (skip_whitespace (snd b)) < left s"
    using b left_whitespace_less [of "snd b"] by linarith
  ultimately have "left (snd c) < left s" using skip_comments_less [of "skip_whitespace (snd b)" "left s"] ok
    unfolding c_def by blast
  then show ?thesis unfolding sc using left_scan_token [of "snd c" "left (snd c)"] by (meson le_less_trans order.refl)
qed

end
