(* ===== verification/Json_Serializer.thy ===== *)
theory Json_Serializer
  imports Float_Text
begin

text \<open>
  \<^verbatim>\<open>src/include/nlohmann/detail/output/serializer.hpp\<close>: printing a JSON value.
  The text written so far is passed along; an exception for ill-formed UTF-8 is \<open>TypeError\<close>. The
  buffers of fixed size are modelled with their bounds: a write beyond one is \<open>OutOfBounds\<close>.
\<close>

section \<open>The UTF-8 decoder\<close>

definition utf8d :: "nat list" where
  "utf8d = replicate 0x80 0
     @ replicate 16 1 @ replicate 16 9 @ replicate 32 7 @ [8, 8] @ replicate 30 2
     @ [0xA] @ replicate 12 3 @ [4] @ replicate 2 3
     @ [0xB] @ replicate 3 6 @ [5] @ replicate 11 8
     @ [0, 1, 2, 3, 5, 8, 7, 1, 1, 1, 4, 6, 1, 1, 1, 1]
     @ [1, 1, 1, 1, 1, 1, 1, 1, 1, 1, 1, 1, 1, 1, 1, 1, 1, 0, 1, 1, 1, 1, 1, 0, 1, 0, 1, 1, 1, 1, 1, 1]
     @ [1, 2, 1, 1, 1, 1, 1, 2, 1, 2, 1, 1, 1, 1, 1, 1, 1, 1, 1, 1, 1, 1, 1, 2, 1, 1, 1, 1, 1, 1, 1, 1]
     @ [1, 2, 1, 1, 1, 1, 1, 1, 1, 2, 1, 1, 1, 1, 1, 1, 1, 1, 1, 1, 1, 1, 1, 3, 1, 3, 1, 1, 1, 1, 1, 1]
     @ [1, 3, 1, 1, 1, 1, 1, 3, 1, 3, 1, 1, 1, 1, 1, 1, 1, 3, 1, 1, 1, 1, 1, 1, 1, 1, 1, 1, 1, 1, 1, 1]"

text \<open>The new state and code point.\<close>

definition decode :: "nat \<Rightarrow> u32 \<Rightarrow> nat \<Rightarrow> nat \<times> u32" where
  "decode state codep byte =
    (let ty = utf8d ! byte;
         codep = (if state \<noteq> 0 then (of_nat byte AND 0x3F) OR push_bit 6 codep
                  else drop_bit ty 0xFF AND of_nat byte) in
     (utf8d ! (256 + state * 16 + ty), codep))"

section \<open>Strings\<close>

datatype error_handler = Strict | Replace | Ignore

record escaping =
  codepoint :: u32
  utf8_state :: nat
  string_buffer :: string
  after_accept :: nat
  undumped_chars :: nat
  written :: string

definition new_escaping :: escaping where
  "new_escaping = \<lparr>codepoint = 0, utf8_state = 0, string_buffer = [], after_accept = 0, undumped_chars = 0,
     written = []\<rparr>"

text \<open>\<open>terminator\<close>: the bytes \<open>snprintf\<close> needs behind the text.\<close>

definition buffer_put :: "string \<Rightarrow> nat \<Rightarrow> escaping \<Rightarrow> escaping result" where
  "buffer_put txt terminator e =
     rbind (check (length (string_buffer e) + length txt + terminator \<le> 512) OutOfBounds) (\<lambda>_.
       Inr (e\<lparr>string_buffer := string_buffer e @ txt\<rparr>))"

definition flush_full :: "escaping \<Rightarrow> escaping" where
  "flush_full e =
    (if 512 - length (string_buffer e) < 13
     then e\<lparr>written := written e @ string_buffer e, string_buffer := []\<rparr> else e)"

definition hex_char :: "nat \<Rightarrow> char" where
  "hex_char n = (''0123456789abcdef'' ! n)"

definition hex4 :: "nat \<Rightarrow> string" where
  "hex4 n = [hex_char (n div 4096 mod 16), hex_char (n div 256 mod 16), hex_char (n div 16 mod 16), hex_char (n mod 16)]"

definition u_escape :: "u32 \<Rightarrow> string" where
  "u_escape n = CHR 0x5C # CHR ''u'' # hex4 (unat (ucast n :: 16 word))"

definition accept_codepoint :: "bool \<Rightarrow> char \<Rightarrow> escaping \<Rightarrow> escaping result" where
  "accept_codepoint ensure_ascii c e =
    (let cp = codepoint e in
     if cp = 0x08 then buffer_put [CHR 0x5C, CHR ''b''] 0 e
     else if cp = 0x09 then buffer_put [CHR 0x5C, CHR ''t''] 0 e
     else if cp = 0x0A then buffer_put [CHR 0x5C, CHR ''n''] 0 e
     else if cp = 0x0C then buffer_put [CHR 0x5C, CHR ''f''] 0 e
     else if cp = 0x0D then buffer_put [CHR 0x5C, CHR ''r''] 0 e
     else if cp = 0x22 then buffer_put [CHR 0x5C, CHR 0x22] 0 e
     else if cp = 0x5C then buffer_put [CHR 0x5C, CHR 0x5C] 0 e
     else if cp \<le> 0x1F \<or> ensure_ascii \<and> 0x7F \<le> cp then
       (if cp \<le> 0xFFFF then buffer_put (u_escape cp) 1 e
        else buffer_put (u_escape (0xD7C0 + drop_bit 10 cp) @ u_escape (0xDC00 + (cp AND 0x3FF))) 1 e)
     else buffer_put [c] 0 e)"

definition accept_byte :: "bool \<Rightarrow> char \<Rightarrow> escaping \<Rightarrow> escaping result" where
  "accept_byte ensure_ascii c e =
     rbind (accept_codepoint ensure_ascii c e) (\<lambda>e.
     let e = flush_full e in
     Inr (e\<lparr>after_accept := length (string_buffer e), undumped_chars := 0\<rparr>))"

definition replacement :: "bool \<Rightarrow> string" where
  "replacement ensure_ascii =
    (if ensure_ascii then CHR 0x5C # ''ufffd'' else [CHR 0xEF, CHR 0xBF, CHR 0xBD])"

text \<open>With the strict handler an exception is thrown instead.\<close>

definition reject_byte :: "error_handler \<Rightarrow> bool \<Rightarrow> escaping \<Rightarrow> escaping result" where
  "reject_byte h ensure_ascii e =
    (if h = Strict then Inl TypeError
     else
       let e = e\<lparr>string_buffer := take (after_accept e) (string_buffer e)\<rparr> in
       rbind (if h = Replace
              then rbind (buffer_put (replacement ensure_ascii) 0 e) (\<lambda>e.
                let e = flush_full e in Inr (e\<lparr>after_accept := length (string_buffer e)\<rparr>))
              else Inr e) (\<lambda>e.
         Inr (e\<lparr>undumped_chars := 0, utf8_state := 0\<rparr>)))"

definition incomplete_byte :: "bool \<Rightarrow> char \<Rightarrow> escaping \<Rightarrow> escaping result" where
  "incomplete_byte ensure_ascii c e =
     rbind (if ensure_ascii then Inr e else buffer_put [c] 0 e) (\<lambda>e.
       Inr (e\<lparr>undumped_chars := undumped_chars e + 1\<rparr>))"

text \<open>A byte that does not continue the bytes before it is read again.\<close>

function dump_escaped_loop :: "error_handler \<Rightarrow> bool \<Rightarrow> string \<Rightarrow> escaping \<Rightarrow> escaping result" where
  "dump_escaped_loop h ensure_ascii [] e = Inr e"
| "dump_escaped_loop h ensure_ascii (c # cs) e =
    (case decode (utf8_state e) (codepoint e) (of_char c) of (st, cp) \<Rightarrow>
     let e = e\<lparr>utf8_state := st, codepoint := cp\<rparr> in
     if st = 0 then rbind (accept_byte ensure_ascii c e) (dump_escaped_loop h ensure_ascii cs)
     else if st = 1 then
       rbind (reject_byte h ensure_ascii e)
         (dump_escaped_loop h ensure_ascii (if 0 < undumped_chars e then c # cs else cs))
     else rbind (incomplete_byte ensure_ascii c e) (dump_escaped_loop h ensure_ascii cs))"
  by pat_completeness auto
termination
proof (relation "measure (\<lambda>(_, _, cs, e). 2 * length cs + (if 0 < undumped_chars e then 1 else 0))", goal_cases)
  case (3 h ensure_ascii c cs e x st cp)
  then show ?case
    by (auto simp: reject_byte_def rbind_Inr_iff Let_def buffer_put_def flush_full_def split: if_splits)
qed auto

definition dump_escaped :: "error_handler \<Rightarrow> string \<Rightarrow> bool \<Rightarrow> string result" where
  "dump_escaped h s ensure_ascii =
     rbind (dump_escaped_loop h ensure_ascii s new_escaping) (\<lambda>e.
     if utf8_state e = 0 then Inr (written e @ string_buffer e)
     else case h of
       Strict \<Rightarrow> Inl TypeError
     | Ignore \<Rightarrow> Inr (written e @ take (after_accept e) (string_buffer e))
     | Replace \<Rightarrow> Inr (written e @ take (after_accept e) (string_buffer e) @ replacement ensure_ascii))"

section \<open>Numbers\<close>

function count_digits_loop :: "nat \<Rightarrow> u64 \<Rightarrow> nat" where
  "count_digits_loop n_digits x =
    (if x < 10 then n_digits
     else if x < 100 then n_digits + 1
     else if x < 1000 then n_digits + 2
     else if x < 10000 then n_digits + 3
     else count_digits_loop (n_digits + 4) (x div 10000))"
  by pat_completeness auto
termination
proof (relation "measure (\<lambda>(_, x). unat x)", goal_cases)
  case (2 n x)
  then have "x \<noteq> 0" by auto
  then have "0 < unat x" by (simp add: unat_gt_0)
  then show ?case by (simp add: unat_div)
qed simp

declare count_digits_loop.simps [simp del]

definition count_digits :: "u64 \<Rightarrow> nat" where
  "count_digits x = count_digits_loop 1 x"

definition digits_to_99 :: "(char \<times> char) list" where
  "digits_to_99 = map (\<lambda>i. (digit_char (i div 10), digit_char (i mod 10))) [0..<100]"

text \<open>Writing a character in front of the position in the buffer of 64 characters.\<close>

definition put_back :: "char \<Rightarrow> string \<times> nat \<Rightarrow> (string \<times> nat) result" where
  "put_back c = (\<lambda>(buf, ptr).
     rbind (check (0 < ptr \<and> ptr \<le> length buf) OutOfBounds) (\<lambda>_. Inr (buf[ptr - 1 := c], ptr - 1)))"

definition put_pair :: "nat \<Rightarrow> string \<times> nat \<Rightarrow> (string \<times> nat) result" where
  "put_pair i b = rbind (put_back (snd (digits_to_99 ! i)) b) (put_back (fst (digits_to_99 ! i)))"

function write_digits :: "u64 \<Rightarrow> string \<times> nat \<Rightarrow> (string \<times> nat) result" where
  "write_digits abs_value b =
    (if 100 \<le> abs_value then
       rbind (put_pair (unat (abs_value mod 100)) b) (write_digits (abs_value div 100))
     else if 10 \<le> abs_value then put_pair (unat abs_value) b
     else put_back (digit_char (unat abs_value)) b)"
  by pat_completeness auto
termination
proof (relation "measure (\<lambda>(x, _). unat x)", goal_cases)
  case (2 x b b')
  then have "x \<noteq> 0" by auto
  then have "0 < unat x" by (simp add: unat_gt_0)
  then show ?case by (simp add: unat_div)
qed simp

declare write_digits.simps [simp del]

text \<open>The absolute value of a negative number.\<close>

definition remove_sign :: "u64 \<Rightarrow> u64" where
  "remove_sign x = - (x + 1) + 1"

definition dump_integer :: "bool \<Rightarrow> u64 \<Rightarrow> string result" where
  "dump_integer is_signed x =
    (if x = 0 then Inr ''0''
     else
       let negative = (is_signed \<and> sint x < 0);
           abs_value = (if negative then remove_sign x else x);
           n_chars = (if negative then 1 + count_digits abs_value else count_digits abs_value);
           number_buffer = (if negative then CHR ''-'' # replicate 63 CHR 0x00 else replicate 64 CHR 0x00) in
       rbind (json_assert (n_chars < 63)) (\<lambda>_.
       rbind (write_digits abs_value (number_buffer, n_chars)) (\<lambda>(buf, _). Inr (take n_chars buf))))"

definition dump_float :: "double \<Rightarrow> string result" where
  "dump_float x = (if \<not> isfinite x then Inr ''null'' else to_chars 64 x)"

section \<open>Values\<close>

text \<open>
  \<open>indent_string\<close> is the only state the printing of a value passes to the next one. Writing the
  indentation reads its characters and the terminator.
\<close>

definition write_indent :: "u32 \<Rightarrow> string \<Rightarrow> string result" where
  "write_indent n indent_string =
     rbind (check (unat n \<le> length indent_string + 1) OutOfBounds) (\<lambda>_. Inr (take (unat n) (indent_string @ [CHR 0x00])))"

definition grow_indent :: "u32 \<Rightarrow> string \<Rightarrow> string" where
  "grow_indent new_indent indent_string =
    (if length indent_string < unat new_indent
     then indent_string @ replicate (length indent_string) CHR '' '' else indent_string)"

record dump_options =
  pretty_print :: bool
  ensure_ascii :: bool
  indent_step :: u32
  on_error :: error_handler

type_synonym printed = "(string \<times> string) result"

text \<open>Appending text, and text that may fail; \<open>(txt, ind)\<close> is the text so far and the indentation.\<close>

definition then_text :: "printed \<Rightarrow> string result \<Rightarrow> printed" where
  "then_text m t = rbind m (\<lambda>(txt, ind). rbind t (\<lambda>u. Inr (txt @ u, ind)))"

definition then_indent :: "printed \<Rightarrow> u32 \<Rightarrow> printed" where
  "then_indent m n = rbind m (\<lambda>(txt, ind). rbind (write_indent n ind) (\<lambda>u. Inr (txt @ u, ind)))"

definition dump_key :: "dump_options \<Rightarrow> string \<Rightarrow> string result" where
  "dump_key opt k =
     rbind (dump_escaped (on_error opt) k (ensure_ascii opt)) (\<lambda>t.
       Inr (CHR 0x22 # t @ (if pretty_print opt then [CHR 0x22, CHR '':'', CHR '' ''] else [CHR 0x22, CHR '':''])))"

fun dump_bytes :: "string \<Rightarrow> u8 list \<Rightarrow> string result" where
  "dump_bytes sep [] = Inr []"
| "dump_bytes sep [b] = dump_integer False (ucast b)"
| "dump_bytes sep (b # bs) =
     rbind (dump_integer False (ucast b)) (\<lambda>t. rbind (dump_bytes sep bs) (\<lambda>u. Inr (t @ sep @ u)))"

definition dump_subtype :: "u64 option \<Rightarrow> string result" where
  "dump_subtype st = (case st of None \<Rightarrow> Inr ''null'' | Some n \<Rightarrow> dump_integer False n)"

definition quote_text :: "string \<Rightarrow> string" where
  "quote_text s = CHR 0x22 # s @ [CHR 0x22]"

definition dump_binary :: "dump_options \<Rightarrow> u32 \<Rightarrow> u8 list \<Rightarrow> u64 option \<Rightarrow> string \<Rightarrow> printed" where
  "dump_binary opt current_indent bs st ind =
    (if pretty_print opt then
       let new_indent = current_indent + indent_step opt; m = Inr (''{'' @ [CHR 0x0A], grow_indent new_indent ind);
           m = then_text (then_indent m new_indent) (Inr (quote_text ''bytes'' @ '': [''));
           m = then_text (then_text m (dump_bytes '', '' bs)) (Inr (''],'' @ [CHR 0x0A]));
           m = then_text (then_indent m new_indent) (Inr (quote_text ''subtype'' @ '': ''));
           m = then_text (then_text m (dump_subtype st)) (Inr [CHR 0x0A]) in
       then_text (then_indent m current_indent) (Inr ''}'')
     else
       let m = then_text (Inr (''{'' @ quote_text ''bytes'' @ '':['', ind)) (dump_bytes '','' bs);
           m = then_text m (Inr (''],'' @ quote_text ''subtype'' @ '':'')) in
       then_text (then_text m (dump_subtype st)) (Inr ''}''))"

text \<open>What comes before each element and between two of them.\<close>

definition before_element :: "dump_options \<Rightarrow> u32 \<Rightarrow> printed \<Rightarrow> printed" where
  "before_element opt new_indent m = (if pretty_print opt then then_indent m new_indent else m)"

definition after_element :: "dump_options \<Rightarrow> bool \<Rightarrow> printed \<Rightarrow> printed" where
  "after_element opt last_one m =
    (if last_one then m else then_text m (Inr (if pretty_print opt then [CHR '','', CHR 0x0A] else '','')))"

definition open_container :: "dump_options \<Rightarrow> string \<Rightarrow> u32 \<Rightarrow> string \<Rightarrow> printed" where
  "open_container opt bracket new_indent ind =
     Inr (if pretty_print opt then (bracket @ [CHR 0x0A], grow_indent new_indent ind) else (bracket, ind))"

definition close_container :: "dump_options \<Rightarrow> string \<Rightarrow> u32 \<Rightarrow> printed \<Rightarrow> printed" where
  "close_container opt bracket current_indent m =
     then_text (if pretty_print opt then then_indent (then_text m (Inr [CHR 0x0A])) current_indent else m) (Inr bracket)"

fun dump_value :: "dump_options \<Rightarrow> u32 \<Rightarrow> json \<Rightarrow> string \<Rightarrow> printed"
and dump_elements :: "dump_options \<Rightarrow> u32 \<Rightarrow> json list \<Rightarrow> printed \<Rightarrow> printed"
and dump_members :: "dump_options \<Rightarrow> u32 \<Rightarrow> (string \<times> json) list \<Rightarrow> printed \<Rightarrow> printed"
where
  "dump_value opt current_indent (J_Object ms) ind =
    (if ms = [] then Inr (''{}'', ind)
     else
       let new_indent = (if pretty_print opt then current_indent + indent_step opt else current_indent) in
       close_container opt ''}'' current_indent
         (dump_members opt new_indent ms (open_container opt ''{'' new_indent ind)))"
| "dump_value opt current_indent (J_Array xs) ind =
    (if xs = [] then Inr (''[]'', ind)
     else
       let new_indent = (if pretty_print opt then current_indent + indent_step opt else current_indent) in
       close_container opt '']'' current_indent
         (dump_elements opt new_indent xs (open_container opt ''['' new_indent ind)))"
| "dump_value opt current_indent (J_String s) ind =
     rbind (dump_escaped (on_error opt) s (ensure_ascii opt)) (\<lambda>t. Inr (CHR 0x22 # t @ [CHR 0x22], ind))"
| "dump_value opt current_indent (J_Binary bs st) ind = dump_binary opt current_indent bs st ind"
| "dump_value opt current_indent (J_Bool b) ind = Inr (if b then ''true'' else ''false'', ind)"
| "dump_value opt current_indent (J_Integer n) ind = then_text (Inr ([], ind)) (dump_integer True n)"
| "dump_value opt current_indent (J_Unsigned n) ind = then_text (Inr ([], ind)) (dump_integer False n)"
| "dump_value opt current_indent (J_Float d) ind = then_text (Inr ([], ind)) (dump_float d)"
| "dump_value opt current_indent J_Discarded ind = Inr (''<discarded>'', ind)"
| "dump_value opt current_indent J_Null ind = Inr (''null'', ind)"
| "dump_elements opt new_indent [] m = m"
| "dump_elements opt new_indent (x # xs) m =
     dump_elements opt new_indent xs (after_element opt (xs = [])
       (rbind (before_element opt new_indent m) (\<lambda>(txt, ind).
          rbind (dump_value opt new_indent x ind) (\<lambda>(t, ind). Inr (txt @ t, ind)))))"
| "dump_members opt new_indent [] m = m"
| "dump_members opt new_indent ((k, x) # ms) m =
     dump_members opt new_indent ms (after_element opt (ms = [])
       (rbind (then_text (before_element opt new_indent m) (dump_key opt k)) (\<lambda>(txt, ind).
          rbind (dump_value opt new_indent x ind) (\<lambda>(t, ind). Inr (txt @ t, ind)))))"

text \<open>\<open>json::dump\<close>: a negative \<open>indent\<close> asks for the compact form.\<close>

definition basic_json_dump :: "int \<Rightarrow> char \<Rightarrow> bool \<Rightarrow> error_handler \<Rightarrow> json \<Rightarrow> string result" where
  "basic_json_dump indent indent_char ascii h j =
    (let opt = \<lparr>pretty_print = 0 \<le> indent, ensure_ascii = ascii,
           indent_step = (if 0 \<le> indent then word_of_int indent else 0), on_error = h\<rparr> in
     rbind (dump_value opt 0 j (replicate 512 indent_char)) (\<lambda>(txt, _). Inr txt))"

end
