(* ===== verification/Utf8.thy ===== *)
theory Utf8
  imports Json_Lexer Json_Serializer
begin

text \<open>
  UTF-8 as its standard defines it, and what the two pieces of the library that handle it do on the
  encoding of a code point: the lexer's code-point writer and byte ranges, and the serializer's
  decoder table.
\<close>

section \<open>The encoding\<close>

definition scalar :: "nat \<Rightarrow> bool" where
  "scalar n \<longleftrightarrow> n < 0xD800 \<or> 0xE000 \<le> n \<and> n \<le> 0x10FFFF"

definition utf8_bytes :: "nat \<Rightarrow> nat list" where
  "utf8_bytes n =
    (if n \<le> 0x7F then [n]
     else if n \<le> 0x7FF then [0xC0 + n div 64, 0x80 + n mod 64]
     else if n \<le> 0xFFFF then [0xE0 + n div 4096, 0x80 + n div 64 mod 64, 0x80 + n mod 64]
     else [0xF0 + n div 262144, 0x80 + n div 4096 mod 64, 0x80 + n div 64 mod 64, 0x80 + n mod 64])"

definition utf8 :: "nat \<Rightarrow> string" where
  "utf8 n = map char_of (utf8_bytes n)"

lemma utf8_bytes_less: "n \<le> 0x10FFFF \<Longrightarrow> \<forall>b \<in> set (utf8_bytes n). b < 256"
  by (auto simp: utf8_bytes_def)

text \<open>On disjoint bits \<open>OR\<close> is addition.\<close>

lemma or_add:
  assumes "x < 2 ^ k"
  shows "push_bit k y OR x = 2 ^ k * y + (x :: nat)"
proof -
  have "take_bit k x = x" using assms by (simp add: take_bit_nat_eq_self)
  moreover have "push_bit k y AND take_bit k x = 0" by (rule bit_eqI) (auto simp: bit_simps)
  ultimately have "push_bit k y AND x = 0" by simp
  then have "push_bit k y OR x = push_bit k y + x" by (simp add: disjunctive_add_eq_or)
  then show ?thesis by (simp add: push_bit_eq_mult ac_simps)
qed

lemma or_lead:
  "x < 64 \<Longrightarrow> 0x80 OR x = 0x80 + (x :: nat)" "x < 64 \<Longrightarrow> 0xC0 OR x = 0xC0 + (x :: nat)"
  "x < 16 \<Longrightarrow> 0xE0 OR x = 0xE0 + (x :: nat)" "x < 16 \<Longrightarrow> 0xF0 OR x = 0xF0 + (x :: nat)"
  using or_add [of x 6 2] or_add [of x 6 3] or_add [of x 4 14] or_add [of x 4 15] by (simp_all add: push_bit_eq_mult)

lemma and_63: "n AND 0x3F = (n mod 64 :: nat)"
  using take_bit_eq_mask [of 6 n] by (simp add: mask_eq_exp_minus_1 take_bit_eq_mod)

text \<open>The lexer writes the encoding of a code point.\<close>

lemma add_codepoint_utf8:
  assumes "n \<le> 0x10FFFF"
  shows "add_codepoint (int n) s = s\<lparr>token_buffer := token_buffer s @ utf8 n\<rparr>"
proof -
  have c: "char_of (0x80 OR (int m AND 0x3F)) = (char_of (0x80 + m mod 64) :: char)" for m
  proof -
    have "0x80 OR (int m AND 0x3F) = int (0x80 OR (m AND 0x3F))" by (simp add: of_nat_or_eq of_nat_and_eq)
    then show ?thesis by (simp only: and_63 or_lead mod_less_divisor zero_less_numeral char_of_nat)
  qed
  have d: "drop_bit k (int n) = int (n div 2 ^ k)" for k by (simp add: drop_bit_eq_div zdiv_int)
  have l: "x < 64 \<Longrightarrow> char_of (0xC0 OR int x) = (char_of (0xC0 + x) :: char)"
    "x < 16 \<Longrightarrow> char_of (0xE0 OR int x) = (char_of (0xE0 + x) :: char)"
    "x < 16 \<Longrightarrow> char_of (0xF0 OR int x) = (char_of (0xF0 + x) :: char)" for x
  proof -
    have "0xC0 OR int x = int (0xC0 OR x)" "0xE0 OR int x = int (0xE0 OR x)" "0xF0 OR int x = int (0xF0 OR x)"
      by (simp_all add: of_nat_or_eq)
    then show "x < 64 \<Longrightarrow> char_of (0xC0 OR int x) = (char_of (0xC0 + x) :: char)"
      "x < 16 \<Longrightarrow> char_of (0xE0 OR int x) = (char_of (0xE0 + x) :: char)"
      "x < 16 \<Longrightarrow> char_of (0xF0 OR int x) = (char_of (0xF0 + x) :: char)"
      by (simp_all only: or_lead char_of_nat)
  qed
  consider "n \<le> 0x7F" | "0x7F < n" "n \<le> 0x7FF" | "0x7FF < n" "n \<le> 0xFFFF" | "0xFFFF < n" by linarith
  then show ?thesis
  proof cases
    case 1
    then show ?thesis by (simp add: add_codepoint_def utf8_def utf8_bytes_def add_def)
  next
    case 2
    then have "n div 64 < 64" by simp
    with 2 show ?thesis by (simp add: add_codepoint_def utf8_def utf8_bytes_def add_def c d l del: of_nat_div)
  next
    case 3
    then have "n div 4096 < 16" by simp
    with 3 show ?thesis by (simp add: add_codepoint_def utf8_def utf8_bytes_def add_def c d l del: of_nat_div)
  next
    case 4
    moreover have "n div 262144 < 16" using assms by simp
    ultimately show ?thesis by (simp add: add_codepoint_def utf8_def utf8_bytes_def add_def c d l del: of_nat_div)
  qed
qed

text \<open>The bytes of an encoding are in the ranges the lexer asks for.\<close>

definition in_ranges :: "nat list \<Rightarrow> (int \<times> int) list \<Rightarrow> bool" where
  "in_ranges bs rs \<longleftrightarrow> list_all2 (\<lambda>b r. fst r \<le> int b \<and> int b \<le> snd r) bs rs"

lemma div_cuts: "n div 64 div 64 = n div 4096" "n div 4096 div 64 = n div (262144 :: nat)"
  by (simp_all add: div_mult2_eq [symmetric])

lemma digits_64: "m = 64 * (m div 64) + m mod (64 :: nat)"
  by simp

lemma utf8_ranges:
  assumes "scalar n" and "0x7F < n"
  shows "\<exists>b bs rs. utf8_bytes n = b # bs \<and> 0x7F < b \<and> b < 256 \<and> continuation_ranges (int b) = Some rs \<and> in_ranges bs rs"
proof -
  have r: "64 * (n div 4096) \<le> n div 64" "64 * (n div 262144) \<le> n div 4096"
    "n div 64 mod 64 = n div 64 - 64 * (n div 4096)" "n div 4096 mod 64 = n div 4096 - 64 * (n div 262144)"
    using digits_64 [of "n div 64"] digits_64 [of "n div 4096"] unfolding div_cuts by linarith+
  have m: "x mod 64 \<le> 63" for x :: nat using mod_less_divisor [of 64 x] by linarith
  have "n < 0x800 \<or> 0x800 \<le> n \<and> n < 0x1000 \<or> 0x1000 \<le> n \<and> n < 0xD000 \<or> 0xD000 \<le> n \<and> n < 0xD800
    \<or> 0xE000 \<le> n \<and> n < 0x10000 \<or> 0x10000 \<le> n \<and> n < 0x40000 \<or> 0x40000 \<le> n \<and> n < 0x100000
    \<or> 0x100000 \<le> n \<and> n < 0x110000"
    using assms(1) unfolding scalar_def by linarith
  then consider "n < 0x800" | "0x800 \<le> n" "n < 0x1000" | "0x1000 \<le> n" "n < 0xD000" | "0xD000 \<le> n" "n < 0xD800"
    | "0xE000 \<le> n" "n < 0x10000" | "0x10000 \<le> n" "n < 0x40000" | "0x40000 \<le> n" "n < 0x100000"
    | "0x100000 \<le> n" "n < 0x110000"
    by blast
  then show ?thesis
  proof cases
    case 1
    then have "2 \<le> n div 64" "n div 64 < 32" using assms(2) by (simp_all add: less_eq_div_iff_mult_less_eq div_less_iff_less_mult)
    then show ?thesis using 1 assms(2) by (simp add: m utf8_bytes_def continuation_ranges_def in_ranges_def)
  next
    case 2
    then have "32 \<le> n div 64" "n div 64 < 64" "n div 4096 < 1" by (simp_all add: less_eq_div_iff_mult_less_eq div_less_iff_less_mult)
    then show ?thesis using 2 r(1,3) by (simp add: m utf8_bytes_def continuation_ranges_def in_ranges_def)
  next
    case 3
    then have "1 \<le> n div 4096" "n div 4096 < 13" by (simp_all add: less_eq_div_iff_mult_less_eq div_less_iff_less_mult)
    then show ?thesis using 3 by (simp add: m utf8_bytes_def continuation_ranges_def in_ranges_def)
  next
    case 4
    then have "13 \<le> n div 4096" "n div 4096 < 14" "n div 64 < 864" by (simp_all add: less_eq_div_iff_mult_less_eq div_less_iff_less_mult)
    then show ?thesis using 4 r(1,3) by (simp add: m utf8_bytes_def continuation_ranges_def in_ranges_def)
  next
    case 5
    then have "14 \<le> n div 4096" "n div 4096 < 16" by (simp_all add: less_eq_div_iff_mult_less_eq div_less_iff_less_mult)
    then have "n div 4096 = 14 \<or> n div 4096 = 15" by linarith
    then show ?thesis using 5 by (auto simp: m utf8_bytes_def continuation_ranges_def in_ranges_def)
  next
    case 6
    then have "16 \<le> n div 4096" "n div 4096 < 64" "n div 262144 < 1" by (simp_all add: less_eq_div_iff_mult_less_eq div_less_iff_less_mult)
    then show ?thesis using 6 r(2,4) by (simp add: m utf8_bytes_def continuation_ranges_def in_ranges_def)
  next
    case 7
    then have "1 \<le> n div 262144" "n div 262144 < 4" by (simp_all add: less_eq_div_iff_mult_less_eq div_less_iff_less_mult)
    then show ?thesis using 7 by (simp add: m utf8_bytes_def continuation_ranges_def in_ranges_def)
  next
    case 8
    then have "4 \<le> n div 262144" "n div 262144 < 5" "n div 4096 < 272" by (simp_all add: less_eq_div_iff_mult_less_eq div_less_iff_less_mult)
    then show ?thesis using 8 r(2,4) by (simp add: m utf8_bytes_def continuation_ranges_def in_ranges_def)
  qed
qed

section \<open>The decoder\<close>

definition byte_class :: "nat \<Rightarrow> nat" where
  "byte_class b = utf8d ! b"

definition next_state :: "nat \<Rightarrow> nat \<Rightarrow> nat" where
  "next_state st ty = utf8d ! (256 + st * 16 + ty)"

lemma byte_classes:
  "b \<le> 0x7F \<Longrightarrow> byte_class b = 0" "0x80 \<le> b \<Longrightarrow> b \<le> 0x8F \<Longrightarrow> byte_class b = 1"
  "0x90 \<le> b \<Longrightarrow> b \<le> 0x9F \<Longrightarrow> byte_class b = 9" "0xA0 \<le> b \<Longrightarrow> b \<le> 0xBF \<Longrightarrow> byte_class b = 7"
  "0xC2 \<le> b \<Longrightarrow> b \<le> 0xDF \<Longrightarrow> byte_class b = 2" "0xE1 \<le> b \<Longrightarrow> b \<le> 0xEC \<Longrightarrow> byte_class b = 3"
  "0xEE \<le> b \<Longrightarrow> b \<le> 0xEF \<Longrightarrow> byte_class b = 3" "0xF1 \<le> b \<Longrightarrow> b \<le> 0xF3 \<Longrightarrow> byte_class b = 6"
  by (simp_all add: byte_class_def utf8d_def nth_append less_diff_conv2)

lemma lead_classes: "byte_class 0xE0 = 10" "byte_class 0xED = 4" "byte_class 0xF0 = 11" "byte_class 0xF4 = 5"
  by (simp_all add: byte_class_def utf8d_def nth_append)

lemma next_states [simp]:
  "next_state 0 0 = 0" "next_state 0 2 = 2" "next_state 0 3 = 3" "next_state 0 4 = 5" "next_state 0 5 = 8"
  "next_state 0 6 = 7" "next_state 0 10 = 4" "next_state 0 11 = 6"
  "next_state 2 1 = 0" "next_state 2 7 = 0" "next_state 2 9 = 0"
  "next_state 3 1 = 2" "next_state 3 7 = 2" "next_state 3 9 = 2" "next_state 4 7 = 2" "next_state 5 1 = 2" "next_state 5 9 = 2"
  "next_state 6 7 = 3" "next_state 6 9 = 3" "next_state 7 1 = 3" "next_state 7 7 = 3" "next_state 7 9 = 3" "next_state 8 1 = 3"
  by (simp_all add: next_state_def utf8d_def nth_append)

lemma decode_first:
  "decode 0 cp b = (next_state 0 (byte_class b), of_nat (b mod 2 ^ (8 - byte_class b)))"
proof -
  have d: "drop_bit k (mask 8 :: u32) = mask (8 - k)" for k
    by (rule bit_word_eqI) (auto simp: bit_simps)
  have "drop_bit k (mask 8) AND of_nat b = (of_nat (b mod 2 ^ (8 - k)) :: u32)" for k
    unfolding d and.commute [of "mask _"] take_bit_eq_mask [symmetric] take_bit_of_nat
    by (simp add: take_bit_eq_mod [of "8 - k" b])
  moreover have "(0xFF :: u32) = mask 8" by (simp add: mask_eq_exp_minus_1)
  ultimately have "drop_bit k (0xFF :: u32) AND of_nat b = of_nat (b mod 2 ^ (8 - k))" for k by simp
  then show ?thesis by (simp add: decode_def Let_def next_state_def byte_class_def)
qed

lemma decode_next:
  assumes "st \<noteq> 0"
  shows "decode st (of_nat c) b = (next_state st (byte_class b), of_nat (64 * c + b mod 64))"
proof -
  have "(b AND 0x3F) OR push_bit 6 c = 64 * c + b mod 64"
    using or_add [of "b mod 64" 6 c] by (simp add: and_63 or.commute)
  then have "(of_nat b AND 0x3F) OR push_bit 6 (of_nat c) = (of_nat (64 * c + b mod 64) :: u32)"
    by (metis of_nat_and_eq of_nat_or_eq of_nat_numeral push_bit_of_nat)
  then show ?thesis using assms by (simp add: decode_def Let_def next_state_def byte_class_def)
qed

text \<open>Decoding all bytes of a code point, with states in between that ask for more.\<close>

fun decodes :: "nat \<Rightarrow> u32 \<Rightarrow> nat list \<Rightarrow> u32 \<Rightarrow> bool" where
  "decodes st cp [] cp' \<longleftrightarrow> False"
| "decodes st cp [b] cp' \<longleftrightarrow> decode st cp b = (0, cp')"
| "decodes st cp (b # bs) cp' \<longleftrightarrow>
    (case decode st cp b of (st1, cp1) \<Rightarrow> 1 < st1 \<and> decodes st1 cp1 bs cp')"

lemma continuation_class:
  assumes "0x80 \<le> b" and "b \<le> 0xBF"
  shows "byte_class b = 1 \<and> b \<le> 0x8F \<or> byte_class b = 9 \<and> 0x90 \<le> b \<and> b \<le> 0x9F \<or> byte_class b = 7 \<and> 0xA0 \<le> b"
  using assms byte_classes(2-4) [of b] by linarith

lemma mod_offset: "a < m \<Longrightarrow> (m * k + a) mod m = (a :: nat)"
  by simp

lemma continuation_bits: "b < 0x40 \<Longrightarrow> (0x80 + b) mod 64 = (b :: nat)"
  using mod_offset [of b 64 2] by simp

lemma decodes_last:
  assumes "b < 0x40"
  shows "decodes 2 (of_nat c) [0x80 + b] (of_nat (64 * c + b))"
  using continuation_class [of "0x80 + b"] assms
  by (auto simp: decode_next continuation_bits simp del: One_nat_def)

lemma decodes_two:
  assumes "b < 0x40" and "b' < 0x40"
  shows "decodes 3 (of_nat c) [0x80 + b, 0x80 + b'] (of_nat (64 * (64 * c + b) + b'))"
proof -
  have "decode 3 (of_nat c) (0x80 + b) = (2, of_nat (64 * c + b))"
    using continuation_class [of "0x80 + b"] assms(1)
    by (auto simp: decode_next continuation_bits simp del: One_nat_def)
  then show ?thesis using decodes_last [OF assms(2), of "64 * c + b"] by (simp del: of_nat_add of_nat_mult)
qed

text \<open>Reading the lead byte and, where the table restricts it, the second byte.\<close>

lemma decodes_lead:
  assumes "next_state 0 (byte_class l) = st" and "1 < st" and "decodes st (of_nat (l mod 2 ^ (8 - byte_class l))) (b # bs) cp'"
  shows "decodes 0 cp (l # b # bs) cp'"
  using assms by (simp add: decode_first)

lemma decodes_second:
  assumes "b < 0x40" and "st \<noteq> 0" and "next_state st (byte_class (0x80 + b)) = st'" and "1 < st'"
    and "decodes st' (of_nat (64 * c + b)) (b' # bs) cp'"
  shows "decodes st (of_nat c) ((0x80 + b) # b' # bs) cp'"
  using assms by (simp add: decode_next continuation_bits del: of_nat_add of_nat_mult)

lemma decodes_utf8_3:
  assumes "scalar n" and "0x7FF < n" and "n \<le> 0xFFFF"
  shows "decodes 0 cp (utf8_bytes n) (of_nat n)"
proof -
  define a b c where "a = n div 4096" and "b = n div 64 mod 64" and "c = n mod 64"
  have u: "utf8_bytes n = [0xE0 + a, 0x80 + b, 0x80 + c]" using assms(2,3) by (simp add: utf8_bytes_def a_def b_def c_def)
  have n: "64 * (64 * a + b) + c = n" using digits_64 [of n] digits_64 [of "n div 64"] by (simp add: a_def b_def c_def div_cuts)
  have l: "a < 16" "b < 0x40" "c < 0x40" using assms(3) by (auto simp: a_def b_def c_def div_less_iff_less_mult)
  have last: "decodes 2 (of_nat (64 * a + b)) [0x80 + c] (of_nat n)" using decodes_last [OF l(3), of "64 * a + b"] by (simp only: n)
  have "a = 0 \<or> a = 13 \<or> 1 \<le> a \<and> a \<le> 12 \<or> 14 \<le> a" by linarith
  then consider "a = 0" | "a = 13" | "1 \<le> a \<and> a \<le> 12 \<or> 14 \<le> a" by blast
  then show ?thesis
  proof cases
    case 1
    have "32 \<le> b" using assms(2) n l(3) 1 by auto
    then have "next_state 4 (byte_class (0x80 + b)) = 2" using l(2) by (simp add: byte_classes)
    then have "decodes 4 (of_nat a) [0x80 + b, 0x80 + c] (of_nat n)" by (intro decodes_second [OF l(2) _ _ _ last]) auto
    then show ?thesis unfolding u using 1 by (intro decodes_lead [where st = 4]) (simp_all add: lead_classes)
  next
    case 2
    have "b < 32" using assms(1,2) n l 2 by (auto simp: scalar_def)
    then have "byte_class (0x80 + b) = 1 \<or> byte_class (0x80 + b) = 9" using continuation_class [of "0x80 + b"] by auto
    then have "next_state 5 (byte_class (0x80 + b)) = 2" by (auto simp del: One_nat_def)
    then have "decodes 5 (of_nat a) [0x80 + b, 0x80 + c] (of_nat n)" by (intro decodes_second [OF l(2) _ _ _ last]) auto
    then show ?thesis unfolding u using 2 by (intro decodes_lead [where st = 5]) (simp_all add: lead_classes)
  next
    case 3
    then have "byte_class (0xE0 + a) = 3" using byte_classes(6,7) [of "0xE0 + a"] l(1) by auto
    moreover have "(0xE0 + a) mod 32 = a" using mod_offset [of a 32 7] l(1) by simp
    moreover have "decodes 3 (of_nat a) [0x80 + b, 0x80 + c] (of_nat n)" using decodes_two [OF l(2,3), of a] by (simp only: n)
    ultimately show ?thesis unfolding u by (intro decodes_lead [where st = 3]) simp_all
  qed
qed

lemma decodes_utf8_4:
  assumes "0xFFFF < n" and "n \<le> 0x10FFFF"
  shows "decodes 0 cp (utf8_bytes n) (of_nat n)"
proof -
  define a b c d where "a = n div 262144" and "b = n div 4096 mod 64" and "c = n div 64 mod 64" and "d = n mod 64"
  have u: "utf8_bytes n = [0xF0 + a, 0x80 + b, 0x80 + c, 0x80 + d]"
    using assms(1) by (simp add: utf8_bytes_def a_def b_def c_def d_def)
  have n: "64 * (64 * (64 * a + b) + c) + d = n"
    using digits_64 [of n] digits_64 [of "n div 64"] digits_64 [of "n div 4096"]
    by (simp add: a_def b_def c_def d_def div_cuts)
  have l: "a < 5" "b < 0x40" "c < 0x40" "d < 0x40"
    using assms(2) by (auto simp: a_def b_def c_def d_def div_less_iff_less_mult)
  have last: "decodes 3 (of_nat (64 * a + b)) [0x80 + c, 0x80 + d] (of_nat n)"
    using decodes_two [OF l(3,4), of "64 * a + b"] by (simp only: n)
  have "a = 0 \<or> a = 4 \<or> 1 \<le> a \<and> a \<le> 3" using l(1) by linarith
  then consider "a = 0" | "a = 4" | "1 \<le> a \<and> a \<le> 3" by blast
  then show ?thesis
  proof cases
    case 1
    have "16 \<le> b" using assms(1) n l(3,4) 1 by auto
    then have "byte_class (0x80 + b) = 9 \<or> byte_class (0x80 + b) = 7" using l(2) continuation_class [of "0x80 + b"] by auto
    then have "next_state 6 (byte_class (0x80 + b)) = 3" by auto
    then have "decodes 6 (of_nat a) [0x80 + b, 0x80 + c, 0x80 + d] (of_nat n)" by (intro decodes_second [OF l(2) _ _ _ last]) auto
    then show ?thesis unfolding u using 1 by (intro decodes_lead [where st = 6]) (simp_all add: lead_classes)
  next
    case 2
    have "b < 16" using assms(2) n 2 by auto
    then have "next_state 8 (byte_class (0x80 + b)) = 3" by (simp add: byte_classes del: One_nat_def)
    then have "decodes 8 (of_nat a) [0x80 + b, 0x80 + c, 0x80 + d] (of_nat n)" by (intro decodes_second [OF l(2) _ _ _ last]) auto
    then show ?thesis unfolding u using 2 by (intro decodes_lead [where st = 8]) (simp_all add: lead_classes)
  next
    case 3
    then have "byte_class (0xF0 + a) = 6" using byte_classes(8) [of "0xF0 + a"] by auto
    moreover have "(0xF0 + a) mod 4 = a" using mod_offset [of a 4 60] 3 by simp
    moreover have s7: "next_state 7 (byte_class (0x80 + b)) = 3"
      using continuation_class [of "0x80 + b"] l(2) by (auto simp del: One_nat_def)
    have "decodes 7 (of_nat a) [0x80 + b, 0x80 + c, 0x80 + d] (of_nat n)"
      by (intro decodes_second [OF l(2) _ s7 _ last]) auto
    ultimately show ?thesis unfolding u by (intro decodes_lead [where st = 7]) simp_all
  qed
qed

lemma decodes_utf8:
  assumes "scalar n"
  shows "decodes 0 cp (utf8_bytes n) (of_nat n)"
proof -
  consider "n \<le> 0x7F" | "0x7F < n" "n \<le> 0x7FF" | "0x7FF < n" "n \<le> 0xFFFF" | "0xFFFF < n" by linarith
  then show ?thesis
  proof cases
    case 1
    then show ?thesis by (simp add: utf8_bytes_def decode_first byte_classes)
  next
    case 2
    define a b where "a = n div 64" and "b = n mod 64"
    have "2 \<le> a" "a < 32" "b < 0x40"
      using 2 by (auto simp: a_def b_def less_eq_div_iff_mult_less_eq div_less_iff_less_mult)
    moreover from this have "byte_class (0xC0 + a) = 2" by (simp add: byte_classes)
    moreover have "(0xC0 + a) mod 64 = a" using mod_offset [of a 64 3] \<open>a < 32\<close> by simp
    moreover have "decodes 2 (of_nat a) [0x80 + b] (of_nat n)"
      using decodes_last [OF \<open>b < 0x40\<close>, of a] digits_64 [of n] by (simp only: a_def b_def)
    ultimately have "decodes 0 cp [0xC0 + a, 0x80 + b] (of_nat n)" by (intro decodes_lead [where st = 2]) simp_all
    then show ?thesis using 2 by (simp add: utf8_bytes_def a_def b_def)
  next
    case 3
    then show ?thesis using assms by (intro decodes_utf8_3)
  next
    case 4
    then show ?thesis using assms by (intro decodes_utf8_4) (auto simp: scalar_def)
  qed
qed

end
