(* ===== verification/Json_Parser.thy ===== *)
theory Json_Parser
  imports Json_Lexer
begin

text \<open>
  \<^verbatim>\<open>src/include/nlohmann/detail/input/parser.hpp\<close> and the tree builder of
  \<^verbatim>\<open>json_sax.hpp\<close>, as \<open>json::parse\<close> uses them: no callback, one complete value.
  Stacks have their top first; a pointer into the value that is being built is the path to it. An
  exception is its id, position and text.
\<close>

section \<open>Exceptions\<close>

record json_error =
  exc_id :: nat
  exc_byte :: nat
  exc_what :: string

definition exception_name :: "string \<Rightarrow> nat \<Rightarrow> string" where
  "exception_name ename i = ''[json.exception.'' @ ename @ ''.'' @ nat_text i @ ''] ''"

definition position_string :: "lexer \<Rightarrow> string" where
  "position_string l = '' at line '' @ nat_text (lines_read l + 1) @ '', column '' @ nat_text (chars_read_current_line l)"

definition parse_error_create :: "nat \<Rightarrow> lexer \<Rightarrow> string \<Rightarrow> json_error" where
  "parse_error_create i l what_arg = \<lparr>exc_id = i, exc_byte = chars_read_total l,
     exc_what = exception_name ''parse_error'' i @ ''parse error'' @ position_string l @ '': '' @ what_arg\<rparr>"

definition out_of_range_create :: "nat \<Rightarrow> string \<Rightarrow> json_error" where
  "out_of_range_create i what_arg = \<lparr>exc_id = i, exc_byte = 0, exc_what = exception_name ''out_of_range'' i @ what_arg\<rparr>"

section \<open>The tree builder\<close>

datatype member = Index nat | Key string

type_synonym path = "member list"

fun at_path :: "path \<Rightarrow> json \<Rightarrow> json option" where
  "at_path [] j = Some j"
| "at_path (Index i # p) (J_Array xs) = (if i < length xs then at_path p (xs ! i) else None)"
| "at_path (Key k # p) (J_Object ms) = (case map_of ms k of Some j \<Rightarrow> at_path p j | None \<Rightarrow> None)"
| "at_path _ _ = None"

text \<open>Changing the value of the entry with a key.\<close>

fun map_change :: "string \<Rightarrow> ('v \<Rightarrow> 'v) \<Rightarrow> (string \<times> 'v) list \<Rightarrow> (string \<times> 'v) list" where
  "map_change k f [] = []"
| "map_change k f (e # es) = (if fst e = k then (k, f (snd e)) # es else e # map_change k f es)"

fun change_at :: "path \<Rightarrow> (json \<Rightarrow> json) \<Rightarrow> json \<Rightarrow> json" where
  "change_at [] f j = f j"
| "change_at (Index i # p) f (J_Array xs) = J_Array (xs[i := change_at p f (xs ! i)])"
| "change_at (Key k # p) f (J_Object ms) = J_Object (map_change k (change_at p f) ms)"
| "change_at _ f j = j"

record dom_parser =
  root :: json
  ref_stack :: "path list"
  object_element :: "path option"
  errored :: bool
  allow_exceptions :: bool

definition new_dom_parser :: "bool \<Rightarrow> dom_parser" where
  "new_dom_parser allow = \<lparr>root = J_Null, ref_stack = [], object_element = None, errored = False,
     allow_exceptions = allow\<rparr>"

definition write_at :: "path \<Rightarrow> json \<Rightarrow> dom_parser \<Rightarrow> path \<times> dom_parser" where
  "write_at p v d = (p, d\<lparr>root := change_at p (\<lambda>_. v) (root d)\<rparr>)"

text \<open>
  The pointer to the new element, and the builder. Inside an object \<open>key\<close> has set the
  pointer to the element, which the assertion of the code says.
\<close>

definition handle_value :: "json \<Rightarrow> dom_parser \<Rightarrow> path \<times> dom_parser" where
  "handle_value v d =
    (case ref_stack d of
       [] \<Rightarrow> ([], d\<lparr>root := v\<rparr>)
     | p # _ \<Rightarrow>
         (case at_path p (root d) of
            Some (J_Array xs) \<Rightarrow> (p @ [Index (length xs)], snd (write_at p (J_Array (xs @ [v])) d))
          | _ \<Rightarrow> write_at (the (object_element d)) v d))"

definition start_container :: "json \<Rightarrow> dom_parser \<Rightarrow> dom_parser" where
  "start_container v d = (case handle_value v d of (p, d) \<Rightarrow> d\<lparr>ref_stack := p # ref_stack d\<rparr>)"

definition start_object :: "dom_parser \<Rightarrow> dom_parser" where
  "start_object d = start_container (J_Object []) d"

definition start_array :: "dom_parser \<Rightarrow> dom_parser" where
  "start_array d = start_container (J_Array []) d"

definition end_container :: "dom_parser \<Rightarrow> dom_parser" where
  "end_container d = d\<lparr>ref_stack := tl (ref_stack d)\<rparr>"

text \<open>\<open>operator[]\<close> adds null for a key that is not there.\<close>

definition key :: "string \<Rightarrow> dom_parser \<Rightarrow> dom_parser" where
  "key k d =
    (let p = hd (ref_stack d);
         add_null = (\<lambda>j. case j of J_Object ms \<Rightarrow> J_Object (map_emplace (k, J_Null) ms) | _ \<Rightarrow> j) in
     d\<lparr>root := change_at p add_null (root d), object_element := Some (p @ [Key k])\<rparr>)"

section \<open>The parser\<close>

record parser =
  m_lexer :: lexer
  last_token :: token_type

type_synonym sax_result = "json_error + bool \<times> parser \<times> dom_parser"

definition get_token :: "(string \<Rightarrow> double) \<Rightarrow> parser \<Rightarrow> parser" where
  "get_token strtod p = (case scan strtod (m_lexer p) of (t, l) \<Rightarrow> p\<lparr>m_lexer := l, last_token := t\<rparr>)"

definition exception_message :: "parser \<Rightarrow> token_type \<Rightarrow> string \<Rightarrow> string" where
  "exception_message p expected ctx =
     ''syntax error '' @
     (if ctx \<noteq> [] then ''while parsing '' @ ctx @ '' '' else []) @ ''- '' @
     (if last_token p = Parse_Error
      then error_message (m_lexer p) @ ''; last read: '' @ in_quotes (get_token_string (m_lexer p))
      else ''unexpected '' @ token_type_name (last_token p)) @
     (if expected \<noteq> Uninitialized then ''; expected '' @ token_type_name expected else [])"

text \<open>\<open>parse_error\<close> of the tree builder throws, or remembers the error.\<close>

definition sax_error :: "json_error \<Rightarrow> parser \<Rightarrow> dom_parser \<Rightarrow> sax_result" where
  "sax_error ex p d = (let d = d\<lparr>errored := True\<rparr> in if allow_exceptions d then Inl ex else Inr (False, p, d))"

definition syntax_error :: "token_type \<Rightarrow> string \<Rightarrow> parser \<Rightarrow> dom_parser \<Rightarrow> sax_result" where
  "syntax_error expected ctx p d =
     sax_error (parse_error_create 101 (m_lexer p) (exception_message p expected ctx)) p d"

text \<open>
  The loop, cut into its parts. A part returns, or goes on with the open containers (\<open>True\<close>: an
  array), the parser and the builder.
\<close>

datatype 'a flow = Return sax_result | Go_On 'a

type_synonym loop_state = "bool list \<times> parser \<times> dom_parser"

text \<open>A key, its colon and the first token of the value.\<close>

definition parse_member :: "(string \<Rightarrow> double) \<Rightarrow> loop_state \<Rightarrow> loop_state flow" where
  "parse_member strtod = (\<lambda>(states, p, d).
     if last_token p \<noteq> Value_String then Return (syntax_error Value_String ''object key'' p d)
     else
       let d = key (token_buffer (m_lexer p)) d; p = get_token strtod p in
       if last_token p \<noteq> Name_Separator then Return (syntax_error Name_Separator ''object separator'' p d)
       else Go_On (states, get_token strtod p, d))"

definition parse_begin_object :: "(string \<Rightarrow> double) \<Rightarrow> loop_state \<Rightarrow> (loop_state + parser \<times> dom_parser) flow" where
  "parse_begin_object strtod = (\<lambda>(states, p, d).
     let d = start_object d; p = get_token strtod p in
     if last_token p = End_Object then Go_On (Inr (p, end_container d))
     else case parse_member strtod (False # states, p, d) of
       Return r \<Rightarrow> Return r | Go_On s \<Rightarrow> Go_On (Inl s))"

definition parse_begin_array :: "(string \<Rightarrow> double) \<Rightarrow> loop_state \<Rightarrow> (loop_state + parser \<times> dom_parser) flow" where
  "parse_begin_array strtod = (\<lambda>(states, p, d).
     let d = start_array d; p = get_token strtod p in
     if last_token p = End_Array then Go_On (Inr (p, end_container d)) else Go_On (Inl (True # states, p, d)))"

text \<open>The value of a token that is one.\<close>

definition token_value :: "parser \<Rightarrow> json option" where
  "token_value p =
    (case last_token p of
       Value_Float \<Rightarrow> Some (J_Float (value_float (m_lexer p)))
     | Literal_False \<Rightarrow> Some (J_Bool False)
     | Literal_Null \<Rightarrow> Some J_Null
     | Literal_True \<Rightarrow> Some (J_Bool True)
     | Value_Integer \<Rightarrow> Some (J_Integer (value_integer (m_lexer p)))
     | Value_String \<Rightarrow> Some (J_String (token_buffer (m_lexer p)))
     | Value_Unsigned \<Rightarrow> Some (J_Unsigned (value_unsigned (m_lexer p)))
     | _ \<Rightarrow> None)"

definition parse_value :: "(string \<Rightarrow> double) \<Rightarrow> loop_state \<Rightarrow> (loop_state + parser \<times> dom_parser) flow" where
  "parse_value strtod = (\<lambda>(states, p, d).
     if last_token p = Begin_Object then parse_begin_object strtod (states, p, d)
     else if last_token p = Begin_Array then parse_begin_array strtod (states, p, d)
     else if last_token p = Value_Float \<and> \<not> isfinite (value_float (m_lexer p)) then
       Return (sax_error (out_of_range_create 406
         (''number overflow parsing '' @ in_quotes (get_token_string (m_lexer p)))) p d)
     else case token_value p of
       Some v \<Rightarrow> Go_On (Inr (p, snd (handle_value v d)))
     | None \<Rightarrow> Return (syntax_error (if last_token p = Parse_Error then Uninitialized else Literal_Or_Value) ''value'' p d))"

text \<open>After a value: the flag says that the next round starts here again.\<close>

definition parse_rest :: "(string \<Rightarrow> double) \<Rightarrow> loop_state \<Rightarrow> (bool \<times> loop_state) flow" where
  "parse_rest strtod = (\<lambda>(states, p, d).
     case states of
       [] \<Rightarrow> Return (Inr (True, p, d))
     | is_array # outer \<Rightarrow>
         let p = get_token strtod p in
         if last_token p = Value_Separator then
           let p = get_token strtod p in
           if is_array then Go_On (False, states, p, d)
           else (case parse_member strtod (states, p, d) of Return r \<Rightarrow> Return r | Go_On s \<Rightarrow> Go_On (False, s))
         else if last_token p = (if is_array then End_Array else End_Object) then
           Go_On (True, outer, p, end_container d)
         else if is_array then Return (syntax_error End_Array ''array'' p d)
         else Return (syntax_error End_Object ''object'' p d))"

definition parse_step :: "(string \<Rightarrow> double) \<Rightarrow> bool \<times> loop_state \<Rightarrow> (bool \<times> loop_state) flow" where
  "parse_step strtod = (\<lambda>(skip, states, p, d).
     case (if skip then Go_On (Inr (p, d)) else parse_value strtod (states, p, d)) of
       Return r \<Rightarrow> Return r
     | Go_On (Inl s) \<Rightarrow> Go_On (False, s)
     | Go_On (Inr (p, d)) \<Rightarrow> parse_rest strtod (states, p, d))"

text \<open>Every round takes input, or reaches an error or the end.\<close>

definition rank :: "parser \<Rightarrow> nat" where
  "rank p = 2 * left (m_lexer p) + (if last_token p = Parse_Error \<or> last_token p = End_Of_Input then 0 else 1)"

lemma rank_get_token: "rank (get_token strtod p) \<le> 2 * left (m_lexer p)"
  using left_scan [of "m_lexer p" "left (m_lexer p)" strtod] scan_takes_input [of strtod "m_lexer p"]
  by (cases "scan strtod (m_lexer p)") (auto simp: get_token_def rank_def)

lemma rank_token:
  "last_token (get_token strtod p) = t \<Longrightarrow> t \<noteq> Parse_Error \<Longrightarrow> t \<noteq> End_Of_Input \<Longrightarrow>
   Suc (2 * left (m_lexer (get_token strtod p))) < 2 * left (m_lexer p)"
  using scan_takes_input [of strtod "m_lexer p"] by (cases "scan strtod (m_lexer p)") (auto simp: get_token_def)

lemma rank_parse_member:
  assumes "parse_member strtod (states, p, d) = Go_On (states', p', d')"
  shows "rank p' \<le> 2 * left (m_lexer p)"
proof -
  have "last_token (get_token strtod p) = Name_Separator" "p' = get_token strtod (get_token strtod p)"
    using assms by (auto simp: parse_member_def Let_def split: if_splits)
  then show ?thesis using rank_token [of strtod p Name_Separator] rank_get_token [of strtod "get_token strtod p"] by simp
qed

lemma rank_parse_value:
  assumes "parse_value strtod (states, p, d) = Go_On r"
  shows "case r of Inl (states', p', d') \<Rightarrow> rank p' < rank p | Inr (p', d') \<Rightarrow> 2 * left (m_lexer p') \<le> rank p"
proof -
  have g: "2 * left (m_lexer (get_token strtod p)) \<le> 2 * left (m_lexer p)"
    using left_scan [of "m_lexer p" "left (m_lexer p)" strtod] by (cases "scan strtod (m_lexer p)") (auto simp: get_token_def)
  have l: "2 * left (m_lexer p) \<le> rank p" by (simp add: rank_def)
  consider "last_token p = Begin_Object" | "last_token p = Begin_Array"
    | "last_token p \<noteq> Begin_Object" "last_token p \<noteq> Begin_Array" by blast
  then show ?thesis
  proof cases
    case 1
    then have rp: "rank p = Suc (2 * left (m_lexer p))" by (simp add: rank_def)
    show ?thesis
    proof (cases r)
      case (Inl s)
      obtain states' p' d' where s: "s = (states', p', d')" by (cases s)
      have "parse_member strtod (False # states, get_token strtod p, start_object d) = Go_On (states', p', d')"
        using assms 1 Inl s by (auto simp: parse_value_def parse_begin_object_def Let_def split: if_splits flow.splits)
      then show ?thesis using rank_parse_member g rp Inl s by fastforce
    next
      case (Inr x)
      then have "fst x = get_token strtod p"
        using assms 1 by (auto simp: parse_value_def parse_begin_object_def Let_def split: if_splits flow.splits)
      then show ?thesis using Inr g l by (cases x) simp
    qed
  next
    case 2
    then have "rank p = Suc (2 * left (m_lexer p))" by (simp add: rank_def)
    then show ?thesis using assms 2 rank_get_token [of strtod p] g
      by (auto simp: parse_value_def parse_begin_array_def Let_def split: if_splits)
  next
    case 3
    then show ?thesis using assms l by (auto simp: parse_value_def split: if_splits option.splits)
  qed
qed

lemma rank_parse_rest:
  assumes "parse_rest strtod (states, p, d) = Go_On (skip, states', p', d')"
  shows "rank p' < 2 * left (m_lexer p)"
proof -
  let ?g = "get_token strtod p"
  obtain a outer where st: "states = a # outer" using assms by (cases states) (auto simp: parse_rest_def)
  show ?thesis
  proof (cases "last_token ?g = Value_Separator")
    case True
    then have t: "Suc (2 * left (m_lexer ?g)) < 2 * left (m_lexer p)" using rank_token by fastforce
    have gg: "rank (get_token strtod ?g) \<le> 2 * left (m_lexer ?g)" by (rule rank_get_token)
    show ?thesis
    proof (cases a)
      case True
      then show ?thesis using assms st t gg \<open>last_token ?g = Value_Separator\<close> by (auto simp: parse_rest_def Let_def)
    next
      case False
      then have "parse_member strtod (states, get_token strtod ?g, d) = Go_On (states', p', d')"
        using assms st \<open>last_token ?g = Value_Separator\<close> by (auto simp: parse_rest_def Let_def split: flow.splits)
      moreover have "2 * left (m_lexer (get_token strtod ?g)) \<le> rank (get_token strtod ?g)" by (simp add: rank_def)
      ultimately show ?thesis using rank_parse_member t gg by fastforce
    qed
  next
    case False
    then have "p' = ?g" "last_token ?g = End_Array \<or> last_token ?g = End_Object"
      using assms st by (auto simp: parse_rest_def Let_def split: if_splits)
    then show ?thesis using rank_token [of strtod p "last_token ?g"] by (auto simp: rank_def)
  qed
qed

lemma rank_parse_step:
  assumes "parse_step strtod (skip, states, p, d) = Go_On (skip', states', p', d')"
  shows "rank p' < rank p"
proof (cases "if skip then Go_On (Inr (p, d)) else parse_value strtod (states, p, d)")
  case (Go_On r)
  have "case r of Inl (states', p', d') \<Rightarrow> rank p' < rank p | Inr (p', d') \<Rightarrow> 2 * left (m_lexer p') \<le> rank p"
    using Go_On rank_parse_value by (cases skip) (auto simp: rank_def)
  then show ?thesis using assms Go_On rank_parse_rest
    by (cases r) (fastforce simp: parse_step_def)+
qed (use assms in \<open>simp add: parse_step_def\<close>)

function sax_parse_internal :: "(string \<Rightarrow> double) \<Rightarrow> bool \<times> loop_state \<Rightarrow> sax_result" where
  "sax_parse_internal strtod s =
    (case parse_step strtod s of Return r \<Rightarrow> r | Go_On s \<Rightarrow> sax_parse_internal strtod s)"
  by pat_completeness auto
termination
proof (relation "measure (\<lambda>(_, _, _, p, _). rank p)", goal_cases)
  case (2 strtod s s')
  then show ?case by (cases s; cases s') (auto intro: rank_parse_step)
qed simp

declare sax_parse_internal.simps [simp del]

text \<open>The whole text is one value; \<open>json::parse\<close> lets exceptions through.\<close>

definition parser_parse :: "(string \<Rightarrow> double) \<Rightarrow> bool \<Rightarrow> parser \<Rightarrow> json_error + json" where
  "parser_parse strtod allow p =
    (case sax_parse_internal strtod (False, [], p, new_dom_parser allow) of
       Inl ex \<Rightarrow> Inl ex
     | Inr (_, p, d) \<Rightarrow>
         let p = get_token strtod p in
         if last_token p \<noteq> End_Of_Input then
           (case syntax_error End_Of_Input ''value'' p d of Inl ex \<Rightarrow> Inl ex | Inr _ \<Rightarrow> Inr J_Discarded)
         else if errored d then Inr J_Discarded else Inr (root d))"

definition new_parser :: "(string \<Rightarrow> double) \<Rightarrow> string \<Rightarrow> bool \<Rightarrow> parser" where
  "new_parser strtod adapter comments =
     get_token strtod \<lparr>m_lexer = new_lexer adapter comments, last_token = Uninitialized\<rparr>"

definition basic_json_parse :: "(string \<Rightarrow> double) \<Rightarrow> string \<Rightarrow> bool \<Rightarrow> bool \<Rightarrow> json_error + json" where
  "basic_json_parse strtod i allow comments = parser_parse strtod allow (new_parser strtod i comments)"

end
