(* ===== verification/Json_Grammar.thy ===== *)
theory Json_Grammar
  imports Utf8 Json_Parser
begin

text \<open>
  The grammar of the JSON texts that have a value here, and what the lexer does on the parts of one.
  It is the grammar of RFC 8259 for texts in UTF-8, with two conditions the RFC leaves open: an escape
  is a Unicode scalar value or a pair of surrogates (\<open>unicode\<close> and \<open>surrogates\<close> of
  \<open>string_body\<close>; the RFC's grammar also derives lone surrogates, which the lexer rejects), and the
  double of a number that is not an integer of 64 bits is finite (\<open>number_text\<close>; the parser throws
  \<open>out_of_range\<close> otherwise). On a blank, a string, a number or a literal followed by more text the
  lexer returns the token with its value and stops right behind it.
\<close>

section \<open>The grammar\<close>

definition blank :: "string \<Rightarrow> bool" where
  "blank w \<longleftrightarrow> set w \<subseteq> {CHR 0x20, CHR 0x09, CHR 0x0A, CHR 0x0D}"

definition digit_value :: "char \<Rightarrow> nat option" where
  "digit_value c =
    (let n = of_char c in
     if 0x30 \<le> n \<and> n \<le> 0x39 then Some (n - 0x30)
     else if 0x41 \<le> n \<and> n \<le> 0x46 then Some (n - 0x37)
     else if 0x61 \<le> n \<and> n \<le> 0x66 then Some (n - 0x57) else None)"

text \<open>Four hexadecimal digits.\<close>

inductive hex_quad :: "string \<Rightarrow> nat \<Rightarrow> bool" where
  "digit_value a = Some i \<Longrightarrow> digit_value b = Some j \<Longrightarrow> digit_value c = Some k \<Longrightarrow> digit_value d = Some l \<Longrightarrow>
   hex_quad [a, b, c, d] (4096 * i + 256 * j + 16 * k + l)"

definition simple_escapes :: "(char \<times> char) list" where
  "simple_escapes = [(CHR 0x22, CHR 0x22), (CHR 0x5C, CHR 0x5C), (CHR ''/'', CHR ''/''), (CHR ''b'', CHR 0x08),
     (CHR ''f'', CHR 0x0C), (CHR ''n'', CHR 0x0A), (CHR ''r'', CHR 0x0D), (CHR ''t'', CHR 0x09)]"

text \<open>The text between the quotes of a string, and the string.\<close>

inductive string_body :: "string \<Rightarrow> string \<Rightarrow> bool" where
  empty: "string_body [] []"
| plain: "scalar n \<Longrightarrow> 0x20 \<le> n \<Longrightarrow> n \<noteq> 0x22 \<Longrightarrow> n \<noteq> 0x5C \<Longrightarrow> string_body t v \<Longrightarrow> string_body (utf8 n @ t) (utf8 n @ v)"
| short: "(c, r) \<in> set simple_escapes \<Longrightarrow> string_body t v \<Longrightarrow> string_body (CHR 0x5C # c # t) (r # v)"
| unicode: "hex_quad h n \<Longrightarrow> scalar n \<Longrightarrow> string_body t v \<Longrightarrow> string_body (CHR 0x5C # CHR ''u'' # h @ t) (utf8 n @ v)"
| surrogates: "hex_quad h n \<Longrightarrow> hex_quad l m \<Longrightarrow> 0xD800 \<le> n \<Longrightarrow> n \<le> 0xDBFF \<Longrightarrow> 0xDC00 \<le> m \<Longrightarrow> m \<le> 0xDFFF \<Longrightarrow>
    string_body t v \<Longrightarrow>
    string_body (CHR 0x5C # CHR ''u'' # h @ CHR 0x5C # CHR ''u'' # l @ t)
      (utf8 (0x10000 + 1024 * (n - 0xD800) + (m - 0xDC00)) @ v)"

definition digits :: "string \<Rightarrow> bool" where
  "digits ds \<longleftrightarrow> (\<forall>c \<in> set ds. digit (of_char c))"

definition int_part :: "string \<Rightarrow> bool" where
  "int_part ds \<longleftrightarrow> ds = ''0'' \<or> digits ds \<and> ds \<noteq> [] \<and> hd ds \<noteq> CHR ''0''"

definition fraction_part :: "string \<Rightarrow> bool" where
  "fraction_part fr \<longleftrightarrow> fr = [] \<or> (\<exists>ds. fr = CHR ''.'' # ds \<and> digits ds \<and> ds \<noteq> [])"

definition exponent_part :: "string \<Rightarrow> bool" where
  "exponent_part ex \<longleftrightarrow> ex = [] \<or>
    (\<exists>e sg ds. ex = e # sg @ ds \<and> e \<in> {CHR ''e'', CHR ''E''} \<and> sg \<in> {[], ''+'', ''-''} \<and> digits ds \<and> ds \<noteq> [])"

text \<open>The value: an integer in its range, otherwise the double of the whole text.\<close>

definition number_value :: "(string \<Rightarrow> double) \<Rightarrow> bool \<Rightarrow> string \<Rightarrow> string \<Rightarrow> json" where
  "number_value strtod neg ds rest =
    (if rest = [] \<and> \<not> neg \<and> decimal 0 ds < 2 ^ 64 then J_Unsigned (of_nat (decimal 0 ds))
     else if rest = [] \<and> neg \<and> decimal 0 ds \<le> 2 ^ 63 then J_Integer (- of_nat (decimal 0 ds))
     else J_Float (strtod ((if neg then ''-'' else []) @ ds @ rest)))"

inductive number_text :: "(string \<Rightarrow> double) \<Rightarrow> string \<Rightarrow> json \<Rightarrow> bool" for strtod where
  "int_part ds \<Longrightarrow> fraction_part fr \<Longrightarrow> exponent_part ex \<Longrightarrow> j = number_value strtod neg ds (fr @ ex) \<Longrightarrow>
   (\<And>d. j = J_Float d \<Longrightarrow> isfinite d) \<Longrightarrow> number_text strtod ((if neg then ''-'' else []) @ ds @ fr @ ex) j"

inductive json_text :: "(string \<Rightarrow> double) \<Rightarrow> string \<Rightarrow> json \<Rightarrow> bool"
  and elements_text :: "(string \<Rightarrow> double) \<Rightarrow> string \<Rightarrow> json list \<Rightarrow> bool"
  and members_text :: "(string \<Rightarrow> double) \<Rightarrow> string \<Rightarrow> (string \<times> json) list \<Rightarrow> bool"
  for strtod
where
  null: "json_text strtod ''null'' J_Null"
| true: "json_text strtod ''true'' (J_Bool True)"
| false: "json_text strtod ''false'' (J_Bool False)"
| number: "number_text strtod t j \<Longrightarrow> json_text strtod t j"
| string: "string_body t v \<Longrightarrow> json_text strtod (CHR 0x22 # t @ [CHR 0x22]) (J_String v)"
| no_elements: "blank w \<Longrightarrow> json_text strtod (CHR ''['' # w @ '']'') (J_Array [])"
| array: "elements_text strtod t js \<Longrightarrow> json_text strtod (CHR ''['' # t @ '']'') (J_Array js)"
| no_members: "blank w \<Longrightarrow> json_text strtod (CHR ''{'' # w @ ''}'') (J_Object [])"
| object: "members_text strtod t ms \<Longrightarrow>
    json_text strtod (CHR ''{'' # t @ ''}'') (J_Object (fold (\<lambda>(k, v). map_put k v) ms []))"
| last_element: "blank u \<Longrightarrow> json_text strtod t j \<Longrightarrow> blank w \<Longrightarrow> elements_text strtod (u @ t @ w) [j]"
| element: "blank u \<Longrightarrow> json_text strtod t j \<Longrightarrow> blank w \<Longrightarrow> elements_text strtod t' js \<Longrightarrow>
    elements_text strtod (u @ t @ w @ CHR '','' # t') (j # js)"
| last_member: "blank u \<Longrightarrow> string_body k kv \<Longrightarrow> blank w \<Longrightarrow> blank x \<Longrightarrow> json_text strtod t j \<Longrightarrow> blank y \<Longrightarrow>
    members_text strtod (u @ CHR 0x22 # k @ CHR 0x22 # w @ CHR '':'' # x @ t @ y) [(kv, j)]"
| member: "blank u \<Longrightarrow> string_body k kv \<Longrightarrow> blank w \<Longrightarrow> blank x \<Longrightarrow> json_text strtod t j \<Longrightarrow> blank y \<Longrightarrow>
    members_text strtod t' ms \<Longrightarrow>
    members_text strtod (u @ CHR 0x22 # k @ CHR 0x22 # w @ CHR '':'' # x @ t @ y @ CHR '','' # t') ((kv, j) # ms)"

text \<open>A whole document, which may start with a byte order mark.\<close>

inductive document :: "(string \<Rightarrow> double) \<Rightarrow> string \<Rightarrow> json \<Rightarrow> bool" for strtod where
  "bom = [] \<or> bom = [CHR 0xEF, CHR 0xBB, CHR 0xBF] \<Longrightarrow> blank u \<Longrightarrow> json_text strtod t j \<Longrightarrow> blank w \<Longrightarrow>
   document strtod (bom @ u @ t @ w) j"

section \<open>Where the lexer stands\<close>

definition next_char :: "string \<Rightarrow> int" where
  "next_char t = (case t of [] \<Rightarrow> -1 | c # _ \<Rightarrow> of_char c)"

lemma next_char_simps [simp]: "next_char (c # t) = of_char c" "next_char [] = -1"
  by (simp_all add: next_char_def)

text \<open>
  The text still to be read, and the character just read with the text behind it. As long as no
  character has been taken, the text must not look like a byte order mark.
\<close>

definition ready :: "lexer \<Rightarrow> string \<Rightarrow> bool" where
  "ready s t \<longleftrightarrow> (0 < chars_read_total s \<or> next_char t \<noteq> 0xEF) \<and>
    (if next_unget s then (case t of [] \<Rightarrow> current s = -1 \<and> ia s = [] | c # cs \<Rightarrow> current s = of_char c \<and> ia s = cs)
     else ia s = t)"

definition on :: "lexer \<Rightarrow> char \<Rightarrow> string \<Rightarrow> bool" where
  "on s c t \<longleftrightarrow> 0 < chars_read_total s \<and> \<not> next_unget s \<and> current s = of_char c \<and> ia s = t"

lemma on_get: "ready s (c # t) \<Longrightarrow> on (get s) c t"
  by (auto simp: ready_def on_def current_get split: if_splits)

lemma on_ready: "on s c t \<Longrightarrow> ready s t"
  by (simp add: on_def ready_def)

lemma on_current: "on s c t \<Longrightarrow> current s = of_char c"
  by (simp add: on_def)

lemma ready_end: "ready s [] \<Longrightarrow> current (get s) = -1 \<and> ready (get s) []"
  by (auto simp: ready_def current_get split: if_splits)

lemma ready_updates [simp]:
  "ready (add c s) t = ready s t" "on (add c s) d t = on s d t"
  "ready (s\<lparr>token_buffer := b\<rparr>) t = ready s t" "on (s\<lparr>token_buffer := b\<rparr>) d t = on s d t"
  "ready (reset s) t = ready s t" "on (reset s) d t = on s d t"
  by (cases t; simp add: ready_def on_def reset_def)+

lemma ready_unget_get: "ready s t \<Longrightarrow> ready (unget (get s)) t"
  by (cases t) (auto simp: ready_def current_get split: if_splits)

section \<open>Strings\<close>

lemma of_char_byte: "b < 256 \<Longrightarrow> (of_char (char_of b) :: int) = int b"
  using of_nat_of_char [of "char_of b", where ?'a = int] by simp

lemma range_loop_run:
  assumes "in_ranges bs rs" and "\<forall>b \<in> set bs. b < 256" and "ready s (map char_of bs @ t)"
  shows "\<exists>s'. range_loop rs s = (True, s') \<and> ready s' t \<and> token_buffer s' = token_buffer s @ map char_of bs"
  using assms(1)[unfolded in_ranges_def] assms(2,3)
proof (induction bs rs arbitrary: s rule: list_all2_induct)
  case (Cons b bs r rs)
  have on: "on (get s) (char_of b) (map char_of bs @ t)" using Cons.prems by (intro on_get) simp
  then have c: "current (get s) = int b" using on_current Cons.prems(1) by (simp add: of_char_byte)
  have "ready (add (current (get s)) (get s)) (map char_of bs @ t)" using on_ready [OF on] by simp
  then obtain s' where "range_loop rs (add (current (get s)) (get s)) = (True, s')" "ready s' t"
    "token_buffer s' = token_buffer (add (current (get s)) (get s)) @ map char_of bs"
    using Cons.IH Cons.prems(1) by fastforce
  then show ?case using Cons.hyps(1) c by (cases r) (simp add: Let_def char_of_nat)
qed simp

text \<open>One step of the loop: reading \<open>t\<close> and adding \<open>v\<close>.\<close>

definition reads :: "lexer \<Rightarrow> string \<Rightarrow> string \<Rightarrow> bool" where
  "reads s v t \<longleftrightarrow> (\<exists>s'. scan_chars s = scan_chars s' \<and> ready s' t \<and> token_buffer s' = token_buffer s @ v)"

lemma scan_plain:
  assumes "scalar n" and "0x20 \<le> n" and "n \<noteq> 0x22" and "n \<noteq> 0x5C" and "ready s (utf8 n @ t)"
  shows "reads s (utf8 n) t"
proof (cases "n \<le> 0x7F")
  case True
  have u: "utf8 n = [char_of n]" using True by (simp add: utf8_def utf8_bytes_def)
  have on: "on (get s) (char_of n) t" using assms(5) by (intro on_get) (simp add: u)
  then have c: "current (get s) = int n" using on_current True by (simp add: of_char_byte)
  have "scan_chars s = scan_chars (add (int n) (get s))"
    using True assms(2-4) by (subst scan_chars.simps) (simp add: Let_def c)
  then show ?thesis unfolding reads_def using on_ready [OF on] u
    by (intro exI [of _ "add (int n) (get s)"]) (simp add: char_of_nat)
next
  case False
  then obtain b bs rs where b: "utf8_bytes n = b # bs" "0x7F < b" "b < 256" "continuation_ranges (int b) = Some rs"
    "in_ranges bs rs" using utf8_ranges [OF assms(1)] by fastforce
  have u: "utf8 n = char_of b # map char_of bs" by (simp add: utf8_def b(1))
  have less: "\<forall>x \<in> set bs. x < 256" using utf8_bytes_less [of n] assms(1) b(1) by (auto simp: scalar_def)
  have on: "on (get s) (char_of b) (map char_of bs @ t)" using assms(5) by (intro on_get) (simp add: u)
  then have c: "current (get s) = int b" using on_current b(3) by (simp add: of_char_byte)
  obtain s' where s': "range_loop rs (add (int b) (get s)) = (True, s')" "ready s' t"
    "token_buffer s' = token_buffer (add (int b) (get s)) @ map char_of bs"
    using range_loop_run [OF b(5) less, of "add (int b) (get s)" t] on_ready [OF on] by auto
  have "scan_chars s = scan_chars s'"
    using b(2,4) s'(1) by (subst scan_chars.simps) (simp add: Let_def c next_byte_in_range_def)
  then show ?thesis unfolding reads_def using s'(2,3) u by (auto simp: char_of_nat)
qed

lemma scan_escape_step:
  assumes "ready s (CHR 0x5C # t)" and "scan_escape (get s) = (True, s')"
  shows "scan_chars s = scan_chars s'"
proof -
  have "current (get s) = 0x5C" using on_current [OF on_get [OF assms(1)]] by simp
  then show ?thesis using assms(2) by (subst scan_chars.simps) (simp add: Let_def)
qed

lemma scan_escape_simple:
  assumes "(c, r) \<in> set simple_escapes" and "current (get s) = of_char c"
  shows "scan_escape s = (True, add (of_char r) (get s))"
  using assms unfolding simple_escapes_def list.set insert_iff prod.inject empty_iff
  by (elim disjE conjE) (simp_all add: scan_escape_def Let_def)

lemma scan_short:
  assumes "(c, r) \<in> set simple_escapes" and "ready s (CHR 0x5C # c # t)"
  shows "reads s [r] t"
proof -
  have on: "on (get (get s)) c t" using on_get [OF on_ready [OF on_get [OF assms(2)]]] .
  have "scan_escape (get s) = (True, add (of_char r) (get (get s)))"
    by (rule scan_escape_simple [OF assms(1) on_current [OF on]])
  then have "scan_chars s = scan_chars (add (of_char r) (get (get s)))" by (rule scan_escape_step [OF assms(2)])
  then show ?thesis unfolding reads_def using on_ready [OF on]
    by (intro exI [of _ "add (of_char r) (get (get s))"]) simp
qed

lemma codepoint_step:
  assumes "digit_value c = Some i" and "ready s (c # t)"
  shows "codepoint_loop (f # fs) cp s = codepoint_loop fs (cp + push_bit f (int i)) (get s)" and "ready (get s) t"
proof -
  have cur: "current (get s) = int (of_char c)"
    using on_current [OF on_get [OF assms(2)]] of_nat_of_char [of c, where ?'a = int] by simp
  then show "codepoint_loop (f # fs) cp s = codepoint_loop fs (cp + push_bit f (int i)) (get s)"
    using assms(1) by (auto simp: digit_value_def Let_def of_nat_diff split: if_splits)
  show "ready (get s) t" using on_ready [OF on_get [OF assms(2)]] .
qed

lemma get_codepoint_quad:
  assumes "hex_quad h n" and "ready s (h @ t)"
  shows "\<exists>s'. get_codepoint s = (int n, s') \<and> ready s' t \<and> token_buffer s' = token_buffer s"
proof -
  obtain a b c d i j k l where h: "h = [a, b, c, d]" and n: "n = 4096 * i + 256 * j + 16 * k + l"
    and v: "digit_value a = Some i" "digit_value b = Some j" "digit_value c = Some k" "digit_value d = Some l"
    using assms(1) by (auto elim!: hex_quad.cases)
  have r: "ready s (a # b # c # d # t)" using assms(2) h by simp
  note r1 = codepoint_step(2) [OF v(1) r]
  note r2 = codepoint_step(2) [OF v(2) r1]
  note r3 = codepoint_step(2) [OF v(3) r2]
  have "codepoint_loop [12, 8, 4, 0] 0 s = codepoint_loop [8, 4, 0] (0 + push_bit 12 (int i)) (get s)"
    by (rule codepoint_step(1) [OF v(1) r])
  also have "\<dots> = codepoint_loop [4, 0] (0 + push_bit 12 (int i) + push_bit 8 (int j)) (get (get s))"
    by (rule codepoint_step(1) [OF v(2) r1])
  also have "\<dots> = codepoint_loop [0] (0 + push_bit 12 (int i) + push_bit 8 (int j) + push_bit 4 (int k)) (get (get (get s)))"
    by (rule codepoint_step(1) [OF v(3) r2])
  also have "\<dots> = codepoint_loop [] (0 + push_bit 12 (int i) + push_bit 8 (int j) + push_bit 4 (int k) + push_bit 0 (int l))
      (get (get (get (get s))))"
    by (rule codepoint_step(1) [OF v(4) r3])
  finally have "get_codepoint s = (int n, get (get (get (get s))))"
    using n by (simp add: get_codepoint_def push_bit_eq_mult)
  then show ?thesis using codepoint_step(2) [OF v(4) r3] by simp
qed

lemma add_codepoint_reads:
  assumes "n \<le> 0x10FFFF" and "ready s t"
  shows "ready (add_codepoint (int n) s) t" and "token_buffer (add_codepoint (int n) s) = token_buffer s @ utf8 n"
  using assms by (simp_all add: add_codepoint_utf8)

lemma scan_escape_u:
  assumes "ready s (CHR ''u'' # t)"
  shows "scan_escape s = scan_unicode_escape (get s)" and "ready (get s) t"
  using on_current [OF on_get [OF assms]] on_ready [OF on_get [OF assms]]
  by (simp_all add: scan_escape_def Let_def)

lemma scan_unicode:
  assumes "hex_quad h n" and "scalar n" and "ready s (CHR 0x5C # CHR ''u'' # h @ t)"
  shows "reads s (utf8 n) t"
proof -
  have r: "ready (get s) (CHR ''u'' # h @ t)" using on_ready [OF on_get [OF assms(3)]] .
  obtain s' where s': "get_codepoint (get (get s)) = (int n, s')" "ready s' t" "token_buffer s' = token_buffer s"
    using get_codepoint_quad [OF assms(1) scan_escape_u(2) [OF r]] by auto
  have "scan_surrogate (int n) s' = (True, add_codepoint (int n) s')"
    using assms(2) by (auto simp: scan_surrogate_def scalar_def)
  then have "scan_escape (get s) = (True, add_codepoint (int n) s')"
    using s'(1) by (simp add: scan_escape_u(1) [OF r] scan_unicode_escape_def)
  then have "scan_chars s = scan_chars (add_codepoint (int n) s')" by (rule scan_escape_step [OF assms(3)])
  then show ?thesis unfolding reads_def
    using add_codepoint_reads [OF _ s'(2)] assms(2) s'(3)
    by (intro exI [of _ "add_codepoint (int n) s'"]) (auto simp: scalar_def)
qed

lemma scan_surrogates:
  assumes "hex_quad h n" and "hex_quad l m" and "0xD800 \<le> n" and "n \<le> 0xDBFF" and "0xDC00 \<le> m" and "m \<le> 0xDFFF"
    and "ready s (CHR 0x5C # CHR ''u'' # h @ CHR 0x5C # CHR ''u'' # l @ t)"
  shows "reads s (utf8 (0x10000 + 1024 * (n - 0xD800) + (m - 0xDC00))) t"
proof -
  let ?c = "0x10000 + 1024 * (n - 0xD800) + (m - 0xDC00)"
  have r: "ready (get s) (CHR ''u'' # h @ CHR 0x5C # CHR ''u'' # l @ t)" using on_ready [OF on_get [OF assms(7)]] .
  obtain s1 where s1: "get_codepoint (get (get s)) = (int n, s1)" "ready s1 (CHR 0x5C # CHR ''u'' # l @ t)"
    "token_buffer s1 = token_buffer s"
    using get_codepoint_quad [OF assms(1) scan_escape_u(2) [OF r]] by auto
  note g1 = on_get [OF s1(2)]
  note g2 = on_get [OF on_ready [OF g1]]
  obtain s2 where s2: "get_codepoint (get (get s1)) = (int m, s2)" "ready s2 t" "token_buffer s2 = token_buffer s"
    using get_codepoint_quad [OF assms(2) on_ready [OF g2]] s1(3) by auto
  have c: "push_bit 10 (int n) + int m - 0x35FDC00 = int ?c"
    using assms(3,5) by (simp add: push_bit_eq_mult of_nat_diff)
  have "scan_surrogate (int n) s1 = (True, add_codepoint (int ?c) s2)"
    using assms(3-6) on_current [OF g1] on_current [OF g2] s2(1) c by (simp add: scan_surrogate_def Let_def)
  then have "scan_escape (get s) = (True, add_codepoint (int ?c) s2)"
    using s1(1) by (simp add: scan_escape_u(1) [OF r] scan_unicode_escape_def)
  then have "scan_chars s = scan_chars (add_codepoint (int ?c) s2)" by (rule scan_escape_step [OF assms(7)])
  then show ?thesis unfolding reads_def
    using add_codepoint_reads [of ?c, OF _ s2(2)] assms(3-6) s2(3)
    by (intro exI [of _ "add_codepoint (int ?c) s2"]) auto
qed

lemma scan_body:
  assumes "string_body b v" and "ready s (b @ CHR 0x22 # t)"
  shows "\<exists>s'. scan_chars s = (Value_String, s') \<and> ready s' t \<and> token_buffer s' = token_buffer s @ v"
  using assms
proof (induction b v arbitrary: s rule: string_body.induct)
  case empty
  have "current (get s) = 0x22" using on_current [OF on_get] empty by simp
  moreover have "ready (get s) t" using on_ready [OF on_get] empty by simp
  ultimately show ?case by (subst scan_chars.simps) (simp add: Let_def)
next
  case (plain n b v)
  obtain s' where "scan_chars s = scan_chars s'" "ready s' (b @ CHR 0x22 # t)" "token_buffer s' = token_buffer s @ utf8 n"
    using scan_plain [OF plain(1-4)] plain.prems unfolding reads_def by auto
  then show ?case using plain.IH [of s'] by auto
next
  case (short c r b v)
  obtain s' where "scan_chars s = scan_chars s'" "ready s' (b @ CHR 0x22 # t)" "token_buffer s' = token_buffer s @ [r]"
    using scan_short [OF short(1)] short.prems unfolding reads_def by auto
  then show ?case using short.IH [of s'] by auto
next
  case (unicode h n b v)
  obtain s' where "scan_chars s = scan_chars s'" "ready s' (b @ CHR 0x22 # t)" "token_buffer s' = token_buffer s @ utf8 n"
    using scan_unicode [OF unicode(1,2)] unicode.prems unfolding reads_def by auto
  then show ?case using unicode.IH [of s'] by auto
next
  case (surrogates h n l m b v)
  obtain s' where "scan_chars s = scan_chars s'" "ready s' (b @ CHR 0x22 # t)"
    "token_buffer s' = token_buffer s @ utf8 (0x10000 + 1024 * (n - 0xD800) + (m - 0xDC00))"
    using scan_surrogates [OF surrogates(1-6)] surrogates.prems unfolding reads_def by auto
  then show ?case using surrogates.IH [of s'] by auto
qed

section \<open>Blanks, literals and tokens\<close>

lemma blank_char: "(of_char c :: int) \<in> {0x20, 0x09, 0x0A, 0x0D} \<longleftrightarrow> blank [c]"
proof -
  have "{0x20, 0x09, 0x0A, 0x0D :: int} = of_char ` {CHR 0x20, CHR 0x09, CHR 0x0A, CHR 0x0D}" by simp
  then have "(of_char c :: int) \<in> {0x20, 0x09, 0x0A, 0x0D} \<longleftrightarrow> c \<in> {CHR 0x20, CHR 0x09, CHR 0x0A, CHR 0x0D}"
    by (simp only: inj_image_mem_iff [OF inj_of_char])
  then show ?thesis by (simp add: blank_def)
qed

text \<open>Skipping a blank leads to the character behind it, or the end.\<close>

lemma skip_blank:
  assumes "blank w" and "ready s (w @ c # t)" and "\<not> blank [c]"
  shows "on (skip_whitespace s) c t"
  using assms(1,2)
proof (induction w arbitrary: s)
  case Nil
  have on: "on (get s) c t" using Nil by (intro on_get) simp
  have "current (get s) \<notin> {0x20, 0x09, 0x0A, 0x0D}"
    using on_current [OF on] assms(3) by (simp only: blank_char not_False_eq_True)
  then show ?case using on by (subst skip_whitespace.simps) (auto simp: Let_def)
next
  case (Cons x w)
  have on: "on (get s) x (w @ c # t)" using Cons.prems(2) by (intro on_get) simp
  have "current (get s) \<in> {0x20, 0x09, 0x0A, 0x0D}"
    using on_current [OF on] Cons.prems(1) by (auto simp: blank_def)
  then show ?case using Cons.IH [OF _ on_ready [OF on]] Cons.prems(1)
    by (subst skip_whitespace.simps) (auto simp: Let_def blank_def)
qed

lemma skip_blank_end:
  assumes "blank w" and "ready s w"
  shows "current (skip_whitespace s) = -1"
  using assms
proof (induction w arbitrary: s)
  case Nil
  then show ?case using ready_end by (subst skip_whitespace.simps) (auto simp: Let_def)
next
  case (Cons x w)
  have on: "on (get s) x w" using Cons.prems(2) by (intro on_get) simp
  have "current (get s) \<in> {0x20, 0x09, 0x0A, 0x0D}"
    using on_current [OF on] Cons.prems(1) by (auto simp: blank_def)
  then show ?case using Cons.IH [OF _ on_ready [OF on]] Cons.prems(1)
    by (subst skip_whitespace.simps) (auto simp: Let_def blank_def)
qed

lemma current_next: "ready s t \<Longrightarrow> current (get s) = next_char t"
  using ready_end on_current [OF on_get] by (cases t) auto

text \<open>Looking for a byte order mark leaves another text as it is.\<close>

lemma scan_after_bom:
  assumes "ready s t"
  shows "\<exists>s'. ready s' t \<and> scan strtod s =
    (case skip_comments (skip_whitespace s') of (ok, s) \<Rightarrow> if \<not> ok then (Parse_Error, s) else scan_token strtod s)"
proof (cases "chars_read_total s = 0")
  case True
  then have "current (get s) \<noteq> 0xEF" using assms current_next [OF assms] by (simp add: ready_def)
  then have "skip_bom s = (True, unget (get s))" by (simp add: skip_bom_def Let_def)
  then show ?thesis using ready_unget_get [OF assms] True by (auto simp: scan_def)
next
  case False
  then show ?thesis using assms by (intro exI [of _ s]) (simp add: scan_def)
qed

text \<open>A token is scanned from its first character.\<close>

lemma scan_first:
  assumes "blank w" and "ready s (w @ c # t)" and "\<not> blank [c]" and "c \<noteq> CHR ''/''"
  shows "\<exists>s'. scan strtod s = scan_token strtod s' \<and> on s' c t"
proof -
  obtain s1 where s1: "ready s1 (w @ c # t)" "scan strtod s =
      (case skip_comments (skip_whitespace s1) of (ok, s) \<Rightarrow> if \<not> ok then (Parse_Error, s) else scan_token strtod s)"
    using scan_after_bom [OF assms(2)] by blast
  let ?s = "skip_whitespace s1"
  have on: "on ?s c t" by (rule skip_blank [OF assms(1) s1(1) assms(3)])
  have "current ?s \<noteq> of_char (CHR ''/'')" using on_current [OF on] assms(4) by (simp only: of_char_eq_iff not_False_eq_True)
  then have "skip_comments ?s = (True, ?s)" by (subst skip_comments.simps) auto
  then show ?thesis using on s1(2) by auto
qed

lemma scan_end:
  assumes "blank w" and "ready s w"
  shows "fst (scan strtod s) = End_Of_Input"
proof -
  obtain s1 where s1: "ready s1 w" "scan strtod s =
      (case skip_comments (skip_whitespace s1) of (ok, s) \<Rightarrow> if \<not> ok then (Parse_Error, s) else scan_token strtod s)"
    using scan_after_bom [OF assms(2)] by blast
  have "current (skip_whitespace s1) = -1" by (rule skip_blank_end [OF assms(1) s1(1)])
  moreover from this have "skip_comments (skip_whitespace s1) = (True, skip_whitespace s1)"
    by (subst skip_comments.simps) auto
  ultimately show ?thesis using s1(2) by (simp add: scan_token_def Let_def)
qed

lemma scan_literal_run:
  assumes "ready s (cs @ t)"
  shows "\<exists>s'. scan_literal cs ty s = (ty, s') \<and> ready s' t"
  using assms
proof (induction cs arbitrary: s)
  case (Cons c cs)
  have on: "on (get s) c (cs @ t)" using Cons.prems by (intro on_get) simp
  then show ?case using Cons.IH [OF on_ready [OF on]] on_current [OF on] by (simp add: Let_def)
qed simp

section \<open>Numbers\<close>

text \<open>What must not follow a number.\<close>

definition number_end :: "string \<Rightarrow> bool" where
  "number_end t \<longleftrightarrow> \<not> digit (next_char t) \<and> next_char t \<notin> {0x2E, 0x65, 0x45}"

lemma get_ready: "ready s (c # t) \<Longrightarrow> ready (get s) t"
  using on_ready [OF on_get] .

lemma current_next_Cons: "ready s (c # t) \<Longrightarrow> current (get s) = of_char c"
  using current_next by fastforce

lemma char_of_codes: "char_of (0x2E :: int) = CHR ''.''" "char_of (0x2D :: int) = CHR ''-''" "char_of (0x30 :: int) = CHR ''0''"
  by (simp_all add: char_of_def bit_iff_odd)

lemma digits_Cons: "digits (c # ds) \<longleftrightarrow> digit (of_char c) \<and> digits ds"
  by (simp add: digits_def)

text \<open>The automaton stops before \<open>t\<close> with the text of the number in the buffer.\<close>

definition finishes :: "(string \<Rightarrow> double) \<Rightarrow> token_type \<times> lexer \<Rightarrow> token_type \<Rightarrow> string \<Rightarrow> string \<Rightarrow> bool" where
  "finishes strtod r ty b t \<longleftrightarrow> (\<exists>s. r = scan_number_done strtod ty (get s) \<and> ready s t \<and> token_buffer s = b)"

lemma finishes_now:
  "ready s t \<Longrightarrow> finishes strtod (scan_number_done strtod ty (get s)) ty (token_buffer s) t"
  by (auto simp: finishes_def)

lemma any2_run:
  assumes "digits ds" and "number_end t" and "ready s (ds @ t)"
  shows "finishes strtod (scan_number_any2 strtod s) Value_Float (token_buffer s @ ds) t"
  using assms(1,3)
proof (induction ds arbitrary: s)
  case Nil
  then have r: "ready s t" by simp
  have "scan_number_any2 strtod s = scan_number_done strtod Value_Float (get s)"
    using current_next [OF r] assms(2) by (subst scan_number_any2.simps) (simp add: Let_def number_end_def)
  then show ?case using finishes_now [OF r] by simp
next
  case (Cons c ds)
  then have r: "ready s (c # ds @ t)" and d: "digit (of_char c)" "digits ds" by (simp_all add: digits_Cons)
  have "scan_number_any2 strtod s = scan_number_any2 strtod (add (of_char c) (get s))"
    using current_next_Cons [OF r] d(1) by (subst scan_number_any2.simps) (simp add: Let_def)
  then show ?case using Cons.IH [OF d(2), of "add (of_char c) (get s)"] get_ready [OF r] by simp
qed

lemma digit_not_sign: "digit c \<Longrightarrow> c \<noteq> 0x2B \<and> c \<noteq> 0x2D"
  by (auto simp: digit_def)

lemma exponent_run:
  assumes "sg \<in> {[], ''+'', ''-''}" and "digits ds" and "ds \<noteq> []" and "number_end t" and "ready s (sg @ ds @ t)"
  shows "finishes strtod (scan_number_exponent strtod s) Value_Float (token_buffer s @ sg @ ds) t"
proof -
  obtain d ds' where ds: "ds = d # ds'" and d: "digit (of_char d)" "digits ds'"
    using assms(2,3) by (cases ds) (auto simp: digits_Cons)
  have any: "finishes strtod (scan_number_any2 strtod (add (of_char d) (get x))) Value_Float (token_buffer x @ ds) t"
    if "ready x (d # ds' @ t)" for x
    using any2_run [OF d(2) assms(4), of "add (of_char d) (get x)"] get_ready [OF that] ds by simp
  have "sg = [] \<or> sg = [CHR ''+''] \<or> sg = [CHR ''-'']" using assms(1) by (simp only: insert_iff empty_iff simp_thms)
  then consider "sg = []" | c where "sg = [c]" "of_char c = (0x2B :: int) \<or> of_char c = (0x2D :: int)"
    using that(2) [of "CHR ''+''"] that(2) [of "CHR ''-''"] that(1) by (elim disjE) simp_all
  then show ?thesis
  proof cases
    case 1
    then have r: "ready s (d # ds' @ t)" using assms(5) ds by simp
    have "scan_number_exponent strtod s = scan_number_any2 strtod (add (of_char d) (get s))"
      using current_next_Cons [OF r] d(1) digit_not_sign [OF d(1)] by (simp add: scan_number_exponent_def Let_def)
    then show ?thesis using any [OF r] 1 by simp
  next
    case 2
    let ?s = "add (of_char c) (get s)"
    have r: "ready s (c # ds @ t)" using assms(5) 2(1) by simp
    then have r': "ready ?s (d # ds' @ t)" using get_ready [OF r] ds by simp
    have "scan_number_exponent strtod s = scan_number_sign strtod ?s"
      using current_next_Cons [OF r] 2(2) by (elim disjE) (simp_all add: scan_number_exponent_def Let_def)
    also have "\<dots> = scan_number_any2 strtod (add (of_char d) (get ?s))"
      using current_next_Cons [OF r'] d(1) by (simp add: scan_number_sign_def Let_def)
    finally show ?thesis using any [OF r'] 2(1) by simp
  qed
qed

text \<open>A state that ends the number, or goes on with an exponent.\<close>

lemma exponent_or_done:
  assumes "exponent_part ex" and "ready s (ex @ t)" and "number_end t"
    and "\<And>c. current (get s) = c \<Longrightarrow> c = 0x65 \<or> c = 0x45 \<Longrightarrow> r = scan_number_exponent strtod (add c (get s))"
    and "ex = [] \<Longrightarrow> r = scan_number_done strtod ty (get s)"
  shows "finishes strtod r (if ex = [] then ty else Value_Float) (token_buffer s @ ex) t"
proof (cases "ex = []")
  case True
  then show ?thesis using assms(2,5) finishes_now [of s t strtod ty] by simp
next
  case False
  then obtain e sg ds where ex: "ex = e # sg @ ds" and e: "e = CHR ''e'' \<or> e = CHR ''E''"
    and sg: "sg \<in> {[], ''+'', ''-''}" "digits ds" "ds \<noteq> []"
    using assms(1) by (auto simp: exponent_part_def)
  have r: "ready s (e # sg @ ds @ t)" using assms(2) ex by simp
  have "r = scan_number_exponent strtod (add (of_char e) (get s))"
    using e current_next_Cons [OF r] by (intro assms(4)) auto
  then show ?thesis
    using exponent_run [OF sg assms(3), of "add (of_char e) (get s)" strtod] get_ready [OF r] ex by simp
qed

lemma decimal2_run:
  assumes "digits ds" and "exponent_part ex" and "number_end t" and "ready s (ds @ ex @ t)"
  shows "finishes strtod (scan_number_decimal2 strtod s) Value_Float (token_buffer s @ ds @ ex) t"
  using assms(1,4)
proof (induction ds arbitrary: s)
  case Nil
  then have r: "ready s (ex @ t)" by simp
  have e: "scan_number_decimal2 strtod s = scan_number_exponent strtod (add c (get s))"
    if "current (get s) = c" "c = 0x65 \<or> c = 0x45" for c
    using that by (subst scan_number_decimal2.simps) (auto simp: Let_def digit_def)
  have n: "scan_number_decimal2 strtod s = scan_number_done strtod Value_Float (get s)" if "ex = []"
    using that current_next [OF r] assms(3) by (subst scan_number_decimal2.simps) (simp add: Let_def number_end_def)
  show ?case using exponent_or_done [OF assms(2) r assms(3) e n] by simp
next
  case (Cons c ds)
  then have r: "ready s (c # ds @ ex @ t)" and d: "digit (of_char c)" "digits ds" by (simp_all add: digits_Cons)
  have "scan_number_decimal2 strtod s = scan_number_decimal2 strtod (add (of_char c) (get s))"
    using current_next_Cons [OF r] d(1) by (subst scan_number_decimal2.simps) (simp add: Let_def)
  then show ?case using Cons.IH [OF d(2), of "add (of_char c) (get s)"] get_ready [OF r] by simp
qed

text \<open>A state that may also go on with a fraction.\<close>

lemma fraction_or_done:
  assumes "fraction_part fr" and "exponent_part ex" and "ready s (fr @ ex @ t)" and "number_end t"
    and "current (get s) = 0x2E \<Longrightarrow> r = scan_number_decimal1 strtod (add 0x2E (get s))"
    and "\<And>c. current (get s) = c \<Longrightarrow> c = 0x65 \<or> c = 0x45 \<Longrightarrow> r = scan_number_exponent strtod (add c (get s))"
    and "fr @ ex = [] \<Longrightarrow> r = scan_number_done strtod ty (get s)"
  shows "finishes strtod r (if fr @ ex = [] then ty else Value_Float) (token_buffer s @ fr @ ex) t"
proof (cases "fr = []")
  case True
  then show ?thesis using exponent_or_done [where s = s and ty = ty, OF assms(2) _ assms(4,6)] assms(3,7) by simp
next
  case False
  then obtain d ds where fr: "fr = CHR ''.'' # d # ds" "digit (of_char d)" "digits ds"
    using assms(1) by (auto simp: fraction_part_def digits_def neq_Nil_conv)
  let ?s = "add (of_char (CHR ''.'')) (get s)"
  have r0: "ready s (CHR ''.'' # d # ds @ ex @ t)" using assms(3) fr(1) by simp
  then have r: "ready ?s (d # ds @ ex @ t)" using get_ready [OF r0] by simp
  have "r = scan_number_decimal1 strtod ?s" using current_next_Cons [OF r0] assms(5) by simp
  also have "\<dots> = scan_number_decimal2 strtod (add (of_char d) (get ?s))"
    using current_next_Cons [OF r] fr(2) by (simp add: scan_number_decimal1_def Let_def)
  finally show ?thesis
    using decimal2_run [OF fr(3) assms(2,4), of "add (of_char d) (get ?s)" strtod] get_ready [OF r] fr(1)
    by (simp add: char_of_codes)
qed

lemma any1_run:
  assumes "digits ds" and "fraction_part fr" and "exponent_part ex" and "number_end t" and "ready s (ds @ fr @ ex @ t)"
  shows "finishes strtod (scan_number_any1 strtod ty s) (if fr @ ex = [] then ty else Value_Float)
    (token_buffer s @ ds @ fr @ ex) t"
  using assms(1,5)
proof (induction ds arbitrary: s)
  case Nil
  then have r: "ready s (fr @ ex @ t)" by simp
  have p: "scan_number_any1 strtod ty s = scan_number_decimal1 strtod (add 0x2E (get s))" if "current (get s) = 0x2E"
    using that by (subst scan_number_any1.simps) (simp add: Let_def digit_def)
  have e: "scan_number_any1 strtod ty s = scan_number_exponent strtod (add c (get s))"
    if "current (get s) = c" "c = 0x65 \<or> c = 0x45" for c
    using that by (subst scan_number_any1.simps) (auto simp: Let_def digit_def)
  have n: "scan_number_any1 strtod ty s = scan_number_done strtod ty (get s)" if "fr @ ex = []"
    using that current_next [OF r] assms(4) by (subst scan_number_any1.simps) (simp add: Let_def number_end_def)
  show ?case using fraction_or_done [OF assms(2,3) r assms(4) p e n] by simp
next
  case (Cons c ds)
  then have r: "ready s (c # ds @ fr @ ex @ t)" and d: "digit (of_char c)" "digits ds" by (simp_all add: digits_Cons)
  have "scan_number_any1 strtod ty s = scan_number_any1 strtod ty (add (of_char c) (get s))"
    using current_next_Cons [OF r] d(1) by (subst scan_number_any1.simps) (simp add: Let_def)
  then show ?case using Cons.IH [OF d(2), of "add (of_char c) (get s)"] get_ready [OF r] by simp
qed

lemma zero_run:
  assumes "fraction_part fr" and "exponent_part ex" and "number_end t" and "ready s (fr @ ex @ t)"
  shows "finishes strtod (scan_number_zero strtod ty s) (if fr @ ex = [] then ty else Value_Float)
    (token_buffer s @ fr @ ex) t"
proof -
  have p: "scan_number_zero strtod ty s = scan_number_decimal1 strtod (add 0x2E (get s))" if "current (get s) = 0x2E"
    using that by (simp add: scan_number_zero_def Let_def)
  have e: "scan_number_zero strtod ty s = scan_number_exponent strtod (add c (get s))"
    if "current (get s) = c" "c = 0x65 \<or> c = 0x45" for c
    using that by (auto simp: scan_number_zero_def Let_def)
  have n: "scan_number_zero strtod ty s = scan_number_done strtod ty (get s)" if "fr @ ex = []"
    using that current_next [OF assms(4)] assms(3) by (simp add: scan_number_zero_def Let_def number_end_def)
  show ?thesis using fraction_or_done [OF assms(1,2,4,3) p e n] by simp
qed


text \<open>The whole number, from its first character on.\<close>

definition number_token :: "bool \<Rightarrow> string \<Rightarrow> token_type" where
  "number_token neg rest = (if rest = [] then if neg then Value_Integer else Value_Unsigned else Value_Float)"

lemma number_rest:
  assumes "int_part (d # ds)" and "fraction_part fr" and "exponent_part ex" and "number_end t" and "ready s (ds @ fr @ ex @ t)"
  shows "finishes strtod (if of_char d = (0x30 :: int) then scan_number_zero strtod ty s else scan_number_any1 strtod ty s)
    (if fr @ ex = [] then ty else Value_Float) (token_buffer s @ ds @ fr @ ex) t"
proof (cases "d = CHR ''0''")
  case True
  then have "ds = []" using assms(1) by (simp add: int_part_def)
  then show ?thesis using zero_run [OF assms(2-4), of s strtod ty] assms(5) True by simp
next
  case False
  then have "of_char d \<noteq> (0x30 :: int)" using of_char_eq_iff [of d "CHR ''0''", where ?'a = int] by simp
  moreover have "digits ds" using assms(1) False by (simp add: int_part_def digits_Cons)
  ultimately show ?thesis using any1_run [OF _ assms(2-5)] by simp
qed

lemma scan_number_run:
  assumes "int_part ds" and "fraction_part fr" and "exponent_part ex" and "number_end t"
    and "on s c u" and "c # u = (if neg then ''-'' else []) @ ds @ fr @ ex @ t"
  shows "finishes strtod (scan_number strtod s) (number_token neg (fr @ ex)) ((if neg then ''-'' else []) @ ds @ fr @ ex) t"
proof -
  obtain d ds' where ds: "ds = d # ds'" and d: "digit (of_char d)" using assms(1)
    by (cases ds) (auto simp: int_part_def digits_Cons)
  have cur: "current (reset s) = of_char c" and r0: "ready (reset s) u" and b0: "token_buffer (reset s) = []"
    using assms(5) on_ready by (auto simp: on_def reset_def ready_def)
  note rest = number_rest [OF assms(1) [unfolded ds] assms(2-4)]
  show ?thesis
  proof (cases neg)
    case True
    then have c: "c = CHR ''-''" and u: "u = d # ds' @ fr @ ex @ t" using assms(6) ds by auto
    let ?s = "add 0x2D (reset s)"
    have r: "ready ?s (d # ds' @ fr @ ex @ t)" using r0 u by simp
    have "scan_number strtod s = scan_number_minus strtod ?s"
      using cur c by (simp add: scan_number_def Let_def)
    also have "\<dots> = (if of_char d = (0x30 :: int) then scan_number_zero strtod Value_Integer (add (of_char d) (get ?s))
        else scan_number_any1 strtod Value_Integer (add (of_char d) (get ?s)))"
      using current_next_Cons [OF r] d by (simp add: scan_number_minus_def Let_def)
    finally show ?thesis using rest [of "add (of_char d) (get ?s)" strtod Value_Integer] get_ready [OF r] b0 ds True
      by (simp only: number_token_def if_True) (simp add: char_of_codes)
  next
    case False
    then have c: "c = d" and u: "u = ds' @ fr @ ex @ t" using assms(6) ds by auto
    have "scan_number strtod s = (if of_char d = (0x30 :: int) then scan_number_zero strtod Value_Unsigned (add (of_char d) (reset s))
        else scan_number_any1 strtod Value_Unsigned (add (of_char d) (reset s)))"
      using cur c d digit_not_sign [OF d] by (simp add: scan_number_def Let_def)
    then show ?thesis using rest [of "add (of_char d) (reset s)" strtod Value_Unsigned] r0 u b0 ds False
      by (simp only: number_token_def if_False) simp
  qed
qed

text \<open>The value the token has in the lexer.\<close>

definition token_json :: "token_type \<times> lexer \<Rightarrow> json option" where
  "token_json r = token_value \<lparr>m_lexer = snd r, last_token = fst r\<rparr>"

lemma number_float_json: "token_json (number_float strtod s) = Some (J_Float (strtod (token_buffer s)))"
  by (simp add: token_json_def number_float_def token_value_def)

lemma finishes_value:
  assumes "finishes strtod r (number_token neg rest) ((if neg then ''-'' else []) @ ds @ rest) t"
  shows "token_json r = Some (number_value strtod neg ds rest)" and "ready (snd r) t"
proof -
  obtain s where r: "r = scan_number_done strtod (number_token neg rest) (get s)" and s: "ready s t"
    and b: "token_buffer s = (if neg then ''-'' else []) @ ds @ rest"
    using assms by (auto simp: finishes_def)
  show "token_json r = Some (number_value strtod neg ds rest)"
    using b unfolding r scan_number_done_def number_token_def number_value_def Let_def
    by (cases neg; cases "rest = []"; simp add: number_float_json strtoull_def strtoll_def Let_def split: option.split)
       (simp_all add: token_json_def token_value_def number_float_def)
  have "ready (unget (get s)) t" using ready_unget_get [OF s] .
  then show "ready (snd r) t" unfolding r scan_number_done_def Let_def
    by (cases t) (auto simp: ready_def number_float_def split: option.split)
qed

section \<open>Tokens\<close>

text \<open>Punctuation, and what each starts.\<close>

definition marks :: "(char \<times> token_type) list" where
  "marks = [(CHR ''['', Begin_Array), (CHR '']'', End_Array), (CHR ''{'', Begin_Object), (CHR ''}'', End_Object),
     (CHR '':'', Name_Separator), (CHR '','', Value_Separator)]"

lemma scan_mark:
  assumes "blank w" and "ready s (w @ c # t)" and "(c, ty) \<in> set marks"
  shows "\<exists>s'. scan strtod s = (ty, s') \<and> ready s' t"
proof -
  have "\<not> blank [c]" "c \<noteq> CHR ''/''" using assms(3) by (auto simp: marks_def blank_def)
  then obtain s' where s': "scan strtod s = scan_token strtod s'" "on s' c t" using scan_first [OF assms(1,2)] by blast
  have "scan_token strtod s' = (ty, s')" using assms(3) on_current [OF s'(2)]
    unfolding marks_def list.set insert_iff prod.inject empty_iff
    by (elim disjE conjE) (simp_all add: scan_token_def Let_def)
  then show ?thesis using s' on_ready by auto
qed

lemma scan_string_run:
  assumes "blank w" and "string_body b v" and "ready s (w @ CHR 0x22 # b @ CHR 0x22 # t)"
  shows "\<exists>s'. scan strtod s = (Value_String, s') \<and> token_buffer s' = v \<and> ready s' t"
proof -
  obtain s1 where s1: "scan strtod s = scan_token strtod s1" "on s1 (CHR 0x22) (b @ CHR 0x22 # t)"
    using scan_first [OF assms(1,3)] by (auto simp: blank_def)
  have "scan_token strtod s1 = scan_chars (reset s1)"
    using on_current [OF s1(2)] by (simp add: scan_token_def scan_string_def Let_def)
  moreover have "ready (reset s1) (b @ CHR 0x22 # t)" using on_ready [OF s1(2)] by simp
  ultimately show ?thesis using scan_body [OF assms(2), of "reset s1" t] s1(1) by (auto simp: reset_def)
qed

text \<open>The texts of one token that is a value.\<close>

definition token_text :: "(string \<Rightarrow> double) \<Rightarrow> string \<Rightarrow> json \<Rightarrow> bool" where
  "token_text strtod x j \<longleftrightarrow>
    (x, j) \<in> {(''null'', J_Null), (''true'', J_Bool True), (''false'', J_Bool False)} \<or> number_text strtod x j \<or>
    (\<exists>b v. string_body b v \<and> x = CHR 0x22 # b @ [CHR 0x22] \<and> j = J_String v)"

definition scans :: "(string \<Rightarrow> double) \<Rightarrow> lexer \<Rightarrow> json \<Rightarrow> string \<Rightarrow> bool" where
  "scans strtod s j t \<longleftrightarrow> token_json (scan strtod s) = Some j \<and> ready (snd (scan strtod s)) t
     \<and> (\<forall>d. j = J_Float d \<longrightarrow> isfinite d)"

lemma scan_word:
  assumes "blank w" and "ready s (w @ x @ t)"
    and "(x, j) \<in> {(''null'', J_Null), (''true'', J_Bool True), (''false'', J_Bool False)}"
  shows "scans strtod s j t"
proof -
  obtain c cs where x: "x = c # cs" "\<not> blank [c]" "c \<noteq> CHR ''/''" using assms(3) by (auto simp: blank_def)
  obtain s1 where s1: "scan strtod s = scan_token strtod s1" "on s1 c (cs @ t)"
    using scan_first [OF assms(1) _ x(2,3), of s "cs @ t"] assms(2) x(1) by auto
  have "\<exists>ty. scan_token strtod s1 = scan_literal cs ty s1 \<and> (\<forall>s2. token_json (ty, s2) = Some j)"
  proof -
    note defs = scan_token_def token_json_def token_value_def Let_def
    consider "x = ''null''" "j = J_Null" | "x = ''true''" "j = J_Bool True" | "x = ''false''" "j = J_Bool False"
      using assms(3) by auto
    then show ?thesis
    proof cases
      case 1
      then have "c = CHR ''n''" "cs = ''ull''" using x(1) by auto
      then show ?thesis using on_current [OF s1(2)] 1
        by (intro exI [of _ Literal_Null]) (simp add: defs del: scan_literal.simps)
    next
      case 2
      then have "c = CHR ''t''" "cs = ''rue''" using x(1) by auto
      then show ?thesis using on_current [OF s1(2)] 2
        by (intro exI [of _ Literal_True]) (simp add: defs del: scan_literal.simps)
    next
      case 3
      then have "c = CHR ''f''" "cs = ''alse''" using x(1) by auto
      then show ?thesis using on_current [OF s1(2)] 3
        by (intro exI [of _ Literal_False]) (simp add: defs del: scan_literal.simps)
    qed
  qed
  then obtain ty where ty: "scan_token strtod s1 = scan_literal cs ty s1" "\<And>s2. token_json (ty, s2) = Some j" by auto
  then obtain s2 where "scan strtod s = (ty, s2)" "ready s2 t"
    using scan_literal_run [OF on_ready [OF s1(2)], of ty] s1(1) by auto
  then show ?thesis using ty(2) assms(3) by (auto simp: scans_def)
qed

lemma scan_token_number:
  assumes "current s = 0x2D \<or> digit (current s)"
  shows "scan_token strtod s = scan_number strtod s"
proof -
  have "c \<notin> {0x5B, 0x5D, 0x7B, 0x7D, 0x3A, 0x2C, 0x74, 0x66, 0x6E, 0x22}" if "c = 0x2D \<or> digit c" for c
    using that by (elim disjE) (auto simp: digit_def)
  from this [OF assms] assms show ?thesis by (simp add: scan_token_def Let_def)
qed

lemma scan_number_text:
  assumes "blank w" and "number_text strtod x j" and "number_end t" and "ready s (w @ x @ t)"
  shows "scans strtod s j t"
  using assms(2)
proof cases
  case (1 ds fr ex neg)
  have parts: "int_part ds" "fraction_part fr" "exponent_part ex" using 1 by auto
  obtain c u where x: "x = c # u" "of_char c = (0x2D :: int) \<or> digit (of_char c)"
    using 1(1) parts(1) by (cases neg; cases ds) (auto simp: int_part_def digits_Cons)
  then have c: "\<not> blank [c]" "c \<noteq> CHR ''/''" by (auto simp: blank_def digit_def)
  have "ready s (w @ c # u @ t)" using assms(4) x(1) by simp
  then obtain s1 where s1: "scan strtod s = scan_token strtod s1" "on s1 c (u @ t)"
    using scan_first [OF assms(1) _ c] by blast
  have sn: "scan_token strtod s1 = scan_number strtod s1"
    using on_current [OF s1(2)] x(2) by (intro scan_token_number) simp
  have "c # u @ t = x @ t" using x(1) by simp
  then have "c # u @ t = (if neg then ''-'' else []) @ ds @ fr @ ex @ t" unfolding 1(1) by simp
  from finishes_value [OF scan_number_run [OF parts assms(3) s1(2) this, of strtod]]
  show ?thesis using s1(1) sn 1 by (simp add: scans_def)
qed

lemma scan_token_text:
  assumes "blank w" and "token_text strtod x j" and "number_end t" and "ready s (w @ x @ t)"
  shows "scans strtod s j t"
  using assms(2) unfolding token_text_def
proof (elim disjE exE conjE)
  fix b v
  assume b: "string_body b v" "x = CHR 0x22 # b @ [CHR 0x22]" "j = J_String v"
  then show "scans strtod s j t" using scan_string_run [OF assms(1) b(1), of s t strtod] assms(4)
    by (auto simp: scans_def token_json_def token_value_def)
qed (use assms scan_word scan_number_text in blast)+

end
