(* ===== verification/Grisu_Text.thy ===== *)
theory Grisu_Text
  imports Grisu Json_Grammar Json_Serializer
begin

text \<open>
  The text \<open>to_chars\<close> makes of the digits: a decimal number of the JSON grammar with a fraction or an
  exponent, whose exact value lies between the midpoints to the neighbouring doubles.
\<close>

section \<open>The value of a decimal text\<close>

definition fraction_text :: "string \<Rightarrow> string \<Rightarrow> bool" where
  "fraction_text fr fs \<longleftrightarrow> fr = [] \<and> fs = [] \<or> fr = CHR ''.'' # fs \<and> digits fs \<and> fs \<noteq> []"

definition exponent_text :: "string \<Rightarrow> int \<Rightarrow> bool" where
  "exponent_text ex e \<longleftrightarrow> ex = [] \<and> e = 0 \<or>
    (\<exists>c sg ds. ex = c # sg @ ds \<and> c \<in> {CHR ''e'', CHR ''E''} \<and> digits ds \<and> ds \<noteq> [] \<and>
      (sg \<in> {[], ''+''} \<and> e = int (decimal 0 ds) \<or> sg = ''-'' \<and> e = - int (decimal 0 ds)))"

text \<open>Sign and absolute value.\<close>

inductive decimal_text :: "string \<Rightarrow> bool \<Rightarrow> real \<Rightarrow> bool" where
  "int_part ds \<Longrightarrow> fraction_text fr fs \<Longrightarrow> exponent_text ex e \<Longrightarrow>
   decimal_text ((if neg then ''-'' else []) @ ds @ fr @ ex) neg (real (decimal 0 (ds @ fs)) * 10 powi (e - int (length fs)))"

text \<open>The double a real number is rounded to, apart from its sign, if it is no midpoint.\<close>

definition nearest :: "double \<Rightarrow> real \<Rightarrow> bool" where
  "nearest d v \<longleftrightarrow> (if d = 0 then v = 0 else midpoint_below d < v \<and> v < midpoint_above d)"

text \<open>
  What the C standard and IEEE 754 promise of \<open>strtod\<close> for one result: a decimal text whose value
  is rounded to \<open>d\<close> gives \<open>d\<close>.
\<close>

definition rounds_correctly :: "(string \<Rightarrow> double) \<Rightarrow> double \<Rightarrow> bool" where
  "rounds_correctly strtod d \<longleftrightarrow> (\<forall>t v. decimal_text t (bit d 63) v \<longrightarrow> nearest (take_bit 63 d) v \<longrightarrow> strtod t = d)"

section \<open>Digits as text\<close>

lemma decimal_from: "decimal a (map digit_char ns) = foldl (\<lambda>a d. 10 * a + d) a ns" if "\<forall>d \<in> set ns. d \<le> 9"
  using that by (induction ns arbitrary: a) (simp_all add: digit_char_less)

lemma decimal_digits: "\<forall>d \<in> set ns. d \<le> 9 \<Longrightarrow> decimal 0 (map digit_char ns) = digits_value ns"
  by (simp add: decimal_from digits_value_def)

lemma digits_digit_chars: "\<forall>d \<in> set ns. d \<le> 9 \<Longrightarrow> digits (map digit_char ns)"
  by (auto simp: digits_def digit_def digit_char_def of_char_byte)

lemma digits_value_zeros: "digits_value (ns @ replicate k 0) = digits_value ns * 10 ^ k"
  by (induction k) (simp_all add: replicate_append_same [symmetric] flip: append_assoc)

lemma digits_value_leading_zeros: "digits_value (replicate k 0 @ ns) = digits_value ns"
  by (induction k) (simp_all add: digits_value_def)

lemma zero_char [simp]: "digit_char 0 = CHR ''0''"
  using digit_char_zero [of 0] by simp

lemma int_part_digits: "leading ns \<Longrightarrow> ns \<noteq> [] \<Longrightarrow> int_part (map digit_char ns)"
  using digit_char_zero [of "hd ns"] digits_digit_chars [of ns]
  by (cases ns) (simp_all add: int_part_def leading_def)

lemma int_part_zero: "int_part (map digit_char [0])"
  using digits_digit_chars [of "[0]"] by (simp add: int_part_def)

section \<open>Formatting\<close>

text \<open>A text with a fraction or an exponent.\<close>

definition float_text :: "string \<Rightarrow> real \<Rightarrow> bool" where
  "float_text t v \<longleftrightarrow> (\<exists>ds fr fs ex e. t = ds @ fr @ ex \<and> int_part ds \<and> fraction_text fr fs \<and> exponent_text ex e \<and> fr @ ex \<noteq> [] \<and>
     v = real (decimal 0 (ds @ fs)) * 10 powi (e - int (length fs)))"

lemma append_exponent_result:
  assumes "-1000 < e" and "e < 1000"
  obtains t where "append_exponent e = Inr t" and "exponent_text (CHR ''e'' # t) e" and "length t \<le> 4"
proof -
  define k where "k = nat \<bar>e\<bar>"
  define ns where "ns = (if k < 10 then [0, k] else if k < 100 then [k div 10, k mod 10] else [k div 100, k mod 100 div 10, k mod 100 mod 10])"
  have k: "k < 1000" using assms by (simp add: k_def)
  have n9: "\<forall>d \<in> set ns. d \<le> 9" using k by (auto simp: ns_def)
  have "digits_value ns = k"
  proof -
    have "k = 100 * (k div 100) + 10 * (k mod 100 div 10) + k mod 100 mod 10" by simp
    then show ?thesis by (simp add: ns_def digits_value_def)
  qed
  then have v: "decimal 0 (map digit_char ns) = k" using decimal_digits [OF n9] by simp
  define t where "t = (if e < 0 then CHR ''-'' else CHR ''+'') # map digit_char ns"
  have "append_exponent e = Inr t"
    using assms digit_char_zero [of 0] by (simp add: append_exponent_def json_assert_def Let_def t_def ns_def k_def [symmetric])
  moreover have "exponent_text (CHR ''e'' # t) e"
  proof -
    have "int k = \<bar>e\<bar>" by (simp add: k_def)
    then have "e < 0 \<Longrightarrow> e = - int k" "\<not> e < 0 \<Longrightarrow> e = int k" by simp_all
    moreover have "ns \<noteq> []" by (simp add: ns_def)
    ultimately show ?thesis using v digits_digit_chars [OF n9] unfolding exponent_text_def t_def
      by (intro disjI2 exI [of _ "CHR ''e''"] exI [of _ "if e < 0 then ''-'' else ''+''"] exI [of _ "map digit_char ns"]) auto
  qed
  moreover have "length t \<le> 4" by (simp add: t_def ns_def)
  ultimately show thesis by (rule that)
qed

lemma float_textI:
  assumes "int_part (map digit_char as)" and "\<forall>d \<in> set (as @ bs). d \<le> 9"
    and "fraction_text fr (map digit_char bs)" and "exponent_text ex e" and "fr @ ex \<noteq> []" and "e - int (length bs) = x"
  shows "float_text (map digit_char as @ fr @ ex) (real (digits_value (as @ bs)) * 10 powi x)"
  using assms decimal_digits [OF assms(2)] unfolding float_text_def
  by (intro exI [of _ "map digit_char as"] exI [of _ fr] exI [of _ "map digit_char bs"] exI [of _ ex] exI [of _ e]) auto

lemma no_exponent: "exponent_text [] 0"
  by (simp add: exponent_text_def)

lemma point_digits: "bs \<noteq> [] \<Longrightarrow> \<forall>d \<in> set bs. d \<le> 9 \<Longrightarrow> fraction_text (CHR ''.'' # map digit_char bs) (map digit_char bs)"
  by (simp add: fraction_text_def digits_digit_chars)

lemma leading_take: "leading ns \<Longrightarrow> leading (take n ns)"
  by (cases ns; cases n) (auto simp: leading_def dest: in_set_takeD)

lemma integral_format:
  assumes "shortened ns" and "0 \<le> x"
  shows "float_text (map digit_char ns @ replicate (nat x) CHR ''0'' @ ''.0'') (real (digits_value ns) * 10 powi x)"
proof -
  let ?as = "ns @ replicate (nat x) 0"
  have ns: "\<forall>d \<in> set ns. d \<le> 9" "ns \<noteq> []" "leading ns" using assms(1) by (auto simp: shortened_def leading_def)
  then have a: "leading ?as" "?as \<noteq> []" by (auto simp: leading_def)
  have "float_text (map digit_char ?as @ (CHR ''.'' # map digit_char [0]) @ []) (real (digits_value (?as @ [0])) * 10 powi (-1))"
    by (rule float_textI [OF int_part_digits [OF a] _ point_digits no_exponent]) (use ns(1) in auto)
  moreover have "real (digits_value (?as @ [0])) * 10 powi (-1) = real (digits_value ns) * 10 powi x"
    using assms(2) by (simp add: digits_value_zeros power_int_def flip: append_assoc)
  ultimately show ?thesis by simp
qed

lemma mixed_format:
  assumes "shortened ns" and "0 < n" and "n < length ns"
  shows "float_text (take n (map digit_char ns) @ ''.'' @ drop n (map digit_char ns))
    (real (digits_value ns) * 10 powi (int n - int (length ns)))"
proof -
  have ns: "\<forall>d \<in> set ns. d \<le> 9" "leading ns" using assms(1) by (auto simp: shortened_def leading_def)
  have d: "drop n ns \<noteq> []" "take n ns \<noteq> []" using assms(2,3) by auto
  have d9: "\<forall>d \<in> set (drop n ns). d \<le> 9" using ns(1) by (auto dest: in_set_dropD)
  show ?thesis
    using float_textI [OF int_part_digits [OF leading_take [OF ns(2)] d(2)] _ point_digits [OF d(1) d9] no_exponent, of "int n - int (length ns)"]
      ns(1) assms(3) by (simp add: take_map drop_map)
qed

lemma small_format:
  assumes "shortened ns"
  shows "float_text (''0.'' @ replicate m CHR ''0'' @ map digit_char ns) (real (digits_value ns) * 10 powi (- int m - int (length ns)))"
proof -
  let ?bs = "replicate m 0 @ ns"
  have ns: "\<forall>d \<in> set ?bs. d \<le> 9" "?bs \<noteq> []" using assms by (auto simp: shortened_def leading_def)
  have "digits_value ([0] @ ?bs) = digits_value ns"
    using digits_value_leading_zeros [of "Suc m" ns] by simp
  then show ?thesis
    using float_textI [OF int_part_zero _ point_digits [OF ns(2,1)] no_exponent, of "- int m - int (length ns)"] ns(1)
      by simp
qed

lemma exponent_format:
  assumes "shortened ns" and "exponent_text ex e"  and "ex \<noteq> []"
  shows "float_text ((if length ns = 1 then map digit_char ns else take 1 (map digit_char ns) @ ''.'' @ drop 1 (map digit_char ns)) @ ex)
    (real (digits_value ns) * 10 powi (e - int (length ns) + 1))"
proof -
  have ns: "\<forall>d \<in> set ns. d \<le> 9" "leading ns" "ns \<noteq> []" using assms(1) by (auto simp: shortened_def leading_def)
  show ?thesis
  proof (cases "length ns = 1")
    case True
    then show ?thesis
      using float_textI [OF int_part_digits [OF ns(2,3)], of "[]" "[]" ex e] ns(1) assms(2,3) by (simp add: fraction_text_def)
  next
    case False
    then have l: "1 < length ns" using ns(3) by (cases ns) auto
    then have d: "drop 1 ns \<noteq> []" "take 1 ns \<noteq> []" using ns(3) by auto
    have d9: "\<forall>d \<in> set (drop 1 ns). d \<le> 9" using ns(1) by (auto dest: in_set_dropD)
    have "take 1 ns @ drop 1 ns = ns" by (rule append_take_drop_id)
    then show ?thesis
      using float_textI [OF int_part_digits [OF leading_take [OF ns(2)] d(2)] _ point_digits [OF d(1) d9] assms(2), of "e - int (length ns) + 1"]
        ns(1) l False by (simp add: take_map drop_map del: take_append drop_append append_take_drop_id)
  qed
qed

lemma format_buffer_result:
  assumes "shortened ns" and "length ns \<le> 17" and "-400 \<le> x" and "x \<le> 400"
  obtains t where "format_buffer (map digit_char ns) x (-4) 15 = Inr t"
    and "float_text t (real (digits_value ns) * 10 powi x)" and "length t \<le> 23"
proof -
  define n where "n = int (length ns) + x"
  have ns: "ns \<noteq> []" using assms(1) by (simp add: shortened_def)
  have l: "length ns = Suc 0 \<longleftrightarrow> int (length ns) = 1" by simp
  note defs = format_buffer_def json_assert_def Let_def n_def [symmetric] l [symmetric]
  consider "int (length ns) \<le> n" "n \<le> 15" | "\<not> int (length ns) \<le> n" "0 < n" "n \<le> 15" | "-4 < n" "n \<le> 0" | "n \<le> -4 \<or> 15 < n" by linarith
  then show thesis
  proof cases
    case 1
    then have x: "0 \<le> x" "n - int (length ns) = x" by (simp_all add: n_def)
    moreover have "length ns + nat x \<le> 15" using 1 by (simp add: n_def)
    ultimately show ?thesis using integral_format [OF assms(1) x(1)] 1
      by (intro that) (simp add: defs, simp, simp)
  next
    case 2
    moreover from 2 have "int (nat n) - int (length ns) = x" by (simp add: n_def)
    ultimately show ?thesis using mixed_format [OF assms(1), of "nat n"] assms(2)
      by (intro that) (simp add: defs nat_less_iff, simp add: nat_less_iff, simp)
  next
    case 3
    moreover from 3 have "- int (nat (- n)) - int (length ns) = x" by (simp add: n_def)
    moreover have "\<not> int (length ns) \<le> n" using 3 ns by (cases ns) simp_all
    ultimately show ?thesis using small_format [OF assms(1), of "nat (- n)"] assms(2) by (intro that) (simp add: defs, simp, simp)
  next
    case 4
    obtain ex where ex: "append_exponent (n - 1) = Inr ex" "exponent_text (CHR ''e'' # ex) (n - 1)" "length ex \<le> 4"
      by (rule append_exponent_result [of "n - 1"]) (use assms in \<open>simp_all add: n_def\<close>)
    have "n - 1 - int (length ns) + 1 = x" by (simp add: n_def)
    then show ?thesis using exponent_format [OF assms(1) ex(2)] 4 ex(1,3) ns assms(2)
      by (intro that) (auto simp: defs)
  qed
qed

section \<open>Printing a double\<close>

lemma sign_bit: "unat (take_bit 63 d) < 2 ^ 63" for d :: double
  unfolding unsigned_take_bit_eq by (rule take_bit_nat_less_exp)

lemma isfinite_abs: "isfinite (take_bit 63 d) \<longleftrightarrow> isfinite d"
proof -
  have "take_bit 11 e AND 2047 = e AND 2047" for e :: u64
    using take_bit_eq_mask [of 11 e] take_bit_eq_mask [of 11 "take_bit 11 e"] by (simp add: mask_eq_exp_minus_1)
  then show ?thesis by (simp add: isfinite_def double_exponent_def drop_bit_take_bit)
qed

lemma zero_decimal: "decimal_text ((if neg then ''-'' else []) @ ''0.0'') neg 0"
  using decimal_text.intros [where ds = "''0''" and fr = "''.0''" and fs = "''0''" and ex = "[]" and e = 0 and neg = neg]
  by (simp add: int_part_def digits_def digit_def fraction_text_def exponent_text_def)

lemma fraction_text_part: "fraction_text fr fs \<Longrightarrow> fraction_part fr"
  by (auto simp: fraction_text_def fraction_part_def)

lemma exponent_text_part: "exponent_text ex e \<Longrightarrow> exponent_part ex"
  by (auto simp: exponent_text_def exponent_part_def)

text \<open>The text of a finite double.\<close>

definition double_text :: "double \<Rightarrow> string \<Rightarrow> bool" where
  "double_text d t \<longleftrightarrow> (\<exists>u v. t = (if bit d 63 then ''-'' else []) @ u \<and> float_text u v \<and> nearest (take_bit 63 d) v)"

lemma to_chars_result:
  assumes "isfinite d" and "24 \<le> cap"
  obtains t where "to_chars cap d = Inr t" and "double_text d t" and "length t \<le> 24"
proof (cases "take_bit 63 d = 0")
  case True
  have "float_text ''0.0'' 0"
    using float_textI [OF int_part_zero _ point_digits [of "[0]"] no_exponent, of "-1"] by (simp add: digits_value_def)
  then have "double_text d ((if bit d 63 then ''-'' else []) @ ''0.0'')"
    using True unfolding double_text_def nearest_def by (intro exI conjI) auto
  then show thesis using True assms(1) by (intro that) (simp add: to_chars_def json_assert_def Let_def, assumption, simp)
next
  case False
  let ?sign = "if bit d 63 then ''-'' else []"
  have cap: "23 \<le> cap - length ?sign" using assms(2) by auto
  have fin: "isfinite (take_bit 63 d)" using assms(1) by (simp add: isfinite_abs)
  have c17: "17 \<le> cap - length ?sign" using cap by linarith
  obtain ns x where g: "grisu2 (cap - length ?sign) (take_bit 63 d) = Inr (map digit_char ns, x)" "shortened ns" "length ns \<le> 17"
    "-400 \<le> x" "x \<le> 400" "midpoint_below (take_bit 63 d) < real (digits_value ns) * 10 powi x"
    "real (digits_value ns) * 10 powi x < midpoint_above (take_bit 63 d)"
    by (rule grisu2_result [OF sign_bit fin False c17])
  obtain u where u: "format_buffer (map digit_char ns) x (-4) 15 = Inr u" "float_text u (real (digits_value ns) * 10 powi x)" "length u \<le> 23"
    by (rule format_buffer_result [OF g(2-5)])
  have "to_chars cap d = Inr (?sign @ u)"
    using False assms(1) g(1,3) u(1) cap by (simp add: to_chars_def json_assert_def Let_def)
  moreover have "double_text d (?sign @ u)" using u(2) g(6,7) False by (auto simp: double_text_def nearest_def)
  moreover have "length (?sign @ u) \<le> 24" using u(3) by simp
  ultimately show thesis by (rule that)
qed

lemma double_text_decimal:
  assumes "double_text d t"
  obtains v where "decimal_text t (bit d 63) v" and "nearest (take_bit 63 d) v"
proof -
  obtain ds fr fs ex e where t: "t = (if bit d 63 then ''-'' else []) @ ds @ fr @ ex" "int_part ds" "fraction_text fr fs" "exponent_text ex e"
    "nearest (take_bit 63 d) (real (decimal 0 (ds @ fs)) * 10 powi (e - int (length fs)))"
    using assms by (auto simp: double_text_def float_text_def)
  show thesis by (rule that [OF _ t(5)]) (unfold t(1), rule decimal_text.intros [OF t(2-4)])
qed

text \<open>A correctly rounding \<open>strtod\<close> reads the double back.\<close>

lemma double_text_number:
  assumes "double_text d t" and "isfinite d" and "rounds_correctly strtod d"
  shows "number_text strtod t (J_Float d)"
proof -
  obtain ds fr fs ex e where t: "t = (if bit d 63 then ''-'' else []) @ ds @ fr @ ex" "int_part ds" "fraction_text fr fs" "exponent_text ex e"
    "fr @ ex \<noteq> []" using assms(1) by (auto simp: double_text_def float_text_def)
  have "strtod t = d" using double_text_decimal [OF assms(1)] assms(3) by (metis rounds_correctly_def)
  then have "number_value strtod (bit d 63) ds (fr @ ex) = J_Float d"
    using t(5) unfolding t(1) number_value_def by (cases "fr @ ex") (auto simp: Let_def)
  then show ?thesis unfolding t(1)
    by (intro number_text.intros t(2) fraction_text_part [OF t(3)] exponent_text_part [OF t(4)]) (use assms(2) in auto)
qed

end
