(* ===== verification/Json_Complete.thy ===== *)
theory Json_Complete
  imports Json_Grammar
begin

text \<open>
  The parser accepts the grammar: from a text \<open>json_text\<close> relates to a value, followed by
  anything that does not continue it, the loop of \<open>sax_parse_internal\<close> stops behind the text
  with the value written into the tree; a \<open>document\<close> parses to its value.
\<close>

section \<open>Pointers into the tree\<close>

lemma map_of_change: "map_of (map_change k f es) = (map_of es)(k := map_option f (map_of es k))"
  by (induction k f es rule: map_change.induct) (auto simp: fun_eq_iff)

lemma keys_map_change: "map fst (map_change k f es) = map fst es"
  by (induction k f es rule: map_change.induct) auto

lemma at_append: "at_path (p @ q) j = Option.bind (at_path p j) (at_path q)"
  by (induction p j rule: at_path.induct) (auto split: option.split)

lemma change_append: "change_at (p @ q) f j = change_at p (change_at q f) j"
proof (induction p f j rule: change_at.induct)
  case (3 k p f ms)
  then have "change_at (p @ q) f = change_at p (change_at q f)" by (simp add: fun_eq_iff)
  then show ?case by simp
qed auto

lemma at_change:
  "at_path p j = Some x \<Longrightarrow> at_path p (change_at p f j) = Some (f x)"
  by (induction p f j rule: change_at.induct) (auto simp: map_of_change split: if_splits option.splits)

lemma change_change:
  "at_path p j = Some x \<Longrightarrow> change_at p f (change_at p g j) = change_at p (\<lambda>y. f (g y)) j"
proof (induction p j arbitrary: f g rule: at_path.induct)
  case (3 k p ms)
  then obtain y where y: "map_of ms k = Some y" "at_path p y = Some x" by (auto split: option.splits)
  have "map_change k (change_at p f) (map_change k (change_at p g) ms) = map_change k (change_at p (\<lambda>y. f (g y))) ms"
    using y(1) 3(1) [OF y] by (induction ms) auto
  then show ?case by simp
qed (auto split: if_splits)

lemma change_cong: "at_path p j = Some x \<Longrightarrow> f x = g x \<Longrightarrow> change_at p f j = change_at p g j"
proof (induction p j rule: at_path.induct)
  case (3 k p ms)
  then obtain y where y: "map_of ms k = Some y" "at_path p y = Some x" by (auto split: option.splits)
  have "map_change k (change_at p f) ms = map_change k (change_at p g) ms"
    using y(1) 3(1) [OF y 3(3)] by (induction ms) auto
  then show ?case by simp
qed (auto split: if_splits)

text \<open>A key that is added and then given a value is put.\<close>

lemma change_emplace:
  assumes "key_order ms"
  shows "map_change k (\<lambda>_. v) (map_emplace (k, n) ms) = map_put k v ms"
proof (rule key_order_unique)
  show "key_order (map_change k (\<lambda>_. v) (map_emplace (k, n) ms))"
    using assms keys_map_change [of k "\<lambda>_. v" "map_emplace (k, n) ms"]
    by (simp add: map_emplace_def key_order_def) (simp add: key_order_map_put [unfolded key_order_def])
  show "map_of (map_change k (\<lambda>_. v) (map_emplace (k, n) ms)) = map_of (map_put k v ms)"
    using assms by (auto simp: map_of_change map_emplace_def map_of_map_put fun_eq_iff)
qed (rule key_order_map_put [OF assms])

section \<open>Placing a value\<close>

text \<open>The builder waits for a value.\<close>

definition waits :: "dom_parser \<Rightarrow> bool" where
  "waits d = (case ref_stack d of
      [] \<Rightarrow> True
    | p # _ \<Rightarrow> (case at_path p (root d) of
        Some (J_Array xs) \<Rightarrow> True
      | Some (J_Object ms) \<Rightarrow> (\<exists>k. object_element d = Some (p @ [Key k]) \<and> map_of ms k \<noteq> None)
      | _ \<Rightarrow> False))"

definition same_state :: "dom_parser \<Rightarrow> dom_parser \<Rightarrow> bool" where
  "same_state d d' \<longleftrightarrow> errored d' = errored d \<and> allow_exceptions d' = allow_exceptions d"

definition placed :: "json \<Rightarrow> dom_parser \<Rightarrow> dom_parser \<Rightarrow> bool" where
  "placed j d d' \<longleftrightarrow> root d' = root (snd (handle_value j d)) \<and> ref_stack d' = ref_stack d \<and> same_state d d'"

lemma same_state_trans: "same_state d d' \<Longrightarrow> same_state d' d'' \<Longrightarrow> same_state d d''"
  by (simp add: same_state_def)

lemma handle_value_cases:
  assumes "waits d"
  obtains
    (root) "ref_stack d = []" "\<And>v. handle_value v d = ([], d\<lparr>root := v\<rparr>)"
  | (element) p ps xs where "ref_stack d = p # ps" "at_path p (root d) = Some (J_Array xs)"
      "\<And>v. handle_value v d = (p @ [Index (length xs)], d\<lparr>root := change_at p (\<lambda>_. J_Array (xs @ [v])) (root d)\<rparr>)"
  | (member) p ps ms k y where "ref_stack d = p # ps" "at_path p (root d) = Some (J_Object ms)" "map_of ms k = Some y"
      "\<And>v. handle_value v d = (p @ [Key k], d\<lparr>root := change_at (p @ [Key k]) (\<lambda>_. v) (root d)\<rparr>)"
  using assms that unfolding waits_def
  by (auto simp: handle_value_def write_at_def split: list.splits option.splits json.splits)

lemma handle_value_state:
  assumes "waits d"
  shows "ref_stack (snd (handle_value v d)) = ref_stack d" "same_state d (snd (handle_value v d))"
  using assms by (cases rule: handle_value_cases; simp add: same_state_def)+

text \<open>The pointer leads to the value, and a change there is a change of the value placed.\<close>

lemma handle_value_at:
  assumes "waits d"
  shows "at_path (fst (handle_value v d)) (root (snd (handle_value v d))) = Some v"
  using assms
proof (cases rule: handle_value_cases)
  case (member p ps ms k y)
  have "at_path (p @ [Key k]) (root d) = Some y" using member(2,3) by (simp add: at_append)
  then show ?thesis using at_change member(4) by simp
qed (auto simp: at_append at_change)

lemma handle_value_change:
  assumes "waits d"
  shows "change_at (fst (handle_value v d)) (\<lambda>_. v') (root (snd (handle_value v d))) = root (snd (handle_value v' d))"
  using assms
proof (cases rule: handle_value_cases)
  case (element p ps xs)
  then show ?thesis by (simp add: change_append change_change)
next
  case (member p ps ms k y)
  have "at_path (p @ [Key k]) (root d) = Some y" using member(2,3) by (simp add: at_append)
  then show ?thesis using change_change member(4) by simp
qed simp

section \<open>Steps of the loop\<close>

lemma get_token_scan:
  "scan strtod (m_lexer p) = (ty, l) \<Longrightarrow> get_token strtod p = \<lparr>m_lexer = l, last_token = ty\<rparr>"
  by (cases p) (simp add: get_token_def)

lemma sax_step:
  "parse_step strtod s = Go_On s' \<Longrightarrow> sax_parse_internal strtod s = sax_parse_internal strtod s'"
  by (subst sax_parse_internal.simps) simp

text \<open>Going on after a value that is placed is the same as the rest of its round.\<close>

lemma sax_after_value:
  assumes "parse_value strtod (states, p, d) = Go_On (Inr (p', d'))"
  shows "sax_parse_internal strtod (False, states, p, d) = sax_parse_internal strtod (True, states, p', d')"
proof -
  have "parse_step strtod (False, states, p, d) = parse_step strtod (True, states, p', d')"
    using assms by (simp add: parse_step_def)
  then show ?thesis by (subst (1 2) sax_parse_internal.simps) simp
qed

lemma sax_begin:
  assumes "parse_value strtod (states, p, d) = Go_On (Inl s)"
  shows "sax_parse_internal strtod (False, states, p, d) = sax_parse_internal strtod (False, s)"
  using assms by (intro sax_step) (simp add: parse_step_def)

lemma sax_rest:
  assumes "parse_rest strtod (states, p, d) = Go_On s"
  shows "sax_parse_internal strtod (True, states, p, d) = sax_parse_internal strtod s"
  using assms by (intro sax_step) (simp add: parse_step_def)

section \<open>Values\<close>

definition parses_value :: "(string \<Rightarrow> double) \<Rightarrow> string \<Rightarrow> json \<Rightarrow> bool" where
  "parses_value strtod t j \<longleftrightarrow> (\<forall>w rest p d states.
     blank w \<longrightarrow> number_end rest \<longrightarrow> ready (m_lexer p) (w @ t @ rest) \<longrightarrow> waits d \<longrightarrow>
     last_token (get_token strtod p) \<noteq> End_Array \<and>
     (\<exists>p' d'. sax_parse_internal strtod (False, states, get_token strtod p, d) = sax_parse_internal strtod (True, states, p', d')
        \<and> ready (m_lexer p') rest \<and> placed j d d'))"

definition parses_elements :: "(string \<Rightarrow> double) \<Rightarrow> string \<Rightarrow> json list \<Rightarrow> bool" where
  "parses_elements strtod t js \<longleftrightarrow> (\<forall>rest p d states q qs xs.
     ready (m_lexer p) (t @ CHR '']'' # rest) \<longrightarrow> ref_stack d = q # qs \<longrightarrow> at_path q (root d) = Some (J_Array xs) \<longrightarrow>
     last_token (get_token strtod p) \<noteq> End_Array \<and>
     (\<exists>p' d'. sax_parse_internal strtod (False, True # states, get_token strtod p, d) = sax_parse_internal strtod (True, states, p', d')
        \<and> ready (m_lexer p') rest \<and> root d' = change_at q (\<lambda>_. J_Array (xs @ js)) (root d)
        \<and> ref_stack d' = qs \<and> same_state d d'))"

definition parses_members :: "(string \<Rightarrow> double) \<Rightarrow> string \<Rightarrow> (string \<times> json) list \<Rightarrow> bool" where
  "parses_members strtod t ms \<longleftrightarrow> (\<forall>rest p d states q qs es.
     ready (m_lexer p) (t @ CHR ''}'' # rest) \<longrightarrow> ref_stack d = q # qs \<longrightarrow> at_path q (root d) = Some (J_Object es) \<longrightarrow>
     key_order es \<longrightarrow>
     last_token (get_token strtod p) \<noteq> End_Object \<and>
     (\<exists>s p' d'. parse_member strtod (False # states, get_token strtod p, d) = Go_On s
        \<and> sax_parse_internal strtod (False, s) = sax_parse_internal strtod (True, states, p', d')
        \<and> ready (m_lexer p') rest \<and> root d' = change_at q (\<lambda>_. J_Object (sm.put_all ms es)) (root d)
        \<and> ref_stack d' = qs \<and> same_state d d'))"

lemma token_text_parses:
  assumes "token_text strtod t j"
  shows "parses_value strtod t j"
  unfolding parses_value_def
proof (intro allI impI)
  fix w rest states and d :: dom_parser and p :: parser
  assume a: "blank w" "number_end rest" "ready (m_lexer p) (w @ t @ rest)" "waits d"
  obtain ty l where sc: "scan strtod (m_lexer p) = (ty, l)" by (cases "scan strtod (m_lexer p)")
  have v: "token_value \<lparr>m_lexer = l, last_token = ty\<rparr> = Some j" "ready l rest" "\<forall>x. j = J_Float x \<longrightarrow> isfinite x"
    using scan_token_text [OF a(1) assms a(2,3)] sc by (simp_all add: scans_def token_json_def)
  let ?p = "\<lparr>m_lexer = l, last_token = ty\<rparr>"
  have "parse_value strtod (states, ?p, d) = Go_On (Inr (?p, snd (handle_value j d)))"
    using v(1,3) by (cases ty) (auto simp: parse_value_def token_value_def)
  moreover have "ty \<noteq> End_Array" using v(1) by (auto simp: token_value_def)
  ultimately show "last_token (get_token strtod p) \<noteq> End_Array \<and>
      (\<exists>p' d'. sax_parse_internal strtod (False, states, get_token strtod p, d) = sax_parse_internal strtod (True, states, p', d')
      \<and> ready (m_lexer p') rest \<and> placed j d d')"
    using sax_after_value v(2) handle_value_state [OF a(4)] get_token_scan [OF sc]
    by (intro conjI exI [of _ ?p] exI [of _ "snd (handle_value j d)"])
      (simp_all add: placed_def)
qed

section \<open>Containers\<close>

lemma start_container_state:
  fixes v :: json
  assumes "waits d"
  defines "q \<equiv> fst (handle_value v d)" and "d1 \<equiv> start_container v d"
  shows "ref_stack d1 = q # ref_stack d" "at_path q (root d1) = Some v" "same_state d d1"
    and "root d' = change_at q (\<lambda>_. v') (root d1) \<Longrightarrow> ref_stack d' = ref_stack d \<Longrightarrow> same_state d1 d' \<Longrightarrow> placed v' d d'"
  using handle_value_state [OF assms(1), of v] handle_value_at [OF assms(1), of v]
    handle_value_change [OF assms(1), of v v']
  by (auto simp: q_def d1_def start_container_def same_state_def placed_def case_prod_beta)

lemma get_mark:
  assumes "blank w" and "ready (m_lexer p) (w @ c # t)" and "(c, ty) \<in> set marks"
  shows "last_token (get_token strtod p) = ty" "ready (m_lexer (get_token strtod p)) t"
  using scan_mark [OF assms, of strtod] get_token_scan by fastforce+

lemma parse_begin:
  assumes "blank w" and "ready (m_lexer p) (w @ c # t)"
  shows "c = CHR ''['' \<Longrightarrow> parse_value strtod (states, get_token strtod p, d) = parse_begin_array strtod (states, get_token strtod p, d)"
    and "c = CHR ''{'' \<Longrightarrow> parse_value strtod (states, get_token strtod p, d) = parse_begin_object strtod (states, get_token strtod p, d)"
  using get_mark(1) [OF assms] by (simp_all add: parse_value_def marks_def)

text \<open>An empty container.\<close>

lemma end_start_placed: "waits d \<Longrightarrow> placed v d (end_container (start_container v d))"
  using handle_value_state [of d v]
  by (simp add: placed_def end_container_def start_container_def same_state_def case_prod_beta)

lemma parses_empty:
  assumes "blank w"
  shows "parses_value strtod (CHR ''['' # w @ '']'') (J_Array [])" "parses_value strtod (CHR ''{'' # w @ ''}'') (J_Object [])"
proof -
  have *: "last_token (get_token strtod p) \<noteq> End_Array \<and>
     (\<exists>p' d'. sax_parse_internal strtod (False, states, get_token strtod p, d) = sax_parse_internal strtod (True, states, p', d')
        \<and> ready (m_lexer p') rest \<and> placed v d d')"
    if "blank u" "ready (m_lexer p) (u @ (c # w @ [e]) @ rest)" "waits d"
      "(c, e, v) = (CHR ''['', CHR '']'', J_Array []) \<or> (c, e, v) = (CHR ''{'', CHR ''}'', J_Object [])"
    for u p c e rest d v and states :: "bool list"
  proof -
    let ?p = "get_token strtod p"
    have r: "ready (m_lexer p) (u @ c # w @ e # rest)" using that(2) by simp
    have t: "last_token ?p = (if c = CHR ''['' then Begin_Array else Begin_Object)" "ready (m_lexer ?p) (w @ e # rest)"
      using get_mark [OF that(1) r, of _ strtod] that(4) by (auto simp: marks_def)
    have e: "last_token (get_token strtod ?p) = (if c = CHR ''['' then End_Array else End_Object)"
      "ready (m_lexer (get_token strtod ?p)) rest"
      using get_mark [OF assms t(2), of _ strtod] that(4) by (auto simp: marks_def)
    have "parse_value strtod (states, ?p, d) = Go_On (Inr (get_token strtod ?p, end_container (start_container v d)))"
      using that(4) e(1) parse_begin [OF that(1) r]
      by (auto simp: parse_begin_array_def parse_begin_object_def Let_def start_array_def start_object_def)
    from sax_after_value [OF this] show ?thesis using e(2) end_start_placed [OF that(3), of v] t(1)
      by (intro conjI exI [of _ "get_token strtod ?p"] exI [of _ "end_container (start_container v d)"]) simp_all
  qed
  show "parses_value strtod (CHR ''['' # w @ '']'') (J_Array [])" "parses_value strtod (CHR ''{'' # w @ ''}'') (J_Object [])"
    unfolding parses_value_def using * by blast+
qed

text \<open>A container with elements or members.\<close>

lemma parses_array:
  assumes "parses_elements strtod t js"
  shows "parses_value strtod (CHR ''['' # t @ '']'') (J_Array js)"
  unfolding parses_value_def
proof (intro allI impI)
  fix w rest states and d :: dom_parser and p :: parser
  assume a: "blank w" "number_end rest" "ready (m_lexer p) (w @ (CHR ''['' # t @ '']'') @ rest)" "waits d"
  let ?p = "get_token strtod p" and ?d = "start_array d"
  have r: "ready (m_lexer p) (w @ CHR ''['' # t @ CHR '']'' # rest)" using a(3) by simp
  have t: "last_token ?p = Begin_Array" "ready (m_lexer ?p) (t @ CHR '']'' # rest)"
    using get_mark [OF a(1) r, of _ strtod] by (auto simp: marks_def)
  note st = start_container_state [where v = "J_Array []", OF a(4), folded start_array_def]
  obtain p' d' where e: "last_token (get_token strtod ?p) \<noteq> End_Array"
    "sax_parse_internal strtod (False, True # states, get_token strtod ?p, ?d) = sax_parse_internal strtod (True, states, p', d')"
    "ready (m_lexer p') rest" "root d' = change_at (fst (handle_value (J_Array []) d)) (\<lambda>_. J_Array js) (root ?d)"
    "ref_stack d' = ref_stack d" "same_state ?d d'"
    using assms [unfolded parses_elements_def, rule_format, OF t(2) st(1,2), of states] by auto
  have "parse_value strtod (states, ?p, d) = Go_On (Inl (True # states, get_token strtod ?p, ?d))"
    using e(1) parse_begin(1) [OF a(1) r] by (simp add: parse_begin_array_def Let_def)
  then have "sax_parse_internal strtod (False, states, ?p, d) = sax_parse_internal strtod (True, states, p', d')"
    using sax_begin e(2) by simp
  then show "last_token ?p \<noteq> End_Array \<and>
      (\<exists>p' d'. sax_parse_internal strtod (False, states, ?p, d) = sax_parse_internal strtod (True, states, p', d')
      \<and> ready (m_lexer p') rest \<and> placed (J_Array js) d d')"
    using e(3) st(4) [OF e(4-6)] t(1) by auto
qed

lemma parses_object:
  assumes "parses_members strtod t ms"
  shows "parses_value strtod (CHR ''{'' # t @ ''}'') (J_Object (sm.put_all ms []))"
  unfolding parses_value_def
proof (intro allI impI)
  fix w rest states and d :: dom_parser and p :: parser
  assume a: "blank w" "number_end rest" "ready (m_lexer p) (w @ (CHR ''{'' # t @ ''}'') @ rest)" "waits d"
  let ?p = "get_token strtod p" and ?d = "start_object d"
  have r: "ready (m_lexer p) (w @ CHR ''{'' # t @ CHR ''}'' # rest)" using a(3) by simp
  have t: "last_token ?p = Begin_Object" "ready (m_lexer ?p) (t @ CHR ''}'' # rest)"
    using get_mark [OF a(1) r, of _ strtod] by (auto simp: marks_def)
  note st = start_container_state [where v = "J_Object []", OF a(4), folded start_object_def]
  obtain s p' d' where e: "last_token (get_token strtod ?p) \<noteq> End_Object"
    "parse_member strtod (False # states, get_token strtod ?p, ?d) = Go_On s"
    "sax_parse_internal strtod (False, s) = sax_parse_internal strtod (True, states, p', d')"
    "ready (m_lexer p') rest" "root d' = change_at (fst (handle_value (J_Object []) d)) (\<lambda>_. J_Object (sm.put_all ms [])) (root ?d)"
    "ref_stack d' = ref_stack d" "same_state ?d d'"
    using assms [unfolded parses_members_def, rule_format, OF t(2) st(1,2), of states] by (auto simp: key_order_def)
  have "parse_value strtod (states, ?p, d) = Go_On (Inl s)"
    using e(1,2) parse_begin(2) [OF a(1) r] by (simp add: parse_begin_object_def Let_def)
  then have "sax_parse_internal strtod (False, states, ?p, d) = sax_parse_internal strtod (True, states, p', d')"
    using sax_begin e(3) by simp
  then show "last_token ?p \<noteq> End_Array \<and>
      (\<exists>p' d'. sax_parse_internal strtod (False, states, ?p, d) = sax_parse_internal strtod (True, states, p', d')
      \<and> ready (m_lexer p') rest \<and> placed (J_Object (sm.put_all ms [])) d d')"
    using e(4) st(4) [OF e(5-7)] t(1) by auto
qed

section \<open>Elements and members\<close>

lemma blank_number_end:
  assumes "blank w" and "rest \<noteq> [] \<Longrightarrow> hd rest \<in> {CHR '','', CHR '']'', CHR ''}''}"
  shows "number_end (w @ rest)"
proof (cases "w @ rest")
  case (Cons c cs)
  then have "c \<in> {CHR 0x20, CHR 0x09, CHR 0x0A, CHR 0x0D, CHR '','', CHR '']'', CHR ''}''}"
    using assms by (cases w) (auto simp: blank_def)
  then show ?thesis unfolding Cons number_end_def insert_iff empty_iff by (elim disjE) (simp_all add: digit_def)
qed (simp add: number_end_def)

text \<open>After a value in a container: the blank and the mark that follow it.\<close>

lemma rest_mark:
  assumes "blank w" and "ready (m_lexer p) (w @ c # t)"
  shows "c = CHR '','' \<Longrightarrow> is_array \<Longrightarrow>
      parse_rest strtod (is_array # outer, p, d) = Go_On (False, is_array # outer, get_token strtod (get_token strtod p), d)"
    and "c = CHR '','' \<Longrightarrow> \<not> is_array \<Longrightarrow> parse_member strtod (is_array # outer, get_token strtod (get_token strtod p), d) = Go_On s \<Longrightarrow>
      parse_rest strtod (is_array # outer, p, d) = Go_On (False, s)"
    and "c = (if is_array then CHR '']'' else CHR ''}'') \<Longrightarrow>
      parse_rest strtod (is_array # outer, p, d) = Go_On (True, outer, get_token strtod p, end_container d)"
  using get_mark(1) [OF assms, of _ strtod] by (cases is_array; simp add: parse_rest_def marks_def Let_def)+

lemma waits_array:
  "ref_stack d = q # qs \<Longrightarrow> at_path q (root d) = Some (J_Array xs) \<Longrightarrow> waits d
     \<and> (placed j d d' \<longrightarrow> root d' = change_at q (\<lambda>_. J_Array (xs @ [j])) (root d))"
  by (simp add: waits_def placed_def handle_value_def write_at_def)

lemma end_container_simps [simp]:
  "root (end_container d) = root d" "ref_stack (end_container d) = tl (ref_stack d)"
  "same_state d (end_container d') = same_state d d'"
  by (simp_all add: end_container_def same_state_def)

text \<open>One element, read up to its comma or bracket.\<close>

lemma parse_element:
  assumes "parses_value strtod t j" and "blank u" and "blank w" and "c \<in> {CHR '','', CHR '']''}"
    and "ready (m_lexer p) (u @ t @ w @ c # rest)" and "ref_stack d = q # qs" and "at_path q (root d) = Some (J_Array xs)"
  obtains p' d' where "last_token (get_token strtod p) \<noteq> End_Array"
    and "sax_parse_internal strtod (False, True # states, get_token strtod p, d) = sax_parse_internal strtod (True, True # states, p', d')"
    and "ready (m_lexer p') (w @ c # rest)" and "root d' = change_at q (\<lambda>_. J_Array (xs @ [j])) (root d)"
    and "ref_stack d' = q # qs" and "same_state d d'"
proof -
  have n: "number_end (w @ c # rest)" using assms(3,4) by (intro blank_number_end) auto
  have "waits d" using waits_array [OF assms(6,7)] by simp
  then obtain p' d' where "last_token (get_token strtod p) \<noteq> End_Array"
    "sax_parse_internal strtod (False, True # states, get_token strtod p, d) = sax_parse_internal strtod (True, True # states, p', d')"
    "ready (m_lexer p') (w @ c # rest)" "placed j d d'"
    using assms(1) [unfolded parses_value_def, rule_format, OF assms(2) n assms(5), of d "True # states"] by blast
  then show thesis using that waits_array [OF assms(6,7), of j d'] assms(6) by (simp add: placed_def)
qed

lemma parses_last_element:
  assumes "blank u" and "parses_value strtod t j" and "blank w"
  shows "parses_elements strtod (u @ t @ w) [j]"
  unfolding parses_elements_def
proof (intro allI impI)
  fix rest states q qs xs and d :: dom_parser and p :: parser
  assume a: "ready (m_lexer p) ((u @ t @ w) @ CHR '']'' # rest)" "ref_stack d = q # qs" "at_path q (root d) = Some (J_Array xs)"
  have r: "ready (m_lexer p) (u @ t @ w @ CHR '']'' # rest)" using a(1) by simp
  obtain p1 d1 where e: "last_token (get_token strtod p) \<noteq> End_Array"
    "sax_parse_internal strtod (False, True # states, get_token strtod p, d) = sax_parse_internal strtod (True, True # states, p1, d1)"
    "ready (m_lexer p1) (w @ CHR '']'' # rest)" "root d1 = change_at q (\<lambda>_. J_Array (xs @ [j])) (root d)"
    "ref_stack d1 = q # qs" "same_state d d1"
    by (rule parse_element [OF assms(2,1,3) _ r a(2,3)]) auto
  have "parse_rest strtod (True # states, p1, d1) = Go_On (True, states, get_token strtod p1, end_container d1)"
    by (rule rest_mark(3) [OF assms(3) e(3)]) simp
  from sax_rest [OF this] e get_mark(2) [OF assms(3) e(3), of End_Array strtod]
  show "last_token (get_token strtod p) \<noteq> End_Array \<and> (\<exists>p' d'. sax_parse_internal strtod (False, True # states, get_token strtod p, d) =
      sax_parse_internal strtod (True, states, p', d') \<and> ready (m_lexer p') rest
      \<and> root d' = change_at q (\<lambda>_. J_Array (xs @ [j])) (root d) \<and> ref_stack d' = qs \<and> same_state d d')"
    by (intro conjI exI [of _ "get_token strtod p1"] exI [of _ "end_container d1"]) (simp_all add: marks_def)
qed

lemma parses_more_elements:
  assumes "blank u" and "parses_value strtod t j" and "blank w" and "parses_elements strtod t' js"
  shows "parses_elements strtod (u @ t @ w @ CHR '','' # t') (j # js)"
  unfolding parses_elements_def
proof (intro allI impI)
  fix rest states q qs xs and d :: dom_parser and p :: parser
  assume a: "ready (m_lexer p) ((u @ t @ w @ CHR '','' # t') @ CHR '']'' # rest)" "ref_stack d = q # qs"
    "at_path q (root d) = Some (J_Array xs)"
  have r: "ready (m_lexer p) (u @ t @ w @ CHR '','' # t' @ CHR '']'' # rest)" using a(1) by simp
  obtain p1 d1 where e: "last_token (get_token strtod p) \<noteq> End_Array"
    "sax_parse_internal strtod (False, True # states, get_token strtod p, d) = sax_parse_internal strtod (True, True # states, p1, d1)"
    "ready (m_lexer p1) (w @ CHR '','' # t' @ CHR '']'' # rest)" "root d1 = change_at q (\<lambda>_. J_Array (xs @ [j])) (root d)"
    "ref_stack d1 = q # qs" "same_state d d1"
    by (rule parse_element [OF assms(2,1,3) _ r a(2,3)]) auto
  let ?p = "get_token strtod p1"
  have "sax_parse_internal strtod (True, True # states, p1, d1) = sax_parse_internal strtod (False, True # states, get_token strtod ?p, d1)"
    by (rule sax_rest [OF rest_mark(1) [OF assms(3) e(3)]]) simp_all
  moreover have r2: "ready (m_lexer ?p) (t' @ CHR '']'' # rest)"
    using get_mark(2) [OF assms(3) e(3), of Value_Separator strtod] by (simp add: marks_def)
  have at: "at_path q (root d1) = Some (J_Array (xs @ [j]))" using at_change [OF a(3)] e(4) by simp
  obtain p' d' where
    "sax_parse_internal strtod (False, True # states, get_token strtod ?p, d1) = sax_parse_internal strtod (True, states, p', d')"
    "ready (m_lexer p') rest" "root d' = change_at q (\<lambda>_. J_Array ((xs @ [j]) @ js)) (root d1)" "ref_stack d' = qs" "same_state d1 d'"
    using assms(4) [unfolded parses_elements_def, rule_format, OF r2 e(5) at, of states] by blast
  ultimately show "last_token (get_token strtod p) \<noteq> End_Array \<and> (\<exists>p' d'. sax_parse_internal strtod (False, True # states, get_token strtod p, d) =
      sax_parse_internal strtod (True, states, p', d') \<and> ready (m_lexer p') rest
      \<and> root d' = change_at q (\<lambda>_. J_Array (xs @ j # js)) (root d) \<and> ref_stack d' = qs \<and> same_state d d')"
    using e same_state_trans [OF e(6)] change_change [OF a(3)]
    by (intro conjI exI [of _ p'] exI [of _ d']) simp_all
qed

text \<open>A key and its colon; the builder then waits for the value.\<close>

lemma member_key:
  assumes "blank u" and "string_body k kv" and "blank w" and "ready (m_lexer p) (u @ CHR 0x22 # k @ CHR 0x22 # w @ CHR '':'' # t)"
  obtains p2 where "last_token (get_token strtod p) = Value_String"
    and "parse_member strtod (states, get_token strtod p, d) = Go_On (states, get_token strtod p2, key kv d)"
    and "ready (m_lexer p2) t"
proof -
  obtain l where l: "scan strtod (m_lexer p) = (Value_String, l)" "token_buffer l = kv" "ready l (w @ CHR '':'' # t)"
    using scan_string_run [OF assms(1,2,4), of strtod] by blast
  note g = get_token_scan [OF l(1)]
  let ?p = "get_token strtod p"
  have r: "ready (m_lexer ?p) (w @ CHR '':'' # t)" using l(3) g by simp
  show thesis
    using that [of "get_token strtod ?p"] get_mark [OF assms(3) r, of Name_Separator strtod] g l(2)
    by (simp add: parse_member_def marks_def Let_def)
qed

lemma key_waits:
  assumes "ref_stack d = q # qs" and "at_path q (root d) = Some (J_Object es)" and "key_order es"
  shows "waits (key k d)"
    and "placed j (key k d) d' \<Longrightarrow> root d' = change_at q (\<lambda>_. J_Object (map_put k j es)) (root d) \<and> ref_stack d' = q # qs \<and> same_state d d'"
proof -
  define add_null where "add_null = (\<lambda>j. case j of J_Object ms \<Rightarrow> J_Object (map_emplace (k, J_Null) ms) | _ \<Rightarrow> j)"
  have key: "key k d = d\<lparr>root := change_at q add_null (root d), object_element := Some (q @ [Key k])\<rparr>"
    using assms(1) by (simp add: key_def add_null_def Let_def)
  have nil: "change_at [] f = f" for f by (rule ext) simp
  have at: "at_path q (change_at q add_null (root d)) = Some (J_Object (map_emplace (k, J_Null) es))"
    using at_change [OF assms(2)] by (simp add: add_null_def)
  have some: "map_of (map_emplace (k, J_Null) es) k \<noteq> None"
    using assms(3) by (auto simp: map_emplace_def map_of_map_put)
  show "waits (key k d)" using at some assms(1) by (simp add: waits_def key)
  show "root d' = change_at q (\<lambda>_. J_Object (map_put k j es)) (root d) \<and> ref_stack d' = q # qs \<and> same_state d d'"
    if "placed j (key k d) d'"
  proof -
    have "root d' = change_at q (\<lambda>x. change_at [Key k] (\<lambda>_. j) (add_null x)) (root d)"
      using that at assms(1) change_change [OF assms(2)]
      by (simp add: placed_def handle_value_def write_at_def key change_append)
    also have "\<dots> = change_at q (\<lambda>_. J_Object (map_put k j es)) (root d)"
      using change_emplace [OF assms(3), of k j J_Null] by (intro change_cong [OF assms(2)]) (simp add: add_null_def nil)
    finally show ?thesis using that assms(1) by (simp add: placed_def key same_state_def)
  qed
qed

lemma parse_one_member:
  assumes "string_body k kv" and "parses_value strtod t j" and "blank u" and "blank w" and "blank x" and "blank y"
    and "c \<in> {CHR '','', CHR ''}''}"
    and "ready (m_lexer p) (u @ CHR 0x22 # k @ CHR 0x22 # w @ CHR '':'' # x @ t @ y @ c # rest)"
    and "ref_stack d = q # qs" and "at_path q (root d) = Some (J_Object es)" and "key_order es"
  obtains s p' d' where "last_token (get_token strtod p) \<noteq> End_Object"
    and "parse_member strtod (states, get_token strtod p, d) = Go_On s"
    and "sax_parse_internal strtod (False, s) = sax_parse_internal strtod (True, states, p', d')"
    and "ready (m_lexer p') (y @ c # rest)" and "root d' = change_at q (\<lambda>_. J_Object (map_put kv j es)) (root d)"
    and "ref_stack d' = q # qs" and "same_state d d'"
proof -
  obtain p2 where p2: "last_token (get_token strtod p) = Value_String"
    "parse_member strtod (states, get_token strtod p, d) = Go_On (states, get_token strtod p2, key kv d)"
    "ready (m_lexer p2) (x @ t @ y @ c # rest)"
    by (rule member_key [OF assms(3,1,4,8)])
  have n: "number_end (y @ c # rest)" using assms(6,7) by (intro blank_number_end) auto
  obtain p' d' where v:
    "sax_parse_internal strtod (False, states, get_token strtod p2, key kv d) = sax_parse_internal strtod (True, states, p', d')"
    "ready (m_lexer p') (y @ c # rest)" "placed j (key kv d) d'"
    using assms(2) [unfolded parses_value_def, rule_format, OF assms(5) n p2(3) key_waits(1) [OF assms(9-11)], of states] by blast
  show thesis by (rule that [OF _ p2(2) v(1,2)]) (use p2(1) key_waits(2) [OF assms(9-11) v(3)] in simp_all)
qed

lemma parses_last_member:
  assumes "blank u" and "string_body k kv" and "blank w" and "blank x" and "parses_value strtod t j" and "blank y"
  shows "parses_members strtod (u @ CHR 0x22 # k @ CHR 0x22 # w @ CHR '':'' # x @ t @ y) [(kv, j)]"
  unfolding parses_members_def
proof (intro allI impI)
  fix rest states q qs es and d :: dom_parser and p :: parser
  assume a: "ready (m_lexer p) ((u @ CHR 0x22 # k @ CHR 0x22 # w @ CHR '':'' # x @ t @ y) @ CHR ''}'' # rest)"
    "ref_stack d = q # qs" "at_path q (root d) = Some (J_Object es)" "key_order es"
  have r: "ready (m_lexer p) (u @ CHR 0x22 # k @ CHR 0x22 # w @ CHR '':'' # x @ t @ y @ CHR ''}'' # rest)" using a(1) by simp
  obtain s p1 d1 where e: "last_token (get_token strtod p) \<noteq> End_Object"
    "parse_member strtod (False # states, get_token strtod p, d) = Go_On s"
    "sax_parse_internal strtod (False, s) = sax_parse_internal strtod (True, False # states, p1, d1)"
    "ready (m_lexer p1) (y @ CHR ''}'' # rest)" "root d1 = change_at q (\<lambda>_. J_Object (map_put kv j es)) (root d)"
    "ref_stack d1 = q # qs" "same_state d d1"
    by (rule parse_one_member [OF assms(2,5,1,3,4,6) _ r a(2-4)]) auto
  have "parse_rest strtod (False # states, p1, d1) = Go_On (True, states, get_token strtod p1, end_container d1)"
    by (rule rest_mark(3) [OF assms(6) e(4)]) simp
  from sax_rest [OF this] e get_mark(2) [OF assms(6) e(4), of End_Object strtod]
  show "last_token (get_token strtod p) \<noteq> End_Object \<and> (\<exists>s p' d'. parse_member strtod (False # states, get_token strtod p, d) = Go_On s
      \<and> sax_parse_internal strtod (False, s) = sax_parse_internal strtod (True, states, p', d') \<and> ready (m_lexer p') rest
      \<and> root d' = change_at q (\<lambda>_. J_Object (sm.put_all [(kv, j)] es)) (root d) \<and> ref_stack d' = qs \<and> same_state d d')"
    by (intro conjI exI [of _ s] exI [of _ "get_token strtod p1"] exI [of _ "end_container d1"])
      (simp_all add: marks_def sm.put_all_def)
qed

lemma parses_more_members:
  assumes "blank u" and "string_body k kv" and "blank w" and "blank x" and "parses_value strtod t j" and "blank y"
    and "parses_members strtod t' ms"
  shows "parses_members strtod (u @ CHR 0x22 # k @ CHR 0x22 # w @ CHR '':'' # x @ t @ y @ CHR '','' # t') ((kv, j) # ms)"
  unfolding parses_members_def
proof (intro allI impI)
  fix rest states q qs es and d :: dom_parser and p :: parser
  assume a: "ready (m_lexer p) ((u @ CHR 0x22 # k @ CHR 0x22 # w @ CHR '':'' # x @ t @ y @ CHR '','' # t') @ CHR ''}'' # rest)"
    "ref_stack d = q # qs" "at_path q (root d) = Some (J_Object es)" "key_order es"
  have r: "ready (m_lexer p) (u @ CHR 0x22 # k @ CHR 0x22 # w @ CHR '':'' # x @ t @ y @ CHR '','' # t' @ CHR ''}'' # rest)"
    using a(1) by simp
  obtain s p1 d1 where e: "last_token (get_token strtod p) \<noteq> End_Object"
    "parse_member strtod (False # states, get_token strtod p, d) = Go_On s"
    "sax_parse_internal strtod (False, s) = sax_parse_internal strtod (True, False # states, p1, d1)"
    "ready (m_lexer p1) (y @ CHR '','' # t' @ CHR ''}'' # rest)" "root d1 = change_at q (\<lambda>_. J_Object (map_put kv j es)) (root d)"
    "ref_stack d1 = q # qs" "same_state d d1"
    by (rule parse_one_member [OF assms(2,5,1,3,4,6) _ r a(2-4)]) auto
  let ?p = "get_token strtod p1"
  have r2: "ready (m_lexer ?p) (t' @ CHR ''}'' # rest)"
    using get_mark(2) [OF assms(6) e(4), of Value_Separator strtod] by (simp add: marks_def)
  have at: "at_path q (root d1) = Some (J_Object (map_put kv j es))" using at_change [OF a(3)] e(5) by simp
  obtain s2 p' d' where m: "parse_member strtod (False # states, get_token strtod ?p, d1) = Go_On s2"
    "sax_parse_internal strtod (False, s2) = sax_parse_internal strtod (True, states, p', d')" "ready (m_lexer p') rest"
    "root d' = change_at q (\<lambda>_. J_Object (sm.put_all ms (map_put kv j es))) (root d1)" "ref_stack d' = qs" "same_state d1 d'"
    using assms(7) [unfolded parses_members_def, rule_format, OF r2 e(6) at key_order_map_put [OF a(4)], of states] by blast
  have "sax_parse_internal strtod (True, False # states, p1, d1) = sax_parse_internal strtod (False, s2)"
    by (rule sax_rest [OF rest_mark(2) [OF assms(6) e(4) _ _ m(1)]]) simp_all
  then show "last_token (get_token strtod p) \<noteq> End_Object \<and> (\<exists>s p' d'. parse_member strtod (False # states, get_token strtod p, d) = Go_On s
      \<and> sax_parse_internal strtod (False, s) = sax_parse_internal strtod (True, states, p', d') \<and> ready (m_lexer p') rest
      \<and> root d' = change_at q (\<lambda>_. J_Object (sm.put_all ((kv, j) # ms) es)) (root d) \<and> ref_stack d' = qs \<and> same_state d d')"
    using e m same_state_trans [OF e(7) m(6)] change_change [OF a(3)]
    by (intro conjI exI [of _ s] exI [of _ p'] exI [of _ d']) (simp_all add: sm.put_all_def)
qed

section \<open>Documents\<close>

lemma json_text_parses:
  "json_text strtod t j \<Longrightarrow> parses_value strtod t j"
  "elements_text strtod t js \<Longrightarrow> parses_elements strtod t js"
  "members_text strtod t ms \<Longrightarrow> parses_members strtod t ms"
proof (induction rule: json_text_elements_text_members_text.inducts)
  case (string t v)
  then show ?case by (intro token_text_parses) (auto simp: token_text_def)
next
  case (object t ms)
  then show ?case using parses_object by (simp add: sm.put_all_def)
qed (auto simp: token_text_def intro: token_text_parses parses_empty parses_array
    parses_last_element parses_more_elements parses_last_member parses_more_members)

lemma int_part_first: "int_part ds \<Longrightarrow> ds \<noteq> [] \<and> digit (of_char (hd ds))"
  by (cases ds) (auto simp: int_part_def digits_Cons)

text \<open>A text does not start like a byte order mark.\<close>

lemma json_text_first:
  assumes "json_text strtod t j"
  shows "t \<noteq> [] \<and> hd t \<noteq> CHR 0xEF"
  using assms
proof cases
  case number
  then show ?thesis
  proof cases
    case (1 ds fr ex neg)
    then obtain d ds' where "ds = d # ds'" "digit (of_char d)" using int_part_first [of ds] by (cases ds) auto
    then show ?thesis using 1(1) by (cases neg) (auto simp: digit_def)
  qed
qed auto

lemma blank_first:
  assumes "blank u" and "t \<noteq> []" and "hd t \<noteq> CHR 0xEF"
  shows "next_char (u @ t @ w) \<noteq> 0xEF"
proof -
  obtain c cs where c: "u @ t @ w = c # cs" using assms(2) by (cases "u @ t @ w") auto
  have "c \<noteq> CHR 0xEF" using c assms by (cases u; cases t) (auto simp: blank_def)
  then have "of_char c \<noteq> (0xEF :: int)" using of_char_eq_iff [of c "CHR 0xEF", where ?'a = int] by simp
  then show ?thesis by (simp add: c)
qed

text \<open>The first token of a document is that of its text behind the mark.\<close>

lemma first_token:
  assumes "bom = [] \<or> bom = [CHR 0xEF, CHR 0xBB, CHR 0xBF]" and "next_char t \<noteq> 0xEF"
  shows "\<exists>p. new_parser strtod (bom @ t) comments = get_token strtod p \<and> ready (m_lexer p) t"
proof -
  let ?s = "new_lexer (bom @ t) comments"
  have "\<exists>s. scan strtod ?s = scan strtod s \<and> ready s t"
  proof (cases "bom = []")
    case True
    then show ?thesis using assms(2) by (intro exI [of _ ?s]) (simp add: ready_def new_lexer_def)
  next
    case False
    then have b: "bom = [CHR 0xEF, CHR 0xBB, CHR 0xBF]" using assms(1) by simp
    let ?s3 = "get (get (get ?s))"
    have c: "current (get ?s) = 0xEF" "current (get (get ?s)) = 0xBB" "current ?s3 = 0xBF"
      by (simp_all add: current_get b new_lexer_def)
    then have "skip_bom ?s = (True, ?s3)" by (simp add: skip_bom_def Let_def)
    then have "scan strtod ?s = scan strtod ?s3" by (simp add: scan_def new_lexer_def)
    moreover have "ready ?s3 t" by (simp add: ready_def b new_lexer_def)
    ultimately show ?thesis by blast
  qed
  then show ?thesis
    by (metis get_token_scan new_parser_def parser.select_convs(1) surj_pair)
qed

lemma document_parse:
  assumes "document strtod t j"
  shows "basic_json_parse strtod t allow comments = Inr j"
  using assms
proof cases
  case (1 bom u x w)
  obtain p where p: "new_parser strtod t comments = get_token strtod p" "ready (m_lexer p) (u @ x @ w)"
    using first_token [OF 1(2) blank_first [OF 1(3)]] json_text_first [OF 1(4)] 1(1) by blast
  let ?d = "new_dom_parser allow"
  have "waits ?d" by (simp add: waits_def new_dom_parser_def)
  moreover have "number_end w" using blank_number_end [OF 1(5), of "[]"] by simp
  ultimately obtain p' d' where v:
    "sax_parse_internal strtod (False, [], get_token strtod p, ?d) = sax_parse_internal strtod (True, [], p', d')"
    "ready (m_lexer p') w" "placed j ?d d'"
    using json_text_parses(1) [OF 1(4), unfolded parses_value_def, rule_format, OF 1(3) _ p(2)] by blast
  have s: "sax_parse_internal strtod (True, [], p', d') = Inr (True, p', d')"
    by (subst sax_parse_internal.simps) (simp add: parse_step_def parse_rest_def)
  have "last_token (get_token strtod p') = End_Of_Input"
    using scan_end [OF 1(5) v(2), of strtod] get_token_scan [of strtod p'] by (cases "scan strtod (m_lexer p')") auto
  moreover have "root d' = j" "\<not> errored d'" using v(3)
    by (simp_all add: placed_def handle_value_def new_dom_parser_def same_state_def)
  ultimately show ?thesis using v(1) s p(1) by (simp add: basic_json_parse_def parser_parse_def Let_def)
qed

end
