(* ===== verification/Json_Escape.thy ===== *)
theory Json_Escape
  imports Utf8
begin

text \<open>
  \<open>dump_escaped\<close> on well-formed UTF-8: what each code point is written as, that the buffer of 512
  bytes never overflows, and that nothing is lost when it is flushed.
\<close>

definition short_escape :: "nat \<Rightarrow> char option" where
  "short_escape n = map_of [(0x08, CHR ''b''), (0x09, CHR ''t''), (0x0A, CHR ''n''), (0x0C, CHR ''f''),
     (0x0D, CHR ''r''), (0x22, CHR 0x22), (0x5C, CHR 0x5C)] n"

definition hex_escape :: "nat \<Rightarrow> string" where
  "hex_escape n = CHR 0x5C # CHR ''u'' # hex4 n"

definition escaped :: "bool \<Rightarrow> nat \<Rightarrow> string" where
  "escaped ascii n =
    (case short_escape n of
       Some c \<Rightarrow> [CHR 0x5C, c]
     | None \<Rightarrow>
         if n \<le> 0x1F \<or> ascii \<and> 0x7F \<le> n then
           (if n \<le> 0xFFFF then hex_escape n else hex_escape (0xD7C0 + n div 1024) @ hex_escape (0xDC00 + n mod 1024))
         else utf8 n)"

lemma length_utf8: "utf8 n \<noteq> []" "length (utf8 n) \<le> 4"
  by (simp_all add: utf8_def utf8_bytes_def)

text \<open>The bytes before the last one of a code point are copied, unless it will be escaped.\<close>

lemma loop_decodes:
  assumes "decodes st cp bs cp'" and "utf8_state e = st" and "codepoint e = cp" and "\<forall>b \<in> set bs. b < 256"
    and "length (string_buffer e) + length bs \<le> 512"
  shows "dump_escaped_loop h ascii (map char_of bs @ cs) e =
    rbind (accept_byte ascii (char_of (last bs)) (e\<lparr>utf8_state := 0, codepoint := cp',
        string_buffer := string_buffer e @ (if ascii then [] else map char_of (butlast bs)),
        undumped_chars := undumped_chars e + (length bs - 1)\<rparr>))
      (dump_escaped_loop h ascii cs)"
  using assms
proof (induction st cp bs cp' arbitrary: e rule: decodes.induct)
  case (2 st cp b cp')
  then show ?case by simp
next
  case (3 st cp b b' bs cp')
  obtain st1 cp1 where d: "decode st cp b = (st1, cp1)" by (cases "decode st cp b")
  define e1 where "e1 = e\<lparr>utf8_state := st1, codepoint := cp1\<rparr>"
  define e2 where "e2 = e1\<lparr>string_buffer := string_buffer e @ (if ascii then [] else [char_of b]),
    undumped_chars := undumped_chars e + 1\<rparr>"
  have i: "incomplete_byte ascii (char_of b) e1 = Inr e2"
    using "3.prems"(5) by (simp add: incomplete_byte_def buffer_put_def e1_def e2_def)
  have "1 < st1" "decodes st1 cp1 (b' # bs) cp'" using "3.prems"(1) d by simp_all
  then have "dump_escaped_loop h ascii (map char_of (b' # bs) @ cs) e2 =
    rbind (accept_byte ascii (char_of (last (b' # bs))) (e2\<lparr>utf8_state := 0, codepoint := cp',
        string_buffer := string_buffer e2 @ (if ascii then [] else map char_of (butlast (b' # bs))),
        undumped_chars := undumped_chars e2 + (length (b' # bs) - 1)\<rparr>))
      (dump_escaped_loop h ascii cs)"
    using "3.prems" d by (intro "3.IH" [OF d [symmetric]]) (simp_all add: e1_def e2_def)
  moreover have "dump_escaped_loop h ascii (map char_of (b # b' # bs) @ cs) e =
      dump_escaped_loop h ascii (map char_of (b' # bs) @ cs) e2"
    using "3.prems"(2-4) \<open>1 < st1\<close> d i by (simp add: e1_def Let_def)
  moreover have "e2\<lparr>utf8_state := 0, codepoint := cp',
        string_buffer := string_buffer e2 @ (if ascii then [] else map char_of (butlast (b' # bs))),
        undumped_chars := undumped_chars e2 + (length (b' # bs) - 1)\<rparr> =
      e\<lparr>utf8_state := 0, codepoint := cp',
        string_buffer := string_buffer e @ (if ascii then [] else map char_of (butlast (b # b' # bs))),
        undumped_chars := undumped_chars e + (length (b # b' # bs) - 1)\<rparr>"
    by (simp add: e1_def e2_def)
  ultimately show ?case by (simp only: last_ConsR list.distinct not_False_eq_True)
qed simp

lemma codepoint_eq:
  assumes "n < 2 ^ 32"
  shows "(word_of_nat n :: u32) = numeral k \<longleftrightarrow> n = unat (numeral k :: u32)"
    "(word_of_nat n :: u32) \<le> numeral k \<longleftrightarrow> n \<le> unat (numeral k :: u32)"
    "(numeral k :: u32) \<le> word_of_nat n \<longleftrightarrow> unat (numeral k :: u32) \<le> n"
  using assms by (auto simp: word_unat_eq_iff word_le_nat_alt unat_of_nat take_bit_nat_eq_self)

lemma u_escape_hex: "n < 65536 \<Longrightarrow> u_escape (word_of_nat n) = hex_escape n"
  by (simp add: u_escape_def hex_escape_def unsigned_ucast_eq unat_of_nat take_bit_nat_eq_self)

lemma surrogate_words:
  assumes "0xFFFF < n" and "n \<le> 0x10FFFF"
  shows "u_escape (0xD7C0 + drop_bit 10 (word_of_nat n)) = hex_escape (0xD7C0 + n div 1024)"
    and "u_escape (0xDC00 + (word_of_nat n AND 0x3FF)) = hex_escape (0xDC00 + n mod 1024)"
proof -
  have "unat (drop_bit 10 (word_of_nat n :: u32)) = n div 1024"
    using assms(2) unfolding unat_drop_bit_eq by (simp add: unat_of_nat take_bit_nat_eq_self drop_bit_eq_div)
  then have "drop_bit 10 (word_of_nat n :: u32) = word_of_nat (n div 1024)"
    by (metis of_nat_unat ucast_id)
  then have "(0xD7C0 + drop_bit 10 (word_of_nat n) :: u32) = word_of_nat (0xD7C0 + n div 1024)" by simp
  moreover have "0xD7C0 + n div 1024 < 65536" using assms(2) by (simp add: div_less_iff_less_mult less_diff_conv)
  ultimately show "u_escape (0xD7C0 + drop_bit 10 (word_of_nat n)) = hex_escape (0xD7C0 + n div 1024)"
    by (metis u_escape_hex)
  have "(word_of_nat n AND 0x3FF :: u32) = word_of_nat (n mod 1024)"
    using take_bit_eq_mask [of 10 "word_of_nat n :: u32"] take_bit_of_nat [of 10 n, where ?'a = u32]
    by (simp add: mask_eq_exp_minus_1 take_bit_eq_mod [of 10 n])
  then have "(0xDC00 + (word_of_nat n AND 0x3FF) :: u32) = word_of_nat (0xDC00 + n mod 1024)" by simp
  moreover have "0xDC00 + n mod 1024 < 65536" using mod_less_divisor [of 1024 n] by linarith
  ultimately show "u_escape (0xDC00 + (word_of_nat n AND 0x3FF)) = hex_escape (0xDC00 + n mod 1024)"
    by (metis u_escape_hex)
qed

lemma length_hex_escape: "length (hex_escape n) = 6"
  by (simp add: hex_escape_def hex4_def)

text \<open>What is put into the buffer for a code point, and that it fits.\<close>

lemma no_short_escape: "short_escape n = None \<Longrightarrow> n \<notin> {0x08, 0x09, 0x0A, 0x0C, 0x0D, 0x22, 0x5C}"
  by (auto simp: short_escape_def)

lemma accept_codepoint_text:
  assumes "scalar n" and "codepoint e = of_nat n" and "c = last (utf8 n)"
    and "length b + 13 \<le> 512"
    and "string_buffer e = b @ (if ascii then [] else butlast (utf8 n))"
  shows "accept_codepoint ascii c e = Inr (e\<lparr>string_buffer := b @ escaped ascii n\<rparr>)"
proof -
  have n: "n < 2 ^ 32" "n \<le> 0x10FFFF" using assms(1) by (auto simp: scalar_def)
  note eqs = codepoint_eq [OF n(1)]
  have one: "butlast (utf8 n) = []" if "n \<le> 0x7F" using that by (simp add: utf8_def utf8_bytes_def)
  consider (short) x where "short_escape n = Some x" | (hex) "short_escape n = None" "n \<le> 0x1F \<or> ascii \<and> 0x7F \<le> n"
    | (plain) "short_escape n = None" "\<not> (n \<le> 0x1F \<or> ascii \<and> 0x7F \<le> n)" by (cases "short_escape n") auto
  then show ?thesis
  proof cases
    case short
    then have "n \<in> {0x08, 0x09, 0x0A, 0x0C, 0x0D, 0x22, 0x5C}" by (auto simp: short_escape_def split: if_splits)
    then have "string_buffer e = b" and "accept_codepoint ascii c e = buffer_put [CHR 0x5C, x] 0 e"
      using assms(2,5) one short by (auto simp: accept_codepoint_def short_escape_def)
    then show ?thesis using assms(4) short by (simp add: buffer_put_def escaped_def)
  next
    case hex
    have e: "string_buffer e = b" using assms(5) one hex(2) by auto
    have "accept_codepoint ascii c e = buffer_put (escaped ascii n) 1 e"
      using hex assms(2) n surrogate_words [of n] no_short_escape [OF hex(1)]
      by (auto simp: accept_codepoint_def escaped_def Let_def eqs u_escape_hex)
    moreover have "length (escaped ascii n) \<le> 12" using hex by (simp add: escaped_def length_hex_escape)
    ultimately show ?thesis using assms(4) e by (simp add: buffer_put_def)
  next
    case plain
    have "accept_codepoint ascii c e = buffer_put [c] 0 e"
      using plain assms(2) no_short_escape [OF plain(1)] by (auto simp: accept_codepoint_def Let_def eqs)
    moreover have "string_buffer e @ [c] = b @ utf8 n"
    proof (cases ascii)
      case True
      then have "butlast (utf8 n) = []" using plain one by auto
      then show ?thesis using True assms(3,5) length_utf8 [of n] append_butlast_last_id [of "utf8 n"] by auto
    next
      case False
      then show ?thesis using assms(3,5) length_utf8 [of n] append_butlast_last_id [of "utf8 n"] by auto
    qed
    moreover have "length (string_buffer e) < 512" using assms(4,5) length_utf8 [of n] by auto
    moreover have "escaped ascii n = utf8 n" using plain by (auto simp: escaped_def)
    ultimately show ?thesis by (simp add: buffer_put_def)
  qed
qed

definition room :: "escaping \<Rightarrow> string \<Rightarrow> bool" where
  "room e t \<longleftrightarrow> utf8_state e = 0 \<and> length (string_buffer e) \<le> 499 \<and> written e @ string_buffer e = t"

lemma flush_room:
  "length (string_buffer e) \<le> 512 \<Longrightarrow> utf8_state e = 0 \<Longrightarrow>
   room ((flush_full e)\<lparr>after_accept := a, undumped_chars := u\<rparr>) (written e @ string_buffer e)"
  by (auto simp: room_def flush_full_def)

lemma dump_escaped_step:
  assumes "scalar n" and "room e t"
  shows "\<exists>e'. dump_escaped_loop h ascii (utf8 n @ cs) e = dump_escaped_loop h ascii cs e' \<and> room e' (t @ escaped ascii n)"
proof -
  let ?bs = "utf8_bytes n"
  have bs: "length ?bs \<le> 4" "?bs \<noteq> []" "\<forall>b \<in> set ?bs. b < 256"
    using assms(1) utf8_bytes_less [of n] by (auto simp: utf8_bytes_def scalar_def)
  define e1 where "e1 = e\<lparr>utf8_state := 0, codepoint := of_nat n,
    string_buffer := string_buffer e @ (if ascii then [] else map char_of (butlast ?bs)),
    undumped_chars := undumped_chars e + (length ?bs - 1)\<rparr>"
  have loop: "dump_escaped_loop h ascii (utf8 n @ cs) e =
      rbind (accept_byte ascii (char_of (last ?bs)) e1) (dump_escaped_loop h ascii cs)"
    using assms(2) bs unfolding utf8_def e1_def
    by (intro loop_decodes [OF decodes_utf8 [OF assms(1)]]) (simp_all add: room_def)
  have "length (escaped ascii n) \<le> 12"
    using length_utf8 [of n] by (simp add: escaped_def length_hex_escape split: option.split)
  moreover define e2 where "e2 = e1\<lparr>string_buffer := string_buffer e @ escaped ascii n\<rparr>"
  have "accept_codepoint ascii (char_of (last ?bs)) e1 = Inr e2"
    unfolding e2_def using assms bs
    by (intro accept_codepoint_text) (auto simp: e1_def room_def utf8_def last_map map_butlast)
  moreover have "utf8_state e2 = 0" "written e2 = written e" by (simp_all add: e1_def e2_def)
  ultimately show ?thesis
    using assms(2) flush_room [of e2] unfolding loop accept_byte_def
    by (auto simp: Let_def room_def e2_def intro!: exI)
qed

lemma dump_escaped_loop_text:
  assumes "\<forall>n \<in> set ns. scalar n" and "room e t"
  shows "\<exists>e'. dump_escaped_loop h ascii (concat (map utf8 ns)) e = Inr e' \<and> room e' (t @ concat (map (escaped ascii) ns))"
  using assms
proof (induction ns arbitrary: e t)
  case (Cons n ns)
  obtain e' where e': "dump_escaped_loop h ascii (utf8 n @ concat (map utf8 ns)) e = dump_escaped_loop h ascii (concat (map utf8 ns)) e'"
    "room e' (t @ escaped ascii n)"
    using dump_escaped_step Cons.prems by (metis list.set_intros(1))
  then show ?case using Cons.IH [OF _ e'(2)] Cons.prems(1) by simp
qed simp

lemma dump_escaped_text:
  assumes "\<forall>n \<in> set ns. scalar n"
  shows "dump_escaped h (concat (map utf8 ns)) ascii = Inr (concat (map (escaped ascii) ns))"
proof -
  have "room new_escaping []" by (simp add: room_def new_escaping_def)
  then obtain e' where "dump_escaped_loop h ascii (concat (map utf8 ns)) new_escaping = Inr e'"
    "room e' (concat (map (escaped ascii) ns))"
    using dump_escaped_loop_text [OF assms] by fastforce
  then show ?thesis by (simp add: dump_escaped_def room_def)
qed

end
