(* ===== verification/Json_Numbers.thy ===== *)
theory Json_Numbers
  imports Json_Serializer
begin

text \<open>
  \<open>dump_integer\<close>: the pairwise writing of digits from the right into the buffer of 64 characters
  gives the decimal text of the number.
\<close>

lemma nat_text_small: "n < 10 \<Longrightarrow> nat_text n = [digit_char n]"
  by (subst nat_text.simps) (simp add: digit_char_def)

lemma nat_text_step: "10 \<le> n \<Longrightarrow> nat_text n = nat_text (n div 10) @ [digit_char (n mod 10)]"
  by (subst nat_text.simps) (simp add: digit_char_def)

lemma nat_text_not_Nil [simp]: "nat_text n \<noteq> []"
  by (subst nat_text.simps) simp

lemma length_nat_text_step: "10 \<le> n \<Longrightarrow> length (nat_text n) = Suc (length (nat_text (n div 10)))"
  by (subst nat_text_step) simp_all

lemma length_nat_text_small: "n < 10 \<Longrightarrow> length (nat_text n) = 1"
  by (simp add: nat_text_small)

lemma nat_text_100:
  assumes "100 \<le> n"
  shows "nat_text n = nat_text (n div 100) @ [digit_char (n mod 100 div 10), digit_char (n mod 100 mod 10)]"
proof -
  have "n mod 100 = 10 * (n div 10 mod 10) + n mod 10" using mod_mult2_eq [of n 10 10] by simp
  then have "n mod 100 div 10 = n div 10 mod 10" "n mod 100 mod 10 = n mod 10" by simp_all
  moreover have "n div 10 div 10 = n div 100" by (simp flip: div_mult2_eq)
  moreover have "10 \<le> n div 10" using assms by simp
  ultimately show ?thesis using assms nat_text_step [of n] nat_text_step [of "n div 10"] by simp
qed

lemma length_nat_text_bound: "n < 10 ^ k \<Longrightarrow> 0 < k \<Longrightarrow> length (nat_text n) \<le> k"
proof (induction k arbitrary: n)
  case (Suc k)
  show ?case
  proof (cases "n < 10")
    case False
    then have "0 < k" using Suc.prems by (cases k) auto
    moreover have "n div 10 < 10 ^ k" using Suc.prems by (simp add: div_less_iff_less_mult mult.commute)
    ultimately show ?thesis using Suc.IH False by (simp add: length_nat_text_step)
  qed (simp add: length_nat_text_small)
qed simp

lemma count_digits_loop_length: "Suc (count_digits_loop n x) = n + length (nat_text (unat x))"
proof (induction n x rule: count_digits_loop.induct)
  case (1 n x)
  let ?u = "unat x"
  have w: "x < 10 \<longleftrightarrow> ?u < 10" "x < 100 \<longleftrightarrow> ?u < 100" "x < 1000 \<longleftrightarrow> ?u < 1000" "x < 10000 \<longleftrightarrow> ?u < 10000"
    by (simp_all add: word_less_nat_alt)
  have d: "?u div 10 div 10 = ?u div 100" "?u div 100 div 10 = ?u div 1000" "?u div 1000 div 10 = ?u div 10000"
    by (simp_all flip: div_mult2_eq)
  note s = length_nat_text_step [of ?u] length_nat_text_step [of "?u div 10"] length_nat_text_step [of "?u div 100"]
    length_nat_text_step [of "?u div 1000"]
  note l = length_nat_text_small [of ?u] length_nat_text_small [of "?u div 10"] length_nat_text_small [of "?u div 100"]
    length_nat_text_small [of "?u div 1000"]
  consider "?u < 10" | "10 \<le> ?u" "?u < 100" | "100 \<le> ?u" "?u < 1000" | "1000 \<le> ?u" "?u < 10000" | "10000 \<le> ?u"
    by linarith
  then show ?case
  proof cases
    case 5
    then have "Suc (count_digits_loop (n + 4) (x div 10000)) = n + 4 + length (nat_text (?u div 10000))"
      using 1 w by (simp add: unat_div)
    moreover have "10 \<le> ?u div 10" "10 \<le> ?u div 100" "10 \<le> ?u div 1000" using 5 by simp_all
    ultimately show ?thesis using 5 s d w by (subst count_digits_loop.simps) simp
  qed (use s l d w in \<open>subst count_digits_loop.simps, simp\<close>)+
qed

lemma count_digits_length: "count_digits x = length (nat_text (unat x))"
  using count_digits_loop_length [of 1 x] by (simp add: count_digits_def)

section \<open>Writing\<close>

text \<open>The position is behind the characters still to be filled in.\<close>

lemma put_back_text: "put_back c (as @ a # ds, Suc (length as)) = Inr (as @ c # ds, length as)"
  by (simp add: put_back_def check_def)

lemma put_pair_text:
  assumes "i < 100"
  shows "put_pair i (as @ a # b # ds, Suc (Suc (length as))) =
    Inr (as @ digit_char (i div 10) # digit_char (i mod 10) # ds, length as)"
proof -
  have "digits_to_99 ! i = (digit_char (i div 10), digit_char (i mod 10))"
    using assms by (simp add: digits_to_99_def)
  then show ?thesis
    using put_back_text [of "digit_char (i mod 10)" "as @ [a]" b ds] put_back_text [of "digit_char (i div 10)" as a]
    by (simp add: put_pair_def)
qed

lemma two_at_end: "length bs = Suc (Suc n) \<Longrightarrow> \<exists>cs a b. bs = cs @ [a, b] \<and> length cs = n"
  by (cases bs rule: rev_cases; simp) (metis append.assoc append_Cons append_Nil length_append_singleton nat.inject rev_exhaust
      list.size(3) nat.distinct(1))

lemma write_digits_text:
  assumes "length bs = length (nat_text (unat x))"
  shows "write_digits x (as @ bs @ ds, length as + length bs) = Inr (as @ nat_text (unat x) @ ds, length as)"
  using assms
proof (induction "length bs" arbitrary: x bs ds rule: less_induct)
  case less
  let ?u = "unat x"
  have w: "100 \<le> x \<longleftrightarrow> 100 \<le> ?u" "10 \<le> x \<longleftrightarrow> 10 \<le> ?u" by (simp_all add: word_le_nat_alt)
  consider "?u < 10" | "10 \<le> ?u" "?u < 100" | "100 \<le> ?u" by linarith
  then show ?case
  proof cases
    case 3
    let ?d = "unat (x div 100)" and ?m = "unat (x mod 100)"
    have ud: "?d = ?u div 100" "?m = ?u mod 100" by (simp_all add: unat_div unat_mod)
    have t: "nat_text ?u = nat_text ?d @ [digit_char (?m div 10), digit_char (?m mod 10)]" and m: "?m < 100"
      using nat_text_100 [OF 3] ud by simp_all
    then have "length bs = Suc (Suc (length (nat_text ?d)))" using less.prems by simp
    then obtain cs a b where bs: "bs = cs @ [a, b]" "length cs = length (nat_text ?d)" using two_at_end by blast
    have "put_pair ?m (as @ bs @ ds, length as + length bs) =
        Inr ((as @ cs) @ digit_char (?m div 10) # digit_char (?m mod 10) # ds, length (as @ cs))"
      using put_pair_text [OF m, of "as @ cs" a b ds] bs(1) by simp
    moreover have "write_digits (x div 100) (as @ cs @ digit_char (?m div 10) # digit_char (?m mod 10) # ds, length as + length cs) =
        Inr (as @ nat_text ?d @ digit_char (?m div 10) # digit_char (?m mod 10) # ds, length as)"
      using less.hyps [of cs "x div 100"] bs by simp
    ultimately show ?thesis using 3 w t by (subst write_digits.simps) simp
  next
    case 2
    then have t: "nat_text ?u = [digit_char (?u div 10), digit_char (?u mod 10)]"
      using nat_text_step [of ?u] by (simp add: nat_text_small)
    then obtain cs a b where "bs = cs @ [a, b]" "length cs = 0" using two_at_end [of bs 0] less.prems by auto
    then show ?thesis using 2 w t put_pair_text [of ?u as a b ds] by (subst write_digits.simps) simp
  next
    case 1
    then obtain a where "bs = [a]" using less.prems by (cases bs) (auto simp: nat_text_small)
    then show ?thesis using 1 w put_back_text [of "digit_char ?u" as a ds]
      by (subst write_digits.simps) (simp add: nat_text_small)
  qed
qed

lemma nat_text_u64: "length (nat_text (unat (x :: u64))) \<le> 20"
proof (rule length_nat_text_bound)
  have "unat x < 2 ^ 64" using unsigned_less [of x] by simp
  then show "unat x < 10 ^ 20" by simp
qed simp

lemma nat_text_0: "nat_text 0 = ''0''"
  by (simp add: nat_text_small digit_char_def char_of_def bit_iff_odd)

lemma remove_sign_value:
  assumes "sint x < 0"
  shows "unat (remove_sign x) = nat (- sint x)"
proof -
  have x: "remove_sign x = word_of_int (- sint x)" by (simp add: remove_sign_def)
  have "- (2 ^ 63) \<le> sint x" using sint_greater_eq [of x] by simp
  then have "- sint x \<le> 2 ^ 63" by (simp only: minus_le_iff)
  also have "(2 :: int) ^ 63 < 2 ^ 64" by simp
  finally have "- sint x < 2 ^ 64" .
  moreover have "0 \<le> - sint x" using assms by simp
  ultimately have "take_bit 64 (- sint x) = - sint x" by (rule take_bit_int_eq_self [rotated])
  then show ?thesis unfolding x unsigned_of_int by simp
qed

lemma replicate_split: "n \<le> m \<Longrightarrow> replicate m c = replicate n c @ replicate (m - n) c"
  by (simp flip: replicate_add)

lemma dump_integer_text:
  "dump_integer False x = Inr (nat_text (unat x))"
  "sint x < 0 \<Longrightarrow> dump_integer True x = Inr (CHR ''-'' # nat_text (nat (- sint x)))"
proof -
  have assert: "json_assert True = Inr ()" by (simp add: json_assert_def check_def)
  have r: "replicate 64 c = replicate (length (nat_text (unat x))) c @ replicate (64 - length (nat_text (unat x))) c"
    and r': "replicate 63 c = replicate (length (nat_text (unat y))) c @ replicate (63 - length (nat_text (unat y))) c"
    for c :: char and x y :: u64 using nat_text_u64 [of x] nat_text_u64 [of y]
    by (intro replicate_split; linarith)+
  show "dump_integer False x = Inr (nat_text (unat x))"
    using nat_text_u64 [of x]
      write_digits_text [of "replicate (length (nat_text (unat x))) (CHR 0x00)" x "[]" "replicate (64 - length (nat_text (unat x))) (CHR 0x00)"]
      r [of "CHR 0x00" x]
    by (simp add: dump_integer_def nat_text_0 count_digits_length assert Let_def)
  assume "sint x < 0"
  let ?y = "remove_sign x"
  show "dump_integer True x = Inr (CHR ''-'' # nat_text (nat (- sint x)))"
    using nat_text_u64 [of ?y] remove_sign_value [OF \<open>sint x < 0\<close>] \<open>sint x < 0\<close> r' [of "CHR 0x00" ?y]
      write_digits_text [of "replicate (length (nat_text (unat ?y))) (CHR 0x00)" ?y "[CHR ''-'']"
        "replicate (63 - length (nat_text (unat ?y))) (CHR 0x00)"]
    by (auto simp: dump_integer_def count_digits_length assert Let_def)
qed

end
