(* ===== verification/Json_Roundtrip.thy ===== *)
theory Json_Roundtrip
  imports Grisu_Text Json_Complete Json_Escape Json_Numbers
begin

text \<open>
  What \<open>dump\<close> prints is a text of the grammar for the value, so \<open>parse\<close> gives the value
  back: for every value of strings in UTF-8, negative and unsigned integers, finite doubles that
  \<open>strtod\<close> rounds correctly, Booleans, null, arrays and objects, compact or with any indentation
  that fits the buffer of 512 characters.
\<close>

section \<open>Strings\<close>

lemma digit_value_hex:
  assumes "i < 16"
  shows "digit_value (hex_char i) = Some i"
proof -
  have "list_all (\<lambda>i. digit_value (hex_char i) = Some i) [0, 1, 2, 3, 4, 5, 6, 7, 8, 9, 10, 11, 12, 13, 14, 15]"
    by (simp add: hex_char_def digit_value_def Let_def)
  moreover have "i \<in> set [0, 1, 2, 3, 4, 5, 6, 7, 8, 9, 10, 11, 12, 13, 14, 15]"
    using assms by (cases "i < 8") auto
  ultimately show ?thesis unfolding list_all_iff by blast
qed

lemma hex_quad4:
  assumes "n < 65536"
  shows "hex_quad (hex4 n) n"
proof -
  let ?i = "n div 4096 mod 16" and ?j = "n div 256 mod 16" and ?k = "n div 16 mod 16" and ?l = "n mod 16"
  have "n div 16 div 16 = n div 256" "n div 256 div 16 = n div 4096" by (simp_all flip: div_mult2_eq)
  moreover have "n div 4096 mod 16 = n div 4096" using assms by (simp add: less_mult_imp_div_less)
  ultimately have "n = 4096 * ?i + 256 * ?j + 16 * ?k + ?l"
    using div_mult_mod_eq [of n 16] div_mult_mod_eq [of "n div 16" 16] div_mult_mod_eq [of "n div 256" 16] by linarith
  moreover have "hex_quad (hex4 n) (4096 * ?i + 256 * ?j + 16 * ?k + ?l)"
    unfolding hex4_def by (intro hex_quad.intros digit_value_hex) simp_all
  ultimately show ?thesis by metis
qed

lemma utf8_small: "n \<le> 0x7F \<Longrightarrow> utf8 n = [char_of n]"
  by (simp add: utf8_def utf8_bytes_def)

lemma short_escape_body:
  assumes "short_escape n = Some c"
  shows "(c, char_of n) \<in> set simple_escapes" "utf8 n = [char_of n]"
proof -
  have "n \<in> {0x08, 0x09, 0x0A, 0x0C, 0x0D, 0x22, 0x5C}"
    using assms unfolding short_escape_def by (auto split: if_splits)
  then show "(c, char_of n) \<in> set simple_escapes" "utf8 n = [char_of n]"
    using assms unfolding short_escape_def insert_iff empty_iff
    by (elim disjE; simp add: simple_escapes_def utf8_small char_of_def bit_iff_odd)+
qed

lemma escaped_body:
  assumes "scalar n" and "string_body t v"
  shows "string_body (escaped ascii n @ t) (utf8 n @ v)"
proof (cases "short_escape n")
  case (Some c)
  then show ?thesis using short_escape_body [OF Some] string_body.short [OF _ assms(2)] by (simp add: escaped_def)
next
  case None
  have max: "n \<le> 0x10FFFF" using assms(1) by (auto simp: scalar_def)
  consider "n \<le> 0x1F \<or> ascii \<and> 0x7F \<le> n" "n \<le> 0xFFFF" | "n \<le> 0x1F \<or> ascii \<and> 0x7F \<le> n" "0xFFFF < n"
    | "\<not> (n \<le> 0x1F \<or> ascii \<and> 0x7F \<le> n)" by linarith
  then show ?thesis
  proof cases
    case 1
    then show ?thesis using None string_body.unicode [OF hex_quad4 assms] by (simp add: escaped_def hex_escape_def)
  next
    case 2
    let ?h = "0xD7C0 + n div 1024" and ?l = "0xDC00 + n mod 1024"
    have d: "n div 1024 \<le> 1087" "64 \<le> n div 1024"
      using div_le_mono [OF max, of 1024] div_le_mono [of 65536 n 1024] 2(2) by simp_all
    have m: "n mod 1024 < 1024" by simp
    have h: "?h < 65536" "?l < 65536" "0xD800 \<le> ?h" "?h \<le> 0xDBFF" "0xDC00 \<le> ?l" "?l \<le> 0xDFFF"
      using d m by simp_all
    have "1024 * (?h - 0xD800) = 1024 * (n div 1024) - 65536" using h(3) by simp
    moreover have "1024 * (n div 1024) + n mod 1024 = n" "65536 \<le> 1024 * (n div 1024)"
      using d(2) by simp_all
    ultimately have n: "0x10000 + 1024 * (?h - 0xD800) + (?l - 0xDC00) = n" by linarith
    show ?thesis
      using string_body.surrogates [OF hex_quad4 [OF h(1)] hex_quad4 [OF h(2)] h(3-6) assms(2)] 2 None
      unfolding n by (simp add: escaped_def hex_escape_def)
  next
    case 3
    have "n \<noteq> 0x22" "n \<noteq> 0x5C" using None by (auto simp: short_escape_def)
    then have "string_body (utf8 n @ t) (utf8 n @ v)" using 3 string_body.plain [OF assms(1) _ _ _ assms(2)] by simp
    moreover have "escaped ascii n = utf8 n" using 3 None by (auto simp: escaped_def)
    ultimately show ?thesis by simp
  qed
qed

lemma escaped_text_body:
  assumes "\<forall>n \<in> set ns. scalar n"
  shows "string_body (concat (map (escaped ascii) ns)) (concat (map utf8 ns))"
  using assms by (induction ns) (simp_all add: string_body.empty escaped_body)

definition utf8_text :: "string \<Rightarrow> bool" where
  "utf8_text s \<longleftrightarrow> (\<exists>ns. (\<forall>n \<in> set ns. scalar n) \<and> s = concat (map utf8 ns))"

lemma dump_escaped_body:
  assumes "utf8_text s"
  obtains t where "dump_escaped h s ascii = Inr t" and "string_body t s"
  using assms dump_escaped_text escaped_text_body unfolding utf8_text_def by metis

section \<open>Numbers\<close>

lemma nat_text_digits: "digits (nat_text n)"
proof (induction n rule: nat_text.induct)
  case (1 n)
  have "digit (of_char (digit_char d))" if "d < 10" for d
    using that by (simp add: digit_char_def digit_def of_char_byte)
  then show ?case using 1 by (cases "n < 10") (simp_all add: nat_text_small nat_text_step digits_def)
qed

lemma nat_text_first: "0 < n \<Longrightarrow> hd (nat_text n) \<noteq> CHR ''0''"
proof (induction n rule: nat_text.induct)
  case (1 n)
  show ?case
  proof (cases "n < 10")
    case True
    have "of_char (digit_char n) \<noteq> (0x30 :: nat)" using 1(2) True by (simp add: digit_char_def)
    then show ?thesis using True by (auto simp: nat_text_small)
  next
    case False
    then show ?thesis using 1 by (simp add: nat_text_step)
  qed
qed

lemma decimal_append: "decimal n (xs @ ys) = decimal (decimal n xs) ys"
  by (induction n xs rule: decimal.induct) simp_all

lemma decimal_nat_text: "decimal 0 (nat_text n) = n"
proof (induction n rule: nat_text.induct)
  case (1 n)
  have d: "of_char (digit_char d) - 0x30 = d" if "d < 10" for d using that by (simp add: digit_char_def)
  then show ?case using 1 by (cases "n < 10") (simp_all add: nat_text_small nat_text_step decimal_append)
qed

lemma int_part_nat_text: "int_part (nat_text n)"
  using nat_text_digits [of n] nat_text_first [of n] by (cases "n = 0") (simp_all add: int_part_def nat_text_0)

lemma number_text_unsigned: "number_text strtod (nat_text (unat n)) (J_Unsigned n)"
proof -
  have "number_value strtod False (nat_text (unat n)) ([] @ []) = J_Unsigned n"
    using unsigned_less [of n] by (simp add: number_value_def decimal_nat_text)
  then show ?thesis
    using number_text.intros [of "nat_text (unat n)" "[]" "[]" "J_Unsigned n" strtod False] int_part_nat_text
    by (simp add: fraction_part_def exponent_part_def)
qed

lemma number_text_negative:
  assumes "sint n < 0"
  shows "number_text strtod (CHR ''-'' # nat_text (nat (- sint n))) (J_Integer n)"
proof -
  have "- (2 ^ 63) \<le> sint n" using sint_greater_eq [of n] by simp
  then have "nat (- sint n) \<le> 2 ^ 63" by (simp add: nat_le_iff minus_le_iff)
  moreover have "word_of_nat (nat (- sint n)) = - n" using assms by simp
  ultimately have "number_value strtod True (nat_text (nat (- sint n))) ([] @ []) = J_Integer n"
    by (simp add: number_value_def decimal_nat_text)
  then show ?thesis
    using number_text.intros [of "nat_text (nat (- sint n))" "[]" "[]" "J_Integer n" strtod True] int_part_nat_text
    by (simp add: fraction_part_def exponent_part_def)
qed

section \<open>Values\<close>

text \<open>The values that have a text whatever \<open>strtod\<close> does: no double, no binary value, nothing discarded.\<close>

inductive printable :: "json \<Rightarrow> bool" where
  "printable J_Null"
| "printable (J_Bool b)"
| "printable (J_Unsigned n)"
| "sint n < 0 \<Longrightarrow> printable (J_Integer n)"
| "utf8_text s \<Longrightarrow> printable (J_String s)"
| "(\<And>x. x \<in> set xs \<Longrightarrow> printable x) \<Longrightarrow> printable (J_Array xs)"
| "key_order ms \<Longrightarrow> (\<And>k x. (k, x) \<in> set ms \<Longrightarrow> utf8_text k \<and> printable x) \<Longrightarrow> printable (J_Object ms)"

text \<open>With the doubles that \<open>strtod\<close> reads as the standard promises.\<close>

inductive round_trips :: "(string \<Rightarrow> double) \<Rightarrow> json \<Rightarrow> bool" for strtod where
  "round_trips strtod J_Null"
| "round_trips strtod (J_Bool b)"
| "round_trips strtod (J_Unsigned n)"
| "sint n < 0 \<Longrightarrow> round_trips strtod (J_Integer n)"
| "utf8_text s \<Longrightarrow> round_trips strtod (J_String s)"
| "(\<And>x. x \<in> set xs \<Longrightarrow> round_trips strtod x) \<Longrightarrow> round_trips strtod (J_Array xs)"
| "key_order ms \<Longrightarrow> (\<And>k x. (k, x) \<in> set ms \<Longrightarrow> utf8_text k \<and> round_trips strtod x) \<Longrightarrow> round_trips strtod (J_Object ms)"
| "isfinite d \<Longrightarrow> rounds_correctly strtod d \<Longrightarrow> round_trips strtod (J_Float d)"

lemma printable_round_trips: "printable j \<Longrightarrow> round_trips strtod j"
  by (induction rule: printable.induct) (auto intro: round_trips.intros)

fun depth :: "json \<Rightarrow> nat" where
  "depth (J_Array xs) = Suc (Max (insert 0 (set (map depth xs))))"
| "depth (J_Object ms) = Suc (Max (insert 0 (set (map (\<lambda>(k, x). depth x) ms))))"
| "depth _ = 0"

lemma depth_element: "x \<in> set xs \<Longrightarrow> depth x < depth (J_Array xs)"
  by (simp add: less_Suc_eq_le)

lemma depth_member: "(k, x) \<in> set ms \<Longrightarrow> depth x < depth (J_Object ms)"
  by (simp add: less_Suc_eq_le) (rule Max_ge, auto)

declare depth.simps [simp del]

text \<open>
  The indentation \<open>n\<close> fits, and leaves the string of spaces as it is. Compact printing has none.
\<close>

definition fits :: "dump_options \<Rightarrow> string \<Rightarrow> u32 \<Rightarrow> nat \<Rightarrow> bool" where
  "fits opt ind n d \<longleftrightarrow> blank ind \<and> (pretty_print opt \<longrightarrow> unat n + unat (indent_step opt) * d \<le> length ind \<and> length ind \<le> 512)"

definition prints :: "(string \<Rightarrow> double) \<Rightarrow> dump_options \<Rightarrow> string \<Rightarrow> u32 \<Rightarrow> json \<Rightarrow> bool" where
  "prints strtod opt ind n j \<longleftrightarrow> (\<exists>t. dump_value opt n j ind = Inr (t, ind) \<and> json_text strtod t j)"

lemma blank_append [simp]: "blank (u @ w) \<longleftrightarrow> blank u \<and> blank w" "blank [] \<longleftrightarrow> True"
  by (auto simp: blank_def)

lemma blank_take: "blank w \<Longrightarrow> blank (take n w)"
  using set_take_subset [of n w] by (auto simp: blank_def)

text \<open>One level deeper.\<close>

lemma fits_deeper:
  assumes "fits opt ind n (Suc d)" and "pretty_print opt"
  shows "unat (n + indent_step opt) = unat n + unat (indent_step opt)" "fits opt ind (n + indent_step opt) d"
    "grow_indent (n + indent_step opt) ind = ind"
    "write_indent (n + indent_step opt) ind = Inr (take (unat n + unat (indent_step opt)) ind)"
    "write_indent n ind = Inr (take (unat n) ind)"
proof -
  have l: "unat n + unat (indent_step opt) + unat (indent_step opt) * d \<le> length ind" "length ind \<le> 512" "blank ind"
    using assms by (simp_all add: fits_def algebra_simps)
  then show u: "unat (n + indent_step opt) = unat n + unat (indent_step opt)" by (simp add: unat_word_ariths)
  show "fits opt ind (n + indent_step opt) d" "grow_indent (n + indent_step opt) ind = ind"
    "write_indent (n + indent_step opt) ind = Inr (take (unat n + unat (indent_step opt)) ind)"
    "write_indent n ind = Inr (take (unat n) ind)"
    using l u by (simp_all add: fits_def grow_indent_def write_indent_def check_def)
qed

text \<open>The elements, between blanks.\<close>

lemma dump_elements_text:
  assumes "xs \<noteq> []" and "\<And>x. x \<in> set xs \<Longrightarrow> prints strtod opt ind n x"
    and "pretty_print opt \<Longrightarrow> write_indent n ind = Inr w \<and> blank w"
  shows "\<exists>t. dump_elements opt n xs (Inr (u, ind)) = Inr (u @ t, ind)
    \<and> (\<forall>a b. blank a \<longrightarrow> blank b \<longrightarrow> elements_text strtod (a @ t @ b) xs)"
  using assms(1,2)
proof (induction xs arbitrary: u)
  case (Cons x xs)
  define i where "i = (if pretty_print opt then w else [])"
  define sep where "sep = (if pretty_print opt then [CHR 0x0A] else [])"
  have i: "blank i" "before_element opt n (Inr (u, ind)) = Inr (u @ i, ind)"
    using assms(3) by (simp_all add: i_def before_element_def then_indent_def)
  have sep: "blank sep" by (cases "pretty_print opt") (simp_all add: sep_def blank_def)
  have after: "after_element opt False (Inr (v, ind)) = Inr (v @ CHR '','' # sep, ind)" for v
    by (simp add: after_element_def then_text_def sep_def)
  obtain t where t: "dump_value opt n x ind = Inr (t, ind)" "json_text strtod t x" using Cons.prems(2) by (auto simp: prints_def)
  show ?case
  proof (cases "xs = []")
    case True
    have "elements_text strtod (a @ (i @ t) @ b) [x]" if "blank a" "blank b" for a b
      using last_element [of "a @ i" strtod t x b] that i t(2) by simp
    then show ?thesis using True i t by (intro exI [of _ "i @ t"]) (simp add: after_element_def)
  next
    case False
    obtain t' where t': "dump_elements opt n xs (Inr ((u @ i @ t @ CHR '','' # sep), ind)) = Inr ((u @ i @ t @ CHR '','' # sep) @ t', ind)"
      "\<forall>a b. blank a \<longrightarrow> blank b \<longrightarrow> elements_text strtod (a @ t' @ b) xs"
      using Cons.IH [OF False, of "u @ i @ t @ CHR '','' # sep"] Cons.prems(2) by auto
    have "elements_text strtod (a @ (i @ t @ CHR '','' # sep @ t') @ b) (x # xs)" if "blank a" "blank b" for a b
      using element [of "a @ i" strtod t x "[]" "sep @ t' @ b" xs] that i t(2) t'(2) sep by simp
    then show ?thesis using False i t t'(1)
      by (intro exI [of _ "i @ t @ CHR '','' # sep @ t'"]) (simp add: after)
  qed
qed simp

lemma dump_members_text:
  assumes "ms \<noteq> []" and "\<And>k x. (k, x) \<in> set ms \<Longrightarrow> utf8_text k \<and> prints strtod opt ind n x"
    and "pretty_print opt \<Longrightarrow> write_indent n ind = Inr w \<and> blank w"
  shows "\<exists>t. dump_members opt n ms (Inr (u, ind)) = Inr (u @ t, ind)
    \<and> (\<forall>a b. blank a \<longrightarrow> blank b \<longrightarrow> members_text strtod (a @ t @ b) ms)"
  using assms(1,2)
proof (induction ms arbitrary: u)
  case (Cons m ms)
  obtain k x where m: "m = (k, x)" by (cases m)
  define i where "i = (if pretty_print opt then w else [])"
  define sep where "sep = (if pretty_print opt then [CHR 0x0A] else [])"
  define sp where "sp = (if pretty_print opt then '' '' else [])"
  have i: "blank i" "before_element opt n (Inr (u, ind)) = Inr (u @ i, ind)"
    using assms(3) by (simp_all add: i_def before_element_def then_indent_def)
  have sep: "blank sep" "blank sp" by (cases "pretty_print opt"; simp add: sep_def sp_def blank_def)+
  have after: "after_element opt False (Inr (v, ind)) = Inr (v @ CHR '','' # sep, ind)" for v
    by (simp add: after_element_def then_text_def sep_def)
  obtain t where t: "dump_value opt n x ind = Inr (t, ind)" "json_text strtod t x"
    using Cons.prems(2) [of k x] m by (auto simp: prints_def)
  obtain e where e: "dump_escaped (on_error opt) k (ensure_ascii opt) = Inr e" "string_body e k"
    using dump_escaped_body [of k] Cons.prems(2) [of k x] m by auto
  define kt where "kt = CHR 0x22 # e @ CHR 0x22 # CHR '':'' # sp"
  have key: "dump_key opt k = Inr kt" by (simp add: dump_key_def e(1) kt_def sp_def)
  show ?case
  proof (cases "ms = []")
    case True
    have "members_text strtod (a @ (i @ kt @ t) @ b) [(k, x)]" if "blank a" "blank b" for a b
      using last_member [of "a @ i" e k "[]" sp strtod t x b] that i t(2) e(2) sep by (simp add: kt_def)
    then show ?thesis using True i t key m
      by (intro exI [of _ "i @ kt @ t"]) (simp add: after_element_def then_text_def)
  next
    case False
    obtain t' where t': "dump_members opt n ms (Inr ((u @ i @ kt @ t @ CHR '','' # sep), ind)) =
        Inr ((u @ i @ kt @ t @ CHR '','' # sep) @ t', ind)"
      "\<forall>a b. blank a \<longrightarrow> blank b \<longrightarrow> members_text strtod (a @ t' @ b) ms"
      using Cons.IH [OF False, of "u @ i @ kt @ t @ CHR '','' # sep"] Cons.prems(2) by auto
    have "members_text strtod (a @ (i @ kt @ t @ CHR '','' # sep @ t') @ b) (m # ms)" if "blank a" "blank b" for a b
      using member [of "a @ i" e k "[]" sp strtod t x "[]" "sep @ t' @ b" ms] that i t(2) t'(2) e(2) sep m
      by (simp add: kt_def)
    then show ?thesis using False i t t'(1) key m
      by (intro exI [of _ "i @ kt @ t @ CHR '','' # sep @ t'"]) (simp add: after then_text_def)
  qed
qed simp

text \<open>Brackets around the elements or members, which \<open>body\<close> prints.\<close>

lemma container_text:
  assumes "\<And>u. \<exists>t. body (Inr (u, ind)) = Inr (u @ t, ind) \<and> P t" and "fits opt ind n (Suc d)"
  defines "new \<equiv> if pretty_print opt then n + indent_step opt else n"
  shows "\<exists>a t b. close_container opt ket n (body (open_container opt bra new ind)) = Inr (bra @ a @ t @ b @ ket, ind)
    \<and> blank a \<and> blank b \<and> P t"
proof (cases "pretty_print opt")
  case True
  note deep = fits_deeper [OF assms(2) True]
  let ?w = "take (unat n) ind"
  obtain t where t: "body (Inr (bra @ [CHR 0x0A], ind)) = Inr ((bra @ [CHR 0x0A]) @ t, ind)" "P t" using assms(1) by blast
  have "blank ?w" "blank [CHR 0x0A]" using assms(2) blank_take by (auto simp: fits_def blank_def)
  then show ?thesis using t deep(3,5) True
    by (intro exI [of _ "[CHR 0x0A]"] exI [of _ t] exI [of _ "CHR 0x0A # ?w"])
      (simp add: open_container_def close_container_def new_def then_text_def then_indent_def blank_def)
next
  case False
  obtain t where t: "body (Inr (bra, ind)) = Inr (bra @ t, ind)" "P t" using assms(1) by blast
  then show ?thesis using False
    by (intro exI [of _ "[]"] exI [of _ t]) (simp add: open_container_def close_container_def then_text_def)
qed

lemma fits_shallower: "fits opt ind n d \<Longrightarrow> d' \<le> d \<Longrightarrow> fits opt ind n d'"
  using mult_le_mono2 [of d' d "unat (indent_step opt)"] unfolding fits_def
  by (meson add_left_mono order_trans)

lemma deeper:
  assumes "fits opt ind n (Suc d)" and "d' \<le> d"
  defines "new \<equiv> if pretty_print opt then n + indent_step opt else n"
  shows "fits opt ind new d'"
    and "pretty_print opt \<Longrightarrow> \<exists>w. write_indent new ind = Inr w \<and> blank w"
proof -
  show "fits opt ind new d'"
    using fits_deeper(2) [OF assms(1)] fits_shallower assms(1,2) by (cases "pretty_print opt") (auto simp: new_def fits_def)
  show "\<exists>w. write_indent new ind = Inr w \<and> blank w" if "pretty_print opt"
    using fits_deeper(4) [OF assms(1) that] assms(1) that blank_take by (simp add: new_def fits_def)
qed

lemma depth_Suc: "depth (J_Array xs) = Suc (depth (J_Array xs) - 1)" "depth (J_Object ms) = Suc (depth (J_Object ms) - 1)"
  by (simp_all add: depth.simps)

lemma round_trips_prints:
  "round_trips strtod j \<Longrightarrow> fits opt ind n (depth j) \<Longrightarrow> prints strtod opt ind n j"
proof (induction j arbitrary: n rule: round_trips.induct)
  case (5 s)
  then show ?case using dump_escaped_body [of s "on_error opt" "ensure_ascii opt"] json_text_elements_text_members_text.string
    by (metis (no_types, lifting) dump_value.simps(3) prints_def rbind.simps(2) append_Cons)
next
  case (6 xs)
  show ?case
  proof (cases "xs = []")
    case True
    then show ?thesis using no_elements [of "[]"] by (simp add: prints_def)
  next
    case False
    let ?new = "if pretty_print opt then n + indent_step opt else n"
    have f: "fits opt ind n (Suc (depth (J_Array xs) - 1))" using 6(3) depth_Suc(1) by metis
    have p: "prints strtod opt ind ?new x" if "x \<in> set xs" for x
      using 6(2) [OF that] deeper(1) [OF f, of "depth x"] depth_element [OF that] by simp
    have w: "pretty_print opt \<Longrightarrow> write_indent ?new ind = Inr (projr (write_indent ?new ind)) \<and> blank (projr (write_indent ?new ind))"
      using deeper(2) [OF f order.refl] by auto
    obtain a t b where t: "close_container opt '']'' n (dump_elements opt ?new xs (open_container opt ''['' ?new ind)) =
        Inr (''['' @ a @ t @ b @ '']'', ind)" "blank a" "blank b"
      "\<forall>a b. blank a \<longrightarrow> blank b \<longrightarrow> elements_text strtod (a @ t @ b) xs"
      using container_text [OF dump_elements_text [OF False p w] f] by blast
    then have "json_text strtod (CHR ''['' # (a @ t @ b) @ '']'') (J_Array xs)"
      by (intro json_text_elements_text_members_text.array) simp
    then show ?thesis using t(1) False by (simp add: prints_def Let_def)
  qed
next
  case (7 ms)
  show ?case
  proof (cases "ms = []")
    case True
    then show ?thesis using no_members [of "[]"] by (simp add: prints_def)
  next
    case False
    let ?new = "if pretty_print opt then n + indent_step opt else n"
    have f: "fits opt ind n (Suc (depth (J_Object ms) - 1))" using 7(3) depth_Suc(2) by metis
    have p: "utf8_text k \<and> prints strtod opt ind ?new x" if "(k, x) \<in> set ms" for k x
      using 7(2) [OF that] deeper(1) [OF f, of "depth x"] depth_member [OF that] by simp
    have w: "pretty_print opt \<Longrightarrow> write_indent ?new ind = Inr (projr (write_indent ?new ind)) \<and> blank (projr (write_indent ?new ind))"
      using deeper(2) [OF f order.refl] by auto
    obtain a t b where t: "close_container opt ''}'' n (dump_members opt ?new ms (open_container opt ''{'' ?new ind)) =
        Inr (''{'' @ a @ t @ b @ ''}'', ind)" "blank a" "blank b"
      "\<forall>a b. blank a \<longrightarrow> blank b \<longrightarrow> members_text strtod (a @ t @ b) ms"
      using container_text [OF dump_members_text [OF False p w] f] by blast
    then have "json_text strtod (CHR ''{'' # (a @ t @ b) @ ''}'') (J_Object (sm.put_all ms []))"
      unfolding sm.put_all_def by (intro json_text_elements_text_members_text.object) simp
    then show ?thesis using t(1) False sm.put_all_entries [OF 7(1)] by (simp add: prints_def Let_def)
  qed
next
  case (8 d)
  obtain t where t: "to_chars 64 d = Inr t" "double_text d t"
    by (rule to_chars_result [OF 8(1), of 64]) simp_all
  have "json_text strtod t (J_Float d)"
    by (intro json_text_elements_text_members_text.number double_text_number [OF t(2)] 8)
  then show ?case using t(1) 8(1) by (simp add: prints_def dump_float_def then_text_def)
qed (auto simp: prints_def then_text_def dump_integer_text
    intro: json_text_elements_text_members_text.intros number_text_unsigned number_text_negative)

text \<open>A text of the grammar is a document.\<close>

lemma json_text_document: "json_text strtod t j \<Longrightarrow> document strtod t j"
  using document.intros [of "[]" "[]" strtod t j "[]"] by simp

lemma dump_document:
  assumes "round_trips strtod j" and "indent < 0 \<or> indent * int (depth j) \<le> 512" and "blank [indent_char]"
  obtains t where "basic_json_dump indent indent_char ascii h j = Inr t" and "document strtod t j"
proof -
  let ?opt = "\<lparr>pretty_print = 0 \<le> indent, ensure_ascii = ascii,
    indent_step = (if 0 \<le> indent then word_of_int indent else 0), on_error = h\<rparr>"
  let ?ind = "replicate 512 indent_char"
  have b: "blank ?ind" using assms(3) by (auto simp: blank_def)
  have "fits ?opt ?ind 0 (depth j)"
  proof (cases "0 \<le> indent \<and> depth j \<noteq> 0")
    case True
    then have i: "indent * int (depth j) \<le> 512" "0 \<le> indent" "1 \<le> int (depth j)" using assms(2) by auto
    have "indent * 1 \<le> indent * int (depth j)" using i by (intro mult_left_mono) simp_all
    then have "indent \<le> 512" using i(1) by simp
    then have "unat (word_of_int indent :: u32) = nat indent" using i(2) by (simp add: unsigned_of_int take_bit_int_eq_self)
    moreover have "nat indent * depth j \<le> 512" using i nat_mult_distrib [of indent "int (depth j)"] by simp
    ultimately show ?thesis using b by (simp add: fits_def)
  qed (use b in \<open>auto simp: fits_def\<close>)
  from round_trips_prints [OF assms(1) this]
  obtain t where "dump_value ?opt 0 j ?ind = Inr (t, ?ind)" "json_text strtod t j" unfolding prints_def by blast
  then show thesis using that json_text_document by (simp add: basic_json_dump_def Let_def)
qed

end
