(* ===== verification/IPC_Client.thy ===== *)
theory IPC_Client
  imports Json_Roundtrip
begin

text \<open>
  \<^verbatim>\<open>src/IPCClient.cpp\<close>: the calls to the server. gRPC is a parameter: for the body of a
  request, \<open>None\<close> is a failed status and \<open>Some\<close> the body of the reply; a stream is the list of
  the bodies read before it ends. Bodies are JSON texts. What the client relies on is the interface
  \<open>json_codec\<close>, discharged for \<open>json::parse\<close> and \<open>json::dump\<close>.
\<close>

section \<open>JSON texts\<close>

text \<open>\<open>json::parse(body)\<close> and \<open>dump()\<close> with the arguments the sources leave to their defaults.\<close>

definition json_parse :: "(string \<Rightarrow> double) \<Rightarrow> string \<Rightarrow> json result" where
  "json_parse strtod body =
    (case basic_json_parse strtod body True False of Inl ex \<Rightarrow> Inl ParseError | Inr j \<Rightarrow> Inr j)"

definition json_dump :: "json \<Rightarrow> string result" where
  "json_dump j = basic_json_dump (-1) (CHR '' '') False Strict j"

locale json_codec =
  fixes parse :: "string \<Rightarrow> json result" and dump :: "json \<Rightarrow> string result" and ok :: "json \<Rightarrow> bool"
  assumes dump_ok: "ok j \<Longrightarrow> \<exists>t. dump j = Inr t"
    and parse_dump: "ok j \<Longrightarrow> dump j = Inr t \<Longrightarrow> parse t = Inr j"
begin

text \<open>The text of a value.\<close>

definition text_of :: "json \<Rightarrow> string" where
  "text_of j = projr (dump j)"

lemma text_of:
  assumes "ok j"
  shows "dump j = Inr (text_of j)" "parse (text_of j) = Inr j"
  using dump_ok [OF assms] parse_dump [OF assms] by (auto simp: text_of_def)

lemma text_of_inj: "ok j \<Longrightarrow> ok j' \<Longrightarrow> text_of j = text_of j' \<Longrightarrow> j = j'"
  using text_of(2) [of j] text_of(2) [of j'] by (metis sum.inject(2))

end

interpretation jc: json_codec "json_parse strtod" json_dump printable
  for strtod
proof
  fix j t
  assume j: "printable j"
  obtain u where u: "json_dump j = Inr u" "document strtod u j"
    unfolding json_dump_def
    by (rule dump_document [OF printable_round_trips [OF j, of strtod], of "-1" "CHR '' ''" False Strict]) (auto simp: blank_def)
  then show "\<exists>t. json_dump j = Inr t" by blast
  show "json_dump j = Inr t \<Longrightarrow> json_parse strtod t = Inr j"
    using u document_parse [OF u(2)] by (simp add: json_parse_def)
qed

text \<open>Values of an initializer list.\<close>

lemma printable_init:
  assumes "\<forall>(k, x) \<in> set init. utf8_text k \<and> printable x"
  shows "printable (json_init init)"
proof -
  obtain ms where ms: "json_init init = J_Object ms" "key_order ms" "map_of ms = map_of init"
    using json_init_members by blast
  have "(k, x) \<in> set init" if "(k, x) \<in> set ms" for k x
    using that key_order_distinct [OF ms(2)] ms(3) by (metis map_of_SomeD map_of_is_SomeI)
  then show ?thesis using assms unfolding ms(1) by (intro printable.intros(7) [OF ms(2)]) blast
qed

lemma ascii_text:
  assumes "\<forall>c \<in> set s. of_char c < (0x80 :: nat)"
  shows "utf8_text s"
  unfolding utf8_text_def
proof (intro exI [of _ "map of_char s"] conjI)
  show "\<forall>n \<in> set (map of_char s). scalar n" using assms by (auto simp: scalar_def)
  show "s = concat (map utf8 (map of_char s))"
    using assms by (induction s) (simp_all add: utf8_small)
qed

section \<open>The calls\<close>

type_synonym server = "string \<Rightarrow> string option"

definition call :: "(string \<Rightarrow> double) \<Rightarrow> server \<Rightarrow> json \<Rightarrow> (json \<times> bool) result" where
  "call strtod srv ctx =
     rbind (json_dump ctx) (\<lambda>body.
     case srv body of
       Some reply \<Rightarrow>
         rbind (json_parse strtod reply) (\<lambda>re.
         rbind (value_int ''code'' 0 re) (\<lambda>code.
         if code = 200 then rbind (value_json ''reply'' J_Null re) (\<lambda>r. Inr (r, True))
         else Inr (J_Null, False)))
     | None \<Rightarrow> Inr (J_Null, False))"

fun read_loop :: "string list \<Rightarrow> (string \<Rightarrow> 's \<Rightarrow> 's result) \<Rightarrow> 's \<Rightarrow> 's result" where
  "read_loop [] msgHandle s = Inr s"
| "read_loop (body # replies) msgHandle s = rbind (msgHandle body s) (read_loop replies msgHandle)"

text \<open>\<open>srv\<close> gives the bodies for the body of a request.\<close>

definition streamCall ::
    "json \<Rightarrow> (string \<Rightarrow> string list) \<Rightarrow> (string \<Rightarrow> 's \<Rightarrow> 's result) \<Rightarrow> 's \<Rightarrow> 's result"
where
  "streamCall ctx srv msgHandle s = rbind (json_dump ctx) (\<lambda>body. read_loop (srv body) msgHandle s)"

text \<open>
  \<open>dir\<close>: the directory of the application. The result is the path returned and the contents of
  the file there; whether the stream ended well (\<open>status_ok\<close>) makes no difference.
\<close>

definition recordDownload ::
    "string \<Rightarrow> json \<Rightarrow> (string \<Rightarrow> string list \<times> bool) \<Rightarrow> (string option \<times> (string \<times> string)) result"
where
  "recordDownload dir ctx srv =
     rbind (json_dump ctx) (\<lambda>body.
     let (buffers, status_ok) = srv body;
         root_path = dir @ ''/record''; save_path = root_path @ ''/record.flv'' in
     Inr (Some save_path, (save_path, concat buffers)))"

text \<open>What a server that answers a JSON value with a code and a JSON value makes of a request.\<close>

definition json_server :: "(string \<Rightarrow> double) \<Rightarrow> (json \<Rightarrow> u64 \<times> json) \<Rightarrow> server" where
  "json_server strtod handler body =
    (case json_parse strtod body of
       Inr j \<Rightarrow> (case handler j of (c, r) \<Rightarrow>
         (case json_dump (J_Object [(''code'', J_Unsigned c), (''reply'', r)]) of Inr t \<Rightarrow> Some t | Inl _ \<Rightarrow> None))
     | Inl _ \<Rightarrow> None)"

lemma printable_reply: "printable r \<Longrightarrow> printable (J_Object [(''code'', J_Unsigned c), (''reply'', r)])"
  by (rule printable.intros) (auto simp: key_order_def ascii_text intro: printable.intros)

lemma call_not_ok:
  assumes "call strtod srv ctx = Inr (reply, False)"
  shows "reply = J_Null"
  using assms by (auto simp: call_def rbind_Inr_iff split: option.splits if_splits)

text \<open>A call that reaches the server, on the value in the reply.\<close>

lemma call_reply:
  assumes "printable ctx" and "srv (jc.text_of ctx) = Some body" and "json_parse strtod body = Inr re"
  shows "call strtod srv ctx = rbind (value_int ''code'' 0 re) (\<lambda>code.
     if code = 200 then rbind (value_json ''reply'' J_Null re) (\<lambda>r. Inr (r, True)) else Inr (J_Null, False))"
  using assms jc.text_of(1) [OF assms(1)] by (simp add: call_def)

text \<open>The call is a call of what the server does with JSON values.\<close>

lemma call_json_server:
  assumes "printable ctx" and "printable (snd (handler ctx))"
  shows "call strtod (json_server strtod handler) ctx =
    Inr (if sint (ucast (fst (handler ctx)) :: u32) = 200 then (snd (handler ctx), True) else (J_Null, False))"
proof -
  obtain c r where h: "handler ctx = (c, r)" by (cases "handler ctx")
  let ?re = "J_Object [(''code'', J_Unsigned c), (''reply'', r)]"
  have re: "printable ?re" using assms(2) h by (intro printable_reply) simp
  have "json_server strtod handler (jc.text_of ctx) = Some (jc.text_of ?re)"
    using jc.text_of(2) [OF assms(1)] jc.text_of(1) [OF re] h by (simp add: json_server_def)
  from call_reply [where srv = "json_server strtod handler", OF assms(1) this jc.text_of(2) [OF re]] show ?thesis by (simp add: json_defs h)
qed

end
