(* ===== verification/Main_Ctrl.thy ===== *)
theory Main_Ctrl
  imports IPC_Client Video_Ctrl
begin

text \<open>
  \<^verbatim>\<open>src/MainCtrl.cpp\<close>: the viewer's devices and windows, and its dialogue with the
  server. A window owns its \<open>VideoCtrl\<close>; the operations the class uses of it are the interface
  \<open>video_window\<close>, discharged for the model of \<open>VideoCtrl\<close> at the end of its section. An
  exception of an operation is a fault. Indices are \<open>int\<close> as in the code, -1 for none.
\<close>

section \<open>The windows' interface\<close>

record 'v window_ops =
  op_play :: "string \<Rightarrow> string \<Rightarrow> 'v \<Rightarrow> (bool \<times> 'v) result"
  op_stop :: "'v \<Rightarrow> 'v"
  op_playAudio :: "'v \<Rightarrow> 'v"
  op_stopAudio :: "'v \<Rightarrow> 'v"

locale video_window =
  fixes ops :: "'v window_ops" and playing :: "'v \<Rightarrow> bool" and sounding :: "'v \<Rightarrow> bool"
  assumes play_starts: "op_play ops url enc v = Inr (True, v') \<Longrightarrow> \<not> playing v \<and> playing v' \<and> \<not> sounding v'"
    and play_refused: "op_play ops url enc v = Inr (False, v') \<Longrightarrow> playing v' = playing v"
    and stops: "\<not> playing (op_stop ops v)"
    and audio: "playing (op_playAudio ops v) = playing v" "sounding (op_playAudio ops v)"
      "playing (op_stopAudio ops v) = playing v" "\<not> sounding (op_stopAudio ops v)"
begin

lemma play_result:
  assumes "op_play ops url enc v = Inr (ret, v')"
  shows "playing v' = (ret \<or> playing v)"
  using assms play_starts [of url enc v v'] play_refused [of url enc v v'] by (cases ret) auto

end

text \<open>The operations of \<open>VideoCtrl\<close>; \<open>joined c\<close>: the receiver after its \<open>stop\<close> has returned.\<close>

definition video_ops :: "(capture \<Rightarrow> capture) \<Rightarrow> video_ctrl window_ops" where
  "video_ops joined = \<lparr>op_play = Video_Ctrl.play, op_stop = (\<lambda>s. Video_Ctrl.stop (joined (capture s)) s),
     op_playAudio = Video_Ctrl.playAudio, op_stopAudio = Video_Ctrl.stopAudio\<rparr>"

interpretation vw: video_window "video_ops joined" Video_Ctrl.is_playing Video_Ctrl.is_playing_audio
  for joined
proof
  fix url enc v v'
  assume "op_play (video_ops joined) url enc v = Inr (True, v')"
  then show "\<not> is_playing v \<and> is_playing v' \<and> \<not> is_playing_audio v'"
    by (auto simp: video_ops_def Video_Ctrl.play_def Let_def rbind_Inr_iff split: if_splits)
next
  fix url enc v v'
  assume "op_play (video_ops joined) url enc v = Inr (False, v')"
  then show "is_playing v' = is_playing v"
    by (auto simp: video_ops_def Video_Ctrl.play_def Let_def rbind_Inr_iff split: if_splits)
qed (auto simp: video_ops_def Video_Ctrl.stop_def Video_Ctrl.playAudio_def Video_Ctrl.stopAudio_def Let_def)

section \<open>State\<close>

record device_info =
  name :: string
  key :: string
  rtmp_url :: string
  encryption :: string
  is_active :: bool
  is_playing :: bool
  is_playing_audio :: bool
  window_idx :: int

record 'v window_info =
  win_playing :: bool
  device_idx :: int
  video_ctrl :: 'v

record 'v main_ctrl =
  devices :: "device_info list"
  windows :: "'v window_info list"
  rpc :: "(string \<times> string) option"
  is_talking :: bool
  talk_rtmp_push_url :: string
  msg_cb_thread :: bool
  token :: string
  init_device_list :: string
  server_ip :: string
  server_port :: string

definition new_MainCtrl :: "'v main_ctrl" where
  "new_MainCtrl = \<lparr>devices = [], windows = [], rpc = None, is_talking = False, talk_rtmp_push_url = [],
     msg_cb_thread = False, token = [], init_device_list = [], server_ip = [], server_port = []\<rparr>"

definition setServerIp :: "string \<Rightarrow> 'v main_ctrl \<Rightarrow> 'v main_ctrl" where
  "setServerIp ip s =
    (let s = s\<lparr>server_ip := ip\<rparr> in
     if server_ip s \<noteq> [] \<and> server_port s \<noteq> [] then s\<lparr>rpc := Some (server_ip s, server_port s)\<rparr> else s)"

definition setServerPort :: "string \<Rightarrow> 'v main_ctrl \<Rightarrow> 'v main_ctrl" where
  "setServerPort port s =
    (let s = s\<lparr>server_port := port\<rparr> in
     if server_ip s \<noteq> [] \<and> server_port s \<noteq> [] then s\<lparr>rpc := Some (server_ip s, server_port s)\<rparr> else s)"

section \<open>Looking at the devices\<close>

definition in_range :: "int \<Rightarrow> 'a list \<Rightarrow> bool" where
  "in_range idx xs \<longleftrightarrow> \<not> (idx < 0 \<or> int (length xs) \<le> idx)"

definition getDeviceName :: "int \<Rightarrow> 'v main_ctrl \<Rightarrow> string" where
  "getDeviceName idx s = (if in_range idx (devices s) then c_str (name (devices s ! nat idx)) else [])"

definition getDeviceIsPlaying :: "int \<Rightarrow> 'v main_ctrl \<Rightarrow> bool" where
  "getDeviceIsPlaying idx s = (in_range idx (devices s) \<and> is_playing (devices s ! nat idx))"

definition getWindowIsPlayingAudio :: "int \<Rightarrow> 'v main_ctrl \<Rightarrow> bool" where
  "getWindowIsPlayingAudio idx s =
    (in_range idx (windows s) \<and>
      (let d = device_idx (windows s ! nat idx) in
       in_range d (devices s) \<and> is_playing_audio (devices s ! nat d)))"

definition getDeivceIdxByWindowIdx :: "int \<Rightarrow> 'v main_ctrl \<Rightarrow> int" where
  "getDeivceIdxByWindowIdx idx s = (if in_range idx (windows s) then device_idx (windows s ! nat idx) else -1)"

definition getDeviceIsActive :: "int \<Rightarrow> 'v main_ctrl \<Rightarrow> bool" where
  "getDeviceIsActive idx s = (in_range idx (devices s) \<and> is_active (devices s ! nat idx))"

definition getEncryption :: "int \<Rightarrow> 'v main_ctrl \<Rightarrow> string" where
  "getEncryption idx s = (if in_range idx (devices s) then c_str (encryption (devices s ! nat idx)) else [])"

section \<open>Devices and windows\<close>

text \<open>A call needs the client that the server's address has made.\<close>

definition rpc_call :: "(string \<Rightarrow> double) \<Rightarrow> server \<Rightarrow> json \<Rightarrow> 'v main_ctrl \<Rightarrow> (json \<times> bool) result" where
  "rpc_call strtod srv ctx s = rbind (check (rpc s \<noteq> None) NullDeref) (\<lambda>_. call strtod srv ctx)"

definition unnamed_device :: string where
  "unnamed_device = [CHR 0xE6, CHR 0x9C, CHR 0xAA, CHR 0xE5, CHR 0x91, CHR 0xBD, CHR 0xE5, CHR 0x90,
     CHR 0x8D, CHR 0xE8, CHR 0xAE, CHR 0xBE, CHR 0xE5, CHR 0xA4, CHR 0x87]"

definition device_request :: "string \<Rightarrow> string \<Rightarrow> json" where
  "device_request tok k = json_init
     [(''method'', J_String ''get_device_info''), (''user'', J_String tok), (''key'', J_String k)]"

definition addDevice :: "(string \<Rightarrow> double) \<Rightarrow> server \<Rightarrow> string \<Rightarrow> 'v main_ctrl \<Rightarrow> (int \<times> 'v main_ctrl) result" where
  "addDevice strtod srv k s =
     rbind (rpc_call strtod srv (device_request (token s) k) s) (\<lambda>(ctx, ret).
     if \<not> ret then Inr (-1, s)
     else
       rbind (value_string ''name'' unnamed_device ctx) (\<lambda>nm.
       rbind (value_string ''rtmp_url'' [] ctx) (\<lambda>url.
       rbind (value_string ''encryption'' [] ctx) (\<lambda>enc.
       let info = \<lparr>name = nm, key = k, rtmp_url = url, encryption = enc, is_active = False,
             is_playing = False, is_playing_audio = False, window_idx = -1\<rparr>;
           s = s\<lparr>devices := devices s @ [info]\<rparr> in
       Inr (int (length (devices s)) - 1, s)))))"

definition addWindow :: "'v \<Rightarrow> 'v main_ctrl \<Rightarrow> int \<times> 'v main_ctrl" where
  "addWindow v s =
    (let s = s\<lparr>windows := windows s @ [\<lparr>win_playing = False, device_idx = -1, video_ctrl = v\<rparr>]\<rparr> in
     (int (length (windows s)) - 1, s))"

text \<open>The loop of \<open>findWindow\<close> from index \<open>i\<close> on, with the result so far.\<close>

fun find_loop :: "int \<Rightarrow> 'v window_info list \<Rightarrow> int \<Rightarrow> int" where
  "find_loop i [] idx = idx"
| "find_loop i (w # ws) idx = (if win_playing w then find_loop (i + 1) ws 0 else i)"

definition findWindow :: "'v main_ctrl \<Rightarrow> int" where
  "findWindow s = find_loop 0 (windows s) (-1)"

definition upd_window :: "int \<Rightarrow> ('v window_info \<Rightarrow> 'v window_info) \<Rightarrow> 'v main_ctrl \<Rightarrow> 'v main_ctrl" where
  "upd_window i f s = s\<lparr>windows := (windows s)[nat i := f (windows s ! nat i)]\<rparr>"

definition upd_device :: "int \<Rightarrow> (device_info \<Rightarrow> device_info) \<Rightarrow> 'v main_ctrl \<Rightarrow> 'v main_ctrl" where
  "upd_device i f s = s\<lparr>devices := (devices s)[nat i := f (devices s ! nat i)]\<rparr>"

definition stopVideo :: "'v window_ops \<Rightarrow> int \<Rightarrow> 'v main_ctrl \<Rightarrow> 'v main_ctrl" where
  "stopVideo ops idx s =
    (if \<not> in_range idx (devices s) then s
     else
       let w = window_idx (devices s ! nat idx) in
       if \<not> in_range w (windows s) then s
       else
         let s = upd_window w (\<lambda>x. x\<lparr>video_ctrl := op_stop ops (video_ctrl x)\<rparr>) s;
             s = upd_window w (\<lambda>x. x\<lparr>win_playing := False, device_idx := -1\<rparr>) s in
         upd_device idx (\<lambda>x. x\<lparr>is_playing := False, is_playing_audio := False, window_idx := -1\<rparr>) s)"

definition playVideo :: "'v window_ops \<Rightarrow> int \<Rightarrow> 'v main_ctrl \<Rightarrow> (int \<times> 'v main_ctrl) result" where
  "playVideo ops idx s =
    (if \<not> in_range idx (devices s) then Inr (-1, s)
     else
       let device = devices s ! nat idx in
       if \<not> is_active device \<or> is_playing device then Inr (-1, s)
       else
         let w = findWindow s in
         if w = -1 then Inr (-1, s)
         else
           let s = (if win_playing (windows s ! nat w)
                    then stopVideo ops (device_idx (windows s ! nat w)) s else s) in
           rbind (op_play ops (c_str (rtmp_url device)) (c_str (encryption device)) (video_ctrl (windows s ! nat w)))
             (\<lambda>(ret, v).
             let s = upd_window w (\<lambda>x. x\<lparr>video_ctrl := v\<rparr>) s in
             if \<not> ret then Inr (-1, s)
             else
               let s = upd_window w (\<lambda>x. x\<lparr>device_idx := idx, win_playing := True\<rparr>) s;
                   s = upd_device idx (\<lambda>x. x\<lparr>is_playing := True, window_idx := w\<rparr>) s in
               Inr (w, s)))"

definition playAudio :: "'v window_ops \<Rightarrow> int \<Rightarrow> 'v main_ctrl \<Rightarrow> 'v main_ctrl" where
  "playAudio ops w s =
    (if \<not> in_range w (windows s) then s
     else
       let window = windows s ! nat w in
       if \<not> in_range (device_idx window) (devices s) then s
       else if win_playing window then
         upd_device (device_idx window) (\<lambda>x. x\<lparr>is_playing_audio := True\<rparr>)
           (upd_window w (\<lambda>x. x\<lparr>video_ctrl := op_playAudio ops (video_ctrl x)\<rparr>) s)
       else s)"

definition stopAudio :: "'v window_ops \<Rightarrow> int \<Rightarrow> 'v main_ctrl \<Rightarrow> 'v main_ctrl" where
  "stopAudio ops w s =
    (if \<not> in_range w (windows s) then s
     else
       let window = windows s ! nat w in
       if \<not> in_range (device_idx window) (devices s) then s
       else
         upd_device (device_idx window) (\<lambda>x. x\<lparr>is_playing_audio := False\<rparr>)
           (if win_playing window
            then upd_window w (\<lambda>x. x\<lparr>video_ctrl := op_stopAudio ops (video_ctrl x)\<rparr>) s else s))"

section \<open>Talking\<close>

text \<open>The device shown in window \<open>w\<close>, if the indices are in range.\<close>

definition window_device :: "int \<Rightarrow> 'v main_ctrl \<Rightarrow> device_info option" where
  "window_device w s =
    (if in_range w (windows s) \<and> in_range (device_idx (windows s ! nat w)) (devices s)
     then Some (devices s ! nat (device_idx (windows s ! nat w))) else None)"

definition talk_request :: "string \<Rightarrow> string \<Rightarrow> json" where
  "talk_request ctrl k = json_init
     [(''method'', J_String ''talk_ctrl''), (''ctrl_type'', J_String ctrl), (''device_key'', J_String k)]"

definition startTalk :: "(string \<Rightarrow> double) \<Rightarrow> server \<Rightarrow> int \<Rightarrow> 'v main_ctrl \<Rightarrow> (bool \<times> 'v main_ctrl) result" where
  "startTalk strtod srv w s =
    (if is_talking s then Inr (False, s)
     else case window_device w s of None \<Rightarrow> Inr (False, s) | Some device \<Rightarrow>
       rbind (rpc_call strtod srv (talk_request ''start'' (key device)) s) (\<lambda>(ctx, ret).
       if \<not> ret then Inr (False, s)
       else
         rbind (value_string ''result'' [] ctx) (\<lambda>req_talk_ret.
         if req_talk_ret \<noteq> ''success'' then rbind (value_string ''err_msg'' [] ctx) (\<lambda>_. Inr (False, s))
         else
           rbind (value_string ''rtmp_push_url'' [] ctx) (\<lambda>url.
             Inr (True, s\<lparr>talk_rtmp_push_url := url, is_talking := True\<rparr>)))))"

definition stopTalk :: "(string \<Rightarrow> double) \<Rightarrow> server \<Rightarrow> int \<Rightarrow> 'v main_ctrl \<Rightarrow> 'v main_ctrl result" where
  "stopTalk strtod srv w s =
    (if \<not> is_talking s then Inr s
     else case window_device w s of None \<Rightarrow> Inr s | Some device \<Rightarrow>
       rbind (rpc_call strtod srv (talk_request ''stop'' (key device)) s) (\<lambda>_.
         Inr (s\<lparr>is_talking := False\<rparr>)))"

definition getTalkRtmpUrl :: "'v main_ctrl \<Rightarrow> string" where
  "getTalkRtmpUrl s = c_str (talk_rtmp_push_url s)"

section \<open>Messages of the server\<close>

text \<open>The loop over the devices stops at the first with the key.\<close>

fun set_active :: "string \<Rightarrow> bool \<Rightarrow> device_info list \<Rightarrow> device_info list" where
  "set_active k b [] = []"
| "set_active k b (d # ds) = (if key d = k then d\<lparr>is_active := b\<rparr> # ds else d # set_active k b ds)"

definition MessageHandle :: "(string \<Rightarrow> double) \<Rightarrow> string \<Rightarrow> 'v main_ctrl \<Rightarrow> 'v main_ctrl result" where
  "MessageHandle strtod msg s =
     rbind (json_parse strtod msg) (\<lambda>js_msg.
     rbind (value_json ''reply'' J_Null js_msg) (\<lambda>reply.
     if reply = J_Null then Inr s
     else
       rbind (value_string ''operation'' [] reply) (\<lambda>op.
       if op \<noteq> ''device status change'' then Inr s
       else
         rbind (value_string ''device_id'' [] reply) (\<lambda>device_id.
         rbind (value_string ''device_status'' [] reply) (\<lambda>device_status.
         if device_id = [] \<or> device_status = [] then Inr s
         else Inr (s\<lparr>devices := set_active device_id (device_status = ''active'') (devices s)\<rparr>))))))"

definition message_request :: "string \<Rightarrow> json" where
  "message_request tok = json_init [(''method'', J_String ''message_callback''), (''id'', J_String tok)]"

text \<open>
  The thread is joinable from its start to its \<open>join\<close>, whether the stream has ended or not, and
  assigning over it terminates the process. What it does, on the bodies that arrive:
\<close>

definition startMessageCallBack :: "'v main_ctrl \<Rightarrow> 'v main_ctrl result" where
  "startMessageCallBack s = rbind (check (\<not> msg_cb_thread s) Terminate) (\<lambda>_. Inr (s\<lparr>msg_cb_thread := True\<rparr>))"

definition message_thread ::
    "(string \<Rightarrow> double) \<Rightarrow> (string \<Rightarrow> string list) \<Rightarrow> 'v main_ctrl \<Rightarrow> 'v main_ctrl result" where
  "message_thread strtod srv s =
     rbind (check (rpc s \<noteq> None) NullDeref) (\<lambda>_.
       streamCall (message_request (token s)) srv (MessageHandle strtod) s)"

section \<open>Recordings and users\<close>

text \<open>The second result is the file written, if any.\<close>

definition record_request :: "string \<Rightarrow> string \<Rightarrow> string \<Rightarrow> json" where
  "record_request k begin_time end_time = json_init
     [(''key'', J_String k), (''begin_time'', J_String begin_time), (''end_time'', J_String end_time)]"

definition getRecordFile ::
    "string \<Rightarrow> (string \<Rightarrow> string list \<times> bool) \<Rightarrow> int \<Rightarrow> string \<Rightarrow> string \<Rightarrow> 'v main_ctrl \<Rightarrow>
     (string \<times> (string \<times> string) option) result"
where
  "getRecordFile dir srv idx begin_time end_time s =
    (if \<not> in_range idx (devices s) then Inr ([], None)
     else rbind (check (rpc s \<noteq> None) NullDeref) (\<lambda>_.
       rbind (recordDownload dir (record_request (key (devices s ! nat idx)) begin_time end_time) srv) (\<lambda>r.
       case r of (None, file) \<Rightarrow> Inr ([], Some file) | (Some path, file) \<Rightarrow> Inr (c_str path, Some file))))"

definition registered_ok :: string where
  "registered_ok = [CHR 0xE6, CHR 0xB3, CHR 0xA8, CHR 0xE5, CHR 0x86, CHR 0x8C, CHR 0xE6, CHR 0x88,
     CHR 0x90, CHR 0xE5, CHR 0x8A, CHR 0x9F]"

definition register_failed :: string where
  "register_failed = [CHR 0xE6, CHR 0xB3, CHR 0xA8, CHR 0xE5, CHR 0x86, CHR 0x8C, CHR 0xE5, CHR 0xA4,
     CHR 0xB1, CHR 0xE8, CHR 0xB4, CHR 0xA5]"

definition login_failed :: string where
  "login_failed = [CHR 0xE7, CHR 0x99, CHR 0xBB, CHR 0xE5, CHR 0xBD, CHR 0x95, CHR 0xE5, CHR 0xA4,
     CHR 0xB1, CHR 0xE8, CHR 0xB4, CHR 0xA5]"

definition login_ok :: string where
  "login_ok = [CHR 0xE7, CHR 0x99, CHR 0xBB, CHR 0xE5, CHR 0xBD, CHR 0x95, CHR 0xE6, CHR 0x88,
     CHR 0x90, CHR 0xE5, CHR 0x8A, CHR 0x9F]"

definition user_request :: "string \<Rightarrow> string \<Rightarrow> string \<Rightarrow> json" where
  "user_request method username password = json_init
     [(''method'', J_String method), (''username'', J_String username), (''password'', J_String password)]"

definition register_user :: "(string \<Rightarrow> double) \<Rightarrow> server \<Rightarrow> string \<Rightarrow> string \<Rightarrow> 'v main_ctrl \<Rightarrow> string result" where
  "register_user strtod srv username password s =
     rbind (rpc_call strtod srv (user_request ''register'' username password) s) (\<lambda>(reply, ret).
     rbind (if ret then value_string ''msg'' ''failure'' reply else Inr ''failure'') (\<lambda>msg.
     if ret \<and> msg = ''success'' then Inr registered_ok
     else rbind (value_string ''reason'' register_failed reply) (\<lambda>reason. Inr (c_str reason))))"

text \<open>What a successful login does once the token is stored.\<close>

definition after_login :: "json \<Rightarrow> 'v main_ctrl \<Rightarrow> 'v main_ctrl result" where
  "after_login reply s =
    (if token s \<noteq> [] then
       rbind (startMessageCallBack s) (\<lambda>s.
       rbind (value_json ''device_list'' (J_Array []) reply) (\<lambda>device_list.
       rbind (json_dump device_list) (\<lambda>txt. Inr (s\<lparr>init_device_list := txt\<rparr>))))
     else Inr s)"

definition login_user ::
    "(string \<Rightarrow> double) \<Rightarrow> server \<Rightarrow> string \<Rightarrow> string \<Rightarrow> 'v main_ctrl \<Rightarrow> (string \<times> 'v main_ctrl) result"
where
  "login_user strtod srv username password s =
     rbind (rpc_call strtod srv (user_request ''login'' username password) s) (\<lambda>(reply, ret).
     rbind (json_dump reply) (\<lambda>_.
     rbind (if ret then value_string ''msg'' ''failure'' reply else Inr ''failure'') (\<lambda>msg.
     if ret \<and> msg = ''success'' then
       rbind (value_string ''token'' [] reply) (\<lambda>tok.
       let s = s\<lparr>token := tok\<rparr> in
       rbind (after_login reply s) (\<lambda>s.
       Inr (if token s = [] then login_failed else login_ok, s)))
     else Inr (login_failed, s))))"

definition getAllDeviceKey :: "'v main_ctrl \<Rightarrow> string" where
  "getAllDeviceKey s = c_str (init_device_list s)"

text \<open>The destructor logs out, and joins the message thread.\<close>

definition logout_request :: "string \<Rightarrow> json" where
  "logout_request tok = json_init [(''method'', J_String ''logout''), (''token'', J_String tok)]"

definition delete_MainCtrl :: "(string \<Rightarrow> double) \<Rightarrow> server \<Rightarrow> 'v main_ctrl \<Rightarrow> unit result" where
  "delete_MainCtrl strtod srv s =
     rbind (rpc_call strtod srv (logout_request (token s)) s)
       (\<lambda>_. check (msg_cb_thread s) NullDeref)"

end
