(* ===== verification/Main_Windows.thy ===== *)
theory Main_Windows
  imports Main_Ctrl
begin

text \<open>
  What holds of the devices and windows of \<^verbatim>\<open>src/MainCtrl.cpp\<close>: the two tables
  refer to each other consistently and agree with the state of the \<open>VideoCtrl\<close> objects, whatever
  sequence of operations runs; what \<open>playVideo\<close> does; how the dialogue with the server fails.
\<close>

section \<open>Devices and windows belong together\<close>

text \<open>
  A window that plays shows the device whose entry names the window, and the other way round; a
  window plays exactly when its \<open>VideoCtrl\<close> does; only a playing device has its sound on, and
  exactly when its window has.
\<close>

definition win_ok :: "('v \<Rightarrow> bool) \<Rightarrow> 'v main_ctrl \<Rightarrow> nat \<Rightarrow> bool" where
  "win_ok playing s w \<longleftrightarrow>
     (let x = windows s ! w in
      win_playing x = playing (video_ctrl x) \<and> (win_playing x \<longleftrightarrow> device_idx x \<noteq> -1)
      \<and> (device_idx x \<noteq> -1 \<longrightarrow> 0 \<le> device_idx x \<and> nat (device_idx x) < length (devices s)
           \<and> window_idx (devices s ! nat (device_idx x)) = int w))"

definition dev_ok :: "('v \<Rightarrow> bool) \<Rightarrow> 'v main_ctrl \<Rightarrow> nat \<Rightarrow> bool" where
  "dev_ok sounding s d \<longleftrightarrow>
     (let x = devices s ! d in
      (is_playing x \<longleftrightarrow> window_idx x \<noteq> -1) \<and> (is_playing_audio x \<longrightarrow> is_playing x)
      \<and> (window_idx x \<noteq> -1 \<longrightarrow> 0 \<le> window_idx x \<and> nat (window_idx x) < length (windows s)
           \<and> device_idx (windows s ! nat (window_idx x)) = int d
           \<and> is_playing_audio x = sounding (video_ctrl (windows s ! nat (window_idx x)))))"

definition main_inv :: "('v \<Rightarrow> bool) \<Rightarrow> ('v \<Rightarrow> bool) \<Rightarrow> 'v main_ctrl \<Rightarrow> bool" where
  "main_inv playing sounding s \<longleftrightarrow>
     (\<forall>w < length (windows s). win_ok playing s w) \<and> (\<forall>d < length (devices s). dev_ok sounding s d)"

lemma upd_simps [simp]:
  "devices (upd_window i f s) = devices s" "windows (upd_device i g s) = windows s"
  "windows (upd_window i f s) = (windows s)[nat i := f (windows s ! nat i)]"
  "devices (upd_device i g s) = (devices s)[nat i := g (devices s ! nat i)]"
  by (simp_all add: upd_window_def upd_device_def)

lemma in_range_nat: "in_range i xs \<longleftrightarrow> 0 \<le> i \<and> nat i < length xs"
  by (auto simp: in_range_def)

text \<open>The window \<open>w\<close> is the one a new video goes to.\<close>

definition window_for_play :: "'v window_info list \<Rightarrow> nat \<Rightarrow> bool" where
  "window_for_play ws w \<longleftrightarrow> w < length ws \<and>
     (if \<exists>x \<in> set ws. \<not> win_playing x then \<not> win_playing (ws ! w) \<and> (\<forall>j < w. win_playing (ws ! j)) else w = 0)"

lemma find_loop_result:
  "(\<exists>j < length ws. find_loop i ws idx = i + int j \<and> \<not> win_playing (ws ! j) \<and> (\<forall>k < j. win_playing (ws ! k)))
    \<or> ((\<forall>x \<in> set ws. win_playing x) \<and> find_loop i ws idx = (if ws = [] then idx else 0))"
proof (induction ws arbitrary: i idx)
  case Nil
  then show ?case by simp
next
  case (Cons w ws)
  show ?case
  proof (cases "win_playing w")
    case True
    show ?thesis
      using Cons.IH [of "i + 1" 0]
    proof (elim disjE exE conjE)
      fix j assume "j < length ws" "find_loop (i + 1) ws 0 = i + 1 + int j" "\<not> win_playing (ws ! j)"
        "\<forall>k < j. win_playing (ws ! k)"
      then show ?thesis using True by (intro disjI1 exI [of _ "Suc j"]) (auto simp: less_Suc_eq_0_disj)
    qed (use True in auto)
  qed (auto intro!: exI [of _ 0])
qed

lemma findWindow_result:
  obtains "windows s = []" "findWindow s = -1"
  | w where "findWindow s = int w" "window_for_play (windows s) w"
  using find_loop_result [of "windows s" 0 "-1"]
proof (elim disjE exE conjE)
  fix j assume j: "j < length (windows s)" "find_loop 0 (windows s) (-1) = 0 + int j"
    "\<not> win_playing (windows s ! j)" "\<forall>k < j. win_playing (windows s ! k)"
  have "\<exists>x \<in> set (windows s). \<not> win_playing x" using j(1,3) by (blast intro: nth_mem)
  with j have "window_for_play (windows s) j" by (simp add: window_for_play_def)
  then show thesis using that(2) [of j] j(2) by (simp add: findWindow_def)
next
  assume a: "\<forall>x \<in> set (windows s). win_playing x"
    "find_loop 0 (windows s) (-1) = (if windows s = [] then -1 else 0)"
  show thesis
  proof (cases "windows s = []")
    case True
    then show thesis using that(1) a(2) by (simp add: findWindow_def)
  next
    case False
    then have "window_for_play (windows s) 0" using a(1) by (simp add: window_for_play_def)
    then show thesis using that(2) [of 0] a(2) False by (simp add: findWindow_def)
  qed
qed

section \<open>The operations keep them together\<close>

text \<open>The joint of a playing device and its window, and what unlinks and links one.\<close>

definition linked :: "'v main_ctrl \<Rightarrow> nat \<Rightarrow> nat \<Rightarrow> bool" where
  "linked s d w \<longleftrightarrow> d < length (devices s) \<and> w < length (windows s)
     \<and> window_idx (devices s ! d) = int w \<and> device_idx (windows s ! w) = int d"

lemma inv_window:
  assumes "main_inv playing sounding s" and "w < length (windows s)" and "device_idx (windows s ! w) \<noteq> -1"
  obtains d where "linked s d w" "win_playing (windows s ! w)"
    "device_idx (windows s ! w) = int d" "is_playing (devices s ! d)"
proof -
  have w: "win_ok playing s w" using assms(1,2) by (simp add: main_inv_def)
  define d where "d = nat (device_idx (windows s ! w))"
  have d: "device_idx (windows s ! w) = int d" "d < length (devices s)" "window_idx (devices s ! d) = int w"
    "win_playing (windows s ! w)"
    using w assms(3) by (auto simp: win_ok_def d_def Let_def)
  moreover have "dev_ok sounding s d" using assms(1) d(2) by (simp add: main_inv_def)
  ultimately show thesis using that [of d] assms(2) by (simp add: linked_def dev_ok_def Let_def)
qed

lemma inv_device:
  assumes "main_inv playing sounding s" and "d < length (devices s)" and "window_idx (devices s ! d) \<noteq> -1"
  obtains w where "linked s d w" "window_idx (devices s ! d) = int w"
proof -
  have d: "dev_ok sounding s d" using assms(1,2) by (simp add: main_inv_def)
  show thesis
    using that [of "nat (window_idx (devices s ! d))"] d assms(2,3) by (auto simp: dev_ok_def linked_def Let_def)
qed

lemma linked_unique:
  "linked s d w \<Longrightarrow> linked s d' w \<longleftrightarrow> d' = d" "linked s d w \<Longrightarrow> linked s d w' \<longleftrightarrow> w' = w"
  by (auto simp: linked_def)

text \<open>A change of one device and one window that nothing else refers to.\<close>

lemma inv_change:
  assumes inv: "main_inv playing sounding s"
    and ws: "windows s' = (windows s)[w := x]" and ds: "devices s' = (devices s)[d := y]"
    and d: "\<And>d'. d' < length (devices s) \<Longrightarrow> d' \<noteq> d \<Longrightarrow> window_idx (devices s ! d') \<noteq> int w"
    and w: "\<And>w'. w' < length (windows s) \<Longrightarrow> w' \<noteq> w \<Longrightarrow> device_idx (windows s ! w') \<noteq> int d"
    and "w < length (windows s) \<Longrightarrow> win_ok playing s' w" and "d < length (devices s) \<Longrightarrow> dev_ok sounding s' d"
  shows "main_inv playing sounding s'"
  unfolding main_inv_def
proof (intro conjI allI impI)
  fix w' assume w': "w' < length (windows s')"
  show "win_ok playing s' w'"
  proof (cases "w' = w")
    case False
    have l: "w' < length (windows s)" using w' ws by simp
    have ok: "win_ok playing s w'" using inv l by (simp add: main_inv_def)
    have "nat (device_idx (windows s ! w')) \<noteq> d" if "device_idx (windows s ! w') \<noteq> -1"
      using w [OF l False] ok that by (auto simp: win_ok_def Let_def)
    then show ?thesis using ok False by (auto simp: win_ok_def Let_def ws ds)
  qed (use assms(6) w' ws in auto)
next
  fix d' assume d': "d' < length (devices s')"
  show "dev_ok sounding s' d'"
  proof (cases "d' = d")
    case False
    have l: "d' < length (devices s)" using d' ds by simp
    have ok: "dev_ok sounding s d'" using inv l by (simp add: main_inv_def)
    have "nat (window_idx (devices s ! d')) \<noteq> w" if "window_idx (devices s ! d') \<noteq> -1"
      using d [OF l False] ok that by (auto simp: dev_ok_def Let_def)
    then show ?thesis using ok False by (auto simp: dev_ok_def Let_def ws ds)
  qed (use assms(7) d' ds in auto)
qed

lemma not_linked_others:
  assumes "main_inv playing sounding s" and "linked s d w"
  shows "d' < length (devices s) \<Longrightarrow> d' \<noteq> d \<Longrightarrow> window_idx (devices s ! d') \<noteq> int w"
    and "w' < length (windows s) \<Longrightarrow> w' \<noteq> w \<Longrightarrow> device_idx (windows s ! w') \<noteq> int d"
proof -
  show "window_idx (devices s ! d') \<noteq> int w" if a: "d' < length (devices s)" "d' \<noteq> d"
  proof
    assume e: "window_idx (devices s ! d') = int w"
    then have n: "window_idx (devices s ! d') \<noteq> -1" by simp
    obtain w'' where "linked s d' w''" "window_idx (devices s ! d') = int w''"
      by (rule inv_device [OF assms(1) a(1) n])
    then show False using e linked_unique(1) [OF assms(2), of d'] a(2) by simp
  qed
  show "device_idx (windows s ! w') \<noteq> int d" if a: "w' < length (windows s)" "w' \<noteq> w"
  proof
    assume e: "device_idx (windows s ! w') = int d"
    then have n: "device_idx (windows s ! w') \<noteq> -1" by simp
    obtain d'' where "linked s d'' w'" "device_idx (windows s ! w') = int d''"
      by (rule inv_window [OF assms(1) a(1) n])
    then show False using e linked_unique(2) [OF assms(2), of w'] a(2) by simp
  qed
qed

context video_window
begin

abbreviation inv :: "'v main_ctrl \<Rightarrow> bool" where
  "inv \<equiv> main_inv playing sounding"

lemma stopVideo_linked:
  assumes "linked s d w"
  shows "stopVideo ops (int d) s =
    s\<lparr>windows := (windows s)[w := (windows s ! w)\<lparr>video_ctrl := op_stop ops (video_ctrl (windows s ! w)),
        win_playing := False, device_idx := -1\<rparr>],
      devices := (devices s)[d := (devices s ! d)\<lparr>is_playing := False, is_playing_audio := False, window_idx := -1\<rparr>]\<rparr>"
  using assms by (simp add: stopVideo_def linked_def in_range_nat upd_window_def upd_device_def)

lemma stopVideo_inv:
  assumes "inv s"
  shows "inv (stopVideo ops idx s)"
proof (cases "in_range idx (devices s) \<and> window_idx (devices s ! nat idx) \<noteq> -1")
  case True
  then have idx: "idx = int (nat idx)" "nat idx < length (devices s)" by (auto simp: in_range_nat)
  obtain w where l: "linked s (nat idx) w" using inv_device [OF assms idx(2)] True by auto
  have e: "stopVideo ops idx s = stopVideo ops (int (nat idx)) s" using idx(1) by simp
  show ?thesis
    unfolding e stopVideo_linked [OF l]
    by (rule inv_change [OF assms, where w = w and d = "nat idx"])
      (use l not_linked_others [OF assms l] stops in \<open>auto simp: win_ok_def dev_ok_def linked_def\<close>)
next
  case False
  then show ?thesis using assms by (auto simp: stopVideo_def in_range_def)
qed

definition freed :: "nat \<Rightarrow> 'v main_ctrl \<Rightarrow> 'v main_ctrl" where
  "freed w s = (if win_playing (windows s ! w) then stopVideo ops (device_idx (windows s ! w)) s else s)"

definition freed_ctrl :: "nat \<Rightarrow> 'v main_ctrl \<Rightarrow> 'v" where
  "freed_ctrl w s = (if win_playing (windows s ! w) then op_stop ops (video_ctrl (windows s ! w))
     else video_ctrl (windows s ! w))"

lemma freed_inv: "inv s \<Longrightarrow> inv (freed w s)"
  by (simp add: freed_def stopVideo_inv)

lemma freed_window:
  assumes "inv s" and "w < length (windows s)"
  shows "length (windows (freed w s)) = length (windows s)"
    and "length (devices (freed w s)) = length (devices s)"
    and "\<not> win_playing (windows (freed w s) ! w)" and "device_idx (windows (freed w s) ! w) = -1"
    and "video_ctrl (windows (freed w s) ! w) = freed_ctrl w s"
    and "w' \<noteq> w \<Longrightarrow> windows (freed w s) ! w' = windows s ! w'"
    and "devices (freed w s) ! d = (if device_idx (windows s ! w) = int d \<and> d < length (devices s)
       then (devices s ! d)\<lparr>is_playing := False, is_playing_audio := False, window_idx := -1\<rparr> else devices s ! d)"
proof -
  have "length (windows (freed w s)) = length (windows s) \<and> length (devices (freed w s)) = length (devices s)
      \<and> \<not> win_playing (windows (freed w s) ! w) \<and> device_idx (windows (freed w s) ! w) = -1
      \<and> video_ctrl (windows (freed w s) ! w) = freed_ctrl w s
      \<and> (w' \<noteq> w \<longrightarrow> windows (freed w s) ! w' = windows s ! w')
      \<and> devices (freed w s) ! d = (if device_idx (windows s ! w) = int d \<and> d < length (devices s)
         then (devices s ! d)\<lparr>is_playing := False, is_playing_audio := False, window_idx := -1\<rparr> else devices s ! d)"
  proof (cases "device_idx (windows s ! w) = -1")
    case True
    have "win_ok playing s w" using assms by (simp add: main_inv_def)
    then have "\<not> win_playing (windows s ! w)" using True by (auto simp: win_ok_def Let_def)
    then show ?thesis using True by (simp add: freed_def freed_ctrl_def)
  next
    case False
    obtain d0 where l: "linked s d0 w" "win_playing (windows s ! w)" "device_idx (windows s ! w) = int d0"
      by (rule inv_window [OF assms False])
    show ?thesis
      using l by (auto simp: freed_def freed_ctrl_def stopVideo_linked [OF l(1)] linked_def nth_list_update)
  qed
  then show "length (windows (freed w s)) = length (windows s)"
    and "length (devices (freed w s)) = length (devices s)"
    and "\<not> win_playing (windows (freed w s) ! w)" and "device_idx (windows (freed w s) ! w) = -1"
    and "video_ctrl (windows (freed w s) ! w) = freed_ctrl w s"
    and "w' \<noteq> w \<Longrightarrow> windows (freed w s) ! w' = windows s ! w'"
    and "devices (freed w s) ! d = (if device_idx (windows s ! w) = int d \<and> d < length (devices s)
       then (devices s ! d)\<lparr>is_playing := False, is_playing_audio := False, window_idx := -1\<rparr> else devices s ! d)"
    by blast+
qed

lemma no_device_for_free_window:
  assumes "inv s" and "device_idx (windows s ! w) = -1" and "d < length (devices s)"
  shows "window_idx (devices s ! d) \<noteq> int w"
proof
  assume e: "window_idx (devices s ! d) = int w"
  then have n: "window_idx (devices s ! d) \<noteq> -1" by simp
  obtain w' where "linked s d w'" "window_idx (devices s ! d) = int w'"
    by (rule inv_device [OF assms(1,3) n])
  then show False using e assms(2) by (simp add: linked_def)
qed

lemma no_window_for_free_device:
  assumes "inv s" and "window_idx (devices s ! d) = -1" and "w < length (windows s)"
  shows "device_idx (windows s ! w) \<noteq> int d"
proof
  assume e: "device_idx (windows s ! w) = int d"
  then have n: "device_idx (windows s ! w) \<noteq> -1" by simp
  obtain d' where "linked s d' w" "device_idx (windows s ! w) = int d'"
    by (rule inv_window [OF assms(1,3) n])
  then show False using e assms(2) by (simp add: linked_def)
qed

text \<open>What a successful \<open>playVideo\<close> makes of the state.\<close>

definition shown :: "nat \<Rightarrow> nat \<Rightarrow> 'v \<Rightarrow> 'v main_ctrl \<Rightarrow> 'v main_ctrl" where
  "shown d w v s = s\<lparr>windows := (windows s)[w := (windows s ! w)\<lparr>video_ctrl := v, device_idx := int d, win_playing := True\<rparr>],
     devices := (devices s)[d := (devices s ! d)\<lparr>is_playing := True, window_idx := int w\<rparr>]\<rparr>"

lemma playVideo_play:
  assumes "inv s" and "d < length (devices s)" and "is_active (devices s ! d)" and "\<not> is_playing (devices s ! d)"
    and "findWindow s = int w" and "w < length (windows s)"
  shows "playVideo ops (int d) s =
    rbind (op_play ops (c_str (rtmp_url (devices s ! d))) (c_str (encryption (devices s ! d))) (freed_ctrl w s)) (\<lambda>(ret, v).
      Inr (if ret then (int w, shown d w v (freed w s))
           else (-1, upd_window (int w) (\<lambda>x. x\<lparr>video_ctrl := v\<rparr>) (freed w s))))"
proof -
  have "in_range (int d) (devices s)" using assms(2) by (simp add: in_range_def)
  moreover have "(if win_playing (windows s ! w) then stopVideo ops (device_idx (windows s ! w)) s else s) = freed w s"
    by (simp add: freed_def)
  ultimately have "playVideo ops (int d) s =
      rbind (op_play ops (c_str (rtmp_url (devices s ! d))) (c_str (encryption (devices s ! d))) (freed_ctrl w s)) (\<lambda>(ret, v).
        if \<not> ret then Inr (-1, upd_window (int w) (\<lambda>x. x\<lparr>video_ctrl := v\<rparr>) (freed w s))
        else Inr (int w, upd_device (int d) (\<lambda>x. x\<lparr>is_playing := True, window_idx := int w\<rparr>)
          (upd_window (int w) (\<lambda>x. x\<lparr>device_idx := int d, win_playing := True\<rparr>)
            (upd_window (int w) (\<lambda>x. x\<lparr>video_ctrl := v\<rparr>) (freed w s)))))"
    using assms(3-5) freed_window(5) [OF assms(1,6)]
    by (simp add: playVideo_def Let_def cong: if_cong)
  moreover have "w < length (windows (freed w s))" using assms(6) freed_window(1) [OF assms(1,6)] by simp
  ultimately show ?thesis
    by (auto simp: shown_def upd_window_def upd_device_def intro!: arg_cong2 [where f = rbind])
qed

lemma playVideo_inv:
  assumes inv: "inv s" and r: "playVideo ops idx s = Inr (n, s')"
  shows "inv s'"
proof (cases "in_range idx (devices s) \<and> is_active (devices s ! nat idx) \<and> \<not> is_playing (devices s ! nat idx)
    \<and> windows s \<noteq> []")
  case False
  then show ?thesis
    using r inv by (cases rule: findWindow_result [of s]) (auto simp: playVideo_def Let_def window_for_play_def split: if_splits)
next
  case True
  define d where "d = nat idx"
  have d: "d < length (devices s)" "idx = int d" using True by (auto simp: in_range_nat d_def)
  obtain w where w: "findWindow s = int w" "w < length (windows s)"
    by (cases rule: findWindow_result [of s]) (use True in \<open>auto simp: window_for_play_def\<close>)
  note f = freed_window [OF inv w(2)] and fi = freed_inv [OF inv, of w]
  have da: "window_idx (devices s ! d) = -1"
    using inv d(1) True by (auto simp: main_inv_def dev_ok_def Let_def d_def)
  have dd: "window_idx (devices (freed w s) ! d) = -1" using da f(7) [of d] by auto
  obtain ret v where p: "op_play ops (c_str (rtmp_url (devices s ! d))) (c_str (encryption (devices s ! d))) (freed_ctrl w s) = Inr (ret, v)"
    and s': "s' = (if ret then shown d w v (freed w s) else upd_window (int w) (\<lambda>x. x\<lparr>video_ctrl := v\<rparr>) (freed w s))"
  proof -
    have "rbind (op_play ops (c_str (rtmp_url (devices s ! d))) (c_str (encryption (devices s ! d))) (freed_ctrl w s)) (\<lambda>(ret, v).
        Inr (if ret then (int w, shown d w v (freed w s))
             else (-1, upd_window (int w) (\<lambda>x. x\<lparr>video_ctrl := v\<rparr>) (freed w s)))) = Inr (n, s')"
      using r playVideo_play [OF inv d(1) _ _ w] True unfolding d(2) by simp
    then show thesis using that unfolding rbind_Inr_iff by (elim exE conjE) (auto split: if_splits)
  qed
  have np: "\<not> playing (freed_ctrl w s)"
    using fi w(2) f(1,3,5) by (auto simp: main_inv_def win_ok_def Let_def)
  have dok: "dev_ok sounding (freed w s) d" using fi d(1) f(2) by (simp add: main_inv_def)
  show ?thesis
  proof (cases ret)
    case True
    have vp: "playing v" "\<not> sounding v" using play_starts [of _ _ _ v] p True by auto
    show ?thesis
      unfolding s' using True
      by (simp only: if_True, intro inv_change [OF fi, where w = w and d = d])
        (use no_device_for_free_window [OF fi f(4)] no_window_for_free_device [OF fi dd] vp dok dd w(2) d(1) f(1,2)
          in \<open>auto simp: shown_def win_ok_def dev_ok_def Let_def\<close>)
  next
    case False
    have vp: "\<not> playing v" using play_refused [of _ _ _ v] p False np by auto
    show ?thesis
      unfolding s' using False
      by (simp only: if_False, intro inv_change [OF fi, where w = w and d = d and y = "devices (freed w s) ! d"])
        (use no_device_for_free_window [OF fi f(4)] no_window_for_free_device [OF fi dd] vp dok dd w(2) d(1) f(1-4)
          in \<open>auto simp: win_ok_def dev_ok_def Let_def\<close>)
  qed
qed

lemma shown_window:
  assumes "inv s" and "window_device w s = Some x"
  obtains d w' where "w = int w'" "linked s d w'" "win_playing (windows s ! w')" "x = devices s ! d"
    "is_playing (devices s ! d)" "device_idx (windows s ! w') = int d"
proof -
  have w: "in_range w (windows s)" "in_range (device_idx (windows s ! nat w)) (devices s)"
    using assms(2) by (auto simp: window_device_def split: if_splits)
  have l: "nat w < length (windows s)" "w = int (nat w)" "device_idx (windows s ! nat w) \<noteq> -1"
    using w by (auto simp: in_range_nat)
  obtain d where d: "linked s d (nat w)" "win_playing (windows s ! nat w)" "device_idx (windows s ! nat w) = int d"
      "is_playing (devices s ! d)"
    by (rule inv_window [OF assms(1) l(1,3)])
  show thesis
    using that [OF l(2) d(1,2) _ d(4,3)] assms(2) w d(3) by (simp add: window_device_def)
qed

lemma audio_inv:
  assumes "inv s" and "linked s d w" and "is_playing (devices s ! d)" and "playing v = playing (video_ctrl (windows s ! w))"
    and "sounding v = b"
  shows "inv (upd_device (int d) (\<lambda>x. x\<lparr>is_playing_audio := b\<rparr>) (upd_window (int w) (\<lambda>x. x\<lparr>video_ctrl := v\<rparr>) s))"
proof (rule inv_change [OF assms(1), where w = w and d = d])
  have "win_ok playing s w" "dev_ok sounding s d" "w < length (windows s)" "d < length (devices s)"
    using assms(1,2) by (simp_all add: main_inv_def linked_def)
  then show "win_ok playing (upd_device (int d) (\<lambda>x. x\<lparr>is_playing_audio := b\<rparr>)
      (upd_window (int w) (\<lambda>x. x\<lparr>video_ctrl := v\<rparr>) s)) w"
    and "dev_ok sounding (upd_device (int d) (\<lambda>x. x\<lparr>is_playing_audio := b\<rparr>)
      (upd_window (int w) (\<lambda>x. x\<lparr>video_ctrl := v\<rparr>) s)) d"
    using assms(2-5) by (auto simp: win_ok_def dev_ok_def Let_def linked_def)
qed (use not_linked_others [OF assms(1,2)] in auto)

lemma playAudio_cases:
  "playAudio ops w s = (case window_device w s of None \<Rightarrow> s | Some _ \<Rightarrow>
     if win_playing (windows s ! nat w) then
       upd_device (device_idx (windows s ! nat w)) (\<lambda>x. x\<lparr>is_playing_audio := True\<rparr>)
         (upd_window w (\<lambda>x. x\<lparr>video_ctrl := op_playAudio ops (video_ctrl x)\<rparr>) s) else s)"
  by (simp add: playAudio_def window_device_def Let_def)

lemma stopAudio_cases:
  "stopAudio ops w s = (case window_device w s of None \<Rightarrow> s | Some _ \<Rightarrow>
     upd_device (device_idx (windows s ! nat w)) (\<lambda>x. x\<lparr>is_playing_audio := False\<rparr>)
       (if win_playing (windows s ! nat w)
        then upd_window w (\<lambda>x. x\<lparr>video_ctrl := op_stopAudio ops (video_ctrl x)\<rparr>) s else s))"
  by (simp add: stopAudio_def window_device_def Let_def)

lemma playAudio_inv:
  assumes "inv s"
  shows "inv (playAudio ops w s)"
proof (cases "window_device w s")
  case (Some x)
  obtain d w' where l: "w = int w'" "linked s d w'" "win_playing (windows s ! w')" "is_playing (devices s ! d)"
      "device_idx (windows s ! w') = int d"
    by (rule shown_window [OF assms Some])
  have "playAudio ops w s = upd_device (int d) (\<lambda>x. x\<lparr>is_playing_audio := True\<rparr>)
      (upd_window (int w') (\<lambda>x. x\<lparr>video_ctrl := op_playAudio ops (video_ctrl (windows s ! w'))\<rparr>) s)"
    using l(3,5) Some unfolding l(1) by (simp add: playAudio_cases) (simp add: upd_window_def)
  then show ?thesis using audio_inv [OF assms l(2,4)] audio by simp
qed (use assms in \<open>simp add: playAudio_cases\<close>)

lemma stopAudio_inv:
  assumes "inv s"
  shows "inv (stopAudio ops w s)"
proof (cases "window_device w s")
  case (Some x)
  obtain d w' where l: "w = int w'" "linked s d w'" "win_playing (windows s ! w')" "is_playing (devices s ! d)"
      "device_idx (windows s ! w') = int d"
    by (rule shown_window [OF assms Some])
  have "stopAudio ops w s = upd_device (int d) (\<lambda>x. x\<lparr>is_playing_audio := False\<rparr>)
      (upd_window (int w') (\<lambda>x. x\<lparr>video_ctrl := op_stopAudio ops (video_ctrl (windows s ! w'))\<rparr>) s)"
    using l(3,5) Some unfolding l(1) by (simp add: stopAudio_cases) (simp add: upd_window_def)
  then show ?thesis using audio_inv [OF assms l(2,4)] audio by simp
qed (use assms in \<open>simp add: stopAudio_cases\<close>)

lemma inv_same:
  "inv s \<Longrightarrow> devices s' = devices s \<Longrightarrow> windows s' = windows s \<Longrightarrow> inv s'"
  by (simp add: main_inv_def win_ok_def dev_ok_def)

lemma addWindow_inv:
  assumes "inv s" and "\<not> playing v"
  shows "inv (snd (addWindow v s))"
  using assms by (auto simp: main_inv_def win_ok_def dev_ok_def addWindow_def Let_def nth_append)

lemma add_device_inv:
  assumes "inv s" and "window_idx x = -1" "\<not> is_playing x" "\<not> is_playing_audio x"
  shows "inv (s\<lparr>devices := devices s @ [x]\<rparr>)"
  using assms by (auto simp: main_inv_def win_ok_def dev_ok_def Let_def nth_append)

lemma set_active_other:
  "length (set_active k b ds) = length ds"
  "window_idx (set_active k b ds ! i) = window_idx (ds ! i)"
  "is_playing (set_active k b ds ! i) = is_playing (ds ! i)"
  "is_playing_audio (set_active k b ds ! i) = is_playing_audio (ds ! i)"
proof -
  show "length (set_active k b ds) = length ds" by (induction ds) auto
  have "window_idx (set_active k b ds ! i) = window_idx (ds ! i)
      \<and> is_playing (set_active k b ds ! i) = is_playing (ds ! i)
      \<and> is_playing_audio (set_active k b ds ! i) = is_playing_audio (ds ! i)"
    by (induction ds arbitrary: i) (auto simp: nth_Cons split: nat.split)
  then show "window_idx (set_active k b ds ! i) = window_idx (ds ! i)"
    "is_playing (set_active k b ds ! i) = is_playing (ds ! i)"
    "is_playing_audio (set_active k b ds ! i) = is_playing_audio (ds ! i)" by simp_all
qed

lemma set_active_inv: "inv s \<Longrightarrow> inv (s\<lparr>devices := set_active k b (devices s)\<rparr>)"
  unfolding main_inv_def win_ok_def dev_ok_def Let_def by (auto simp: set_active_other)

end

section \<open>Runs\<close>

datatype 'v main_op =
    Add_Device string | Add_Window 'v | Play_Video int | Stop_Video int | Play_Audio int | Stop_Audio int
  | Start_Talk int | Stop_Talk int | Message string | Login string string
  | Set_Server_Ip string | Set_Server_Port string

fun main_step ::
    "'v window_ops \<Rightarrow> (string \<Rightarrow> double) \<Rightarrow> server \<Rightarrow> 'v main_op \<Rightarrow> 'v main_ctrl \<Rightarrow> 'v main_ctrl result"
where
  "main_step ops strtod srv (Add_Device k) s = rbind (addDevice strtod srv k s) (\<lambda>(_, s). Inr s)"
| "main_step ops strtod srv (Add_Window v) s = Inr (snd (addWindow v s))"
| "main_step ops strtod srv (Play_Video i) s = rbind (playVideo ops i s) (\<lambda>(_, s). Inr s)"
| "main_step ops strtod srv (Stop_Video i) s = Inr (stopVideo ops i s)"
| "main_step ops strtod srv (Play_Audio i) s = Inr (playAudio ops i s)"
| "main_step ops strtod srv (Stop_Audio i) s = Inr (stopAudio ops i s)"
| "main_step ops strtod srv (Start_Talk i) s = rbind (startTalk strtod srv i s) (\<lambda>(_, s). Inr s)"
| "main_step ops strtod srv (Stop_Talk i) s = stopTalk strtod srv i s"
| "main_step ops strtod srv (Message m) s = MessageHandle strtod m s"
| "main_step ops strtod srv (Login u p) s = rbind (login_user strtod srv u p s) (\<lambda>(_, s). Inr s)"
| "main_step ops strtod srv (Set_Server_Ip ip) s = Inr (setServerIp ip s)"
| "main_step ops strtod srv (Set_Server_Port p) s = Inr (setServerPort p s)"

text \<open>Each operation comes with the server as it is then, so equal requests may get different answers.\<close>

fun main_run ::
    "'v window_ops \<Rightarrow> (string \<Rightarrow> double) \<Rightarrow> (server \<times> 'v main_op) list \<Rightarrow> 'v main_ctrl \<Rightarrow> 'v main_ctrl result"
where
  "main_run ops strtod [] s = Inr s"
| "main_run ops strtod ((srv, x) # xs) s =
     rbind (main_step ops strtod srv x s) (main_run ops strtod xs)"

definition new_windows :: "('v \<Rightarrow> bool) \<Rightarrow> (server \<times> 'v main_op) list \<Rightarrow> bool" where
  "new_windows playing xs \<longleftrightarrow> (\<forall>srv v. (srv, Add_Window v) \<in> set xs \<longrightarrow> \<not> playing v)"

context video_window
begin

lemma addDevice_inv: "inv s \<Longrightarrow> addDevice strtod srv k s = Inr (i, s') \<Longrightarrow> inv s'"
  by (auto simp: addDevice_def rbind_Inr_iff Let_def intro!: add_device_inv split: if_splits)

lemma startTalk_inv: "inv s \<Longrightarrow> startTalk strtod srv w s = Inr (b, s') \<Longrightarrow> inv s'"
  by (auto simp: startTalk_def rbind_Inr_iff split: if_splits option.splits intro: inv_same)

lemma stopTalk_inv: "inv s \<Longrightarrow> stopTalk strtod srv w s = Inr s' \<Longrightarrow> inv s'"
  by (auto simp: stopTalk_def rbind_Inr_iff split: if_splits option.splits intro: inv_same)

lemma MessageHandle_inv: "inv s \<Longrightarrow> MessageHandle strtod m s = Inr s' \<Longrightarrow> inv s'"
  by (auto simp: MessageHandle_def rbind_Inr_iff split: if_splits intro: set_active_inv)

lemma after_login_same:
  "after_login reply s = Inr s' \<Longrightarrow> devices s' = devices s \<and> windows s' = windows s"
  by (auto simp: after_login_def startMessageCallBack_def rbind_Inr_iff split: if_splits)

lemma login_inv:
  assumes "inv s" and "login_user strtod srv u p s = Inr (r, s')"
  shows "inv s'"
  by (rule inv_same [OF assms(1)])
    (use assms(2) in \<open>auto simp: login_user_def rbind_Inr_iff Let_def dest: after_login_same split: if_split_asm\<close>)

lemma main_step_inv:
  assumes "inv s" and "main_step ops strtod srv x s = Inr s'" and "\<forall>v. x = Add_Window v \<longrightarrow> \<not> playing v"
  shows "inv s'"
proof (cases x)
  case (Set_Server_Ip ip)
  then show ?thesis using assms by (auto simp: setServerIp_def Let_def intro: inv_same)
next
  case (Set_Server_Port p)
  then show ?thesis using assms by (auto simp: setServerPort_def Let_def intro: inv_same)
qed (use assms in \<open>auto simp: rbind_Inr_iff intro: addDevice_inv addWindow_inv playVideo_inv stopVideo_inv
      playAudio_inv stopAudio_inv startTalk_inv stopTalk_inv MessageHandle_inv login_inv\<close>)

lemma main_run_inv:
  "inv s \<Longrightarrow> main_run ops strtod xs s = Inr s' \<Longrightarrow> new_windows playing xs \<Longrightarrow> inv s'"
proof (induction xs arbitrary: s)
  case (Cons a xs)
  obtain srv x where a: "a = (srv, x)" by (cases a)
  with Cons.prems(2) obtain s1 where "main_step ops strtod srv x s = Inr s1" "main_run ops strtod xs s1 = Inr s'"
    by (auto simp: rbind_Inr_iff)
  then show ?case
    using Cons.IH [of s1] main_step_inv [OF Cons.prems(1), of strtod srv x s1] Cons.prems(3) a
    by (auto simp: new_windows_def)
qed simp

end

section \<open>The properties\<close>

lemma new_inv: "main_inv playing sounding new_MainCtrl"
  by (simp add: main_inv_def new_MainCtrl_def)

text \<open>C31: whatever the user and the server do, in any order and with any answers, the device and window tables stay
  consistent: a window plays exactly when it has a device and when its \<open>VideoCtrl\<close> plays, the two
  name each other, and a device's sound is on only while it plays and exactly when its window's is.\<close>

theorem main_tables_consistent:
  assumes "main_run (video_ops joined) strtod xs new_MainCtrl = Inr s"
    and "new_windows Video_Ctrl.is_playing xs"
  shows "main_inv Video_Ctrl.is_playing Video_Ctrl.is_playing_audio s"
  by (rule vw.main_run_inv [OF new_inv assms])

text \<open>C32: \<open>playVideo\<close> of an active device that is not playing uses the first free window, or the
  first window when none is free, whose video it stops; then it plays, and the result says what
  \<open>VideoCtrl\<close> made of it: an exception is passed on, a refusal gives -1, and otherwise the device
  and the window name each other and no other window and device has changed.\<close>

theorem playVideo_result:
  assumes "main_inv Video_Ctrl.is_playing Video_Ctrl.is_playing_audio s" and "d < length (devices s)"
    and "is_active (devices s ! d)" and "\<not> is_playing (devices s ! d)" and "windows s \<noteq> []"
  shows "\<exists>w. window_for_play (windows s) w \<and>
    (let v0 = video_ctrl (windows s ! w);
         v1 = (if win_playing (windows s ! w) then op_stop (video_ops joined) v0 else v0) in
     case Video_Ctrl.play (c_str (rtmp_url (devices s ! d))) (c_str (encryption (devices s ! d))) v1 of
       Inl e \<Rightarrow> playVideo (video_ops joined) (int d) s = Inl e
     | Inr (False, v2) \<Rightarrow> \<exists>s'. playVideo (video_ops joined) (int d) s = Inr (-1, s')
     | Inr (True, v2) \<Rightarrow> \<exists>s'. playVideo (video_ops joined) (int d) s = Inr (int w, s')
         \<and> linked s' d w \<and> win_playing (windows s' ! w) \<and> is_playing (devices s' ! d)
         \<and> video_ctrl (windows s' ! w) = v2
         \<and> (\<forall>w' < length (windows s). w' \<noteq> w \<longrightarrow> windows s' ! w' = windows s ! w')
         \<and> (\<forall>d' < length (devices s). d' \<noteq> d \<and> device_idx (windows s ! w) \<noteq> int d' \<longrightarrow>
              devices s' ! d' = devices s ! d')
         \<and> (\<forall>d' < length (devices s). d' \<noteq> d \<and> device_idx (windows s ! w) = int d' \<longrightarrow>
              \<not> is_playing (devices s' ! d')))"
proof -
  obtain w where w: "findWindow s = int w" "window_for_play (windows s) w"
    by (cases rule: findWindow_result [of s]) (use assms(5) in auto)
  have lw: "w < length (windows s)" using w(2) by (simp add: window_for_play_def)
  note f = vw.freed_window [OF assms(1) lw, where joined = joined]
  note p = vw.playVideo_play [OF assms(1-4) w(1) lw, where joined = joined]
  have op: "op_play (video_ops joined) = Video_Ctrl.play" by (simp add: video_ops_def)
  let ?r = "Video_Ctrl.play (c_str (rtmp_url (devices s ! d))) (c_str (encryption (devices s ! d))) (vw.freed_ctrl joined w s)"
  have fc: "vw.freed_ctrl joined w s = (if win_playing (windows s ! w)
      then op_stop (video_ops joined) (video_ctrl (windows s ! w)) else video_ctrl (windows s ! w))"
    by (simp add: vw.freed_ctrl_def)
  show ?thesis
  proof (intro exI [of _ w] conjI w(2), unfold Let_def fc [symmetric])
    show "case ?r of Inl e \<Rightarrow> playVideo (video_ops joined) (int d) s = Inl e
     | Inr (False, v2) \<Rightarrow> \<exists>s'. playVideo (video_ops joined) (int d) s = Inr (-1, s')
     | Inr (True, v2) \<Rightarrow> \<exists>s'. playVideo (video_ops joined) (int d) s = Inr (int w, s')
         \<and> linked s' d w \<and> win_playing (windows s' ! w) \<and> is_playing (devices s' ! d)
         \<and> video_ctrl (windows s' ! w) = v2
         \<and> (\<forall>w' < length (windows s). w' \<noteq> w \<longrightarrow> windows s' ! w' = windows s ! w')
         \<and> (\<forall>d' < length (devices s). d' \<noteq> d \<and> device_idx (windows s ! w) \<noteq> int d' \<longrightarrow>
              devices s' ! d' = devices s ! d')
         \<and> (\<forall>d' < length (devices s). d' \<noteq> d \<and> device_idx (windows s ! w) = int d' \<longrightarrow>
              \<not> is_playing (devices s' ! d'))"
      using p lw assms(2) f(1,2,6) f(7)
      by (auto simp: op vw.shown_def linked_def split: sum.splits prod.splits bool.splits)
  qed
qed

text \<open>A status message of the server.\<close>

definition status_message :: "string \<Rightarrow> string \<Rightarrow> json" where
  "status_message k st = J_Object [(''reply'', J_Object [(''device_id'', J_String k), (''device_status'', J_String st),
     (''operation'', J_String ''device status change'')])]"

lemma printable_strings:
  "key_order ms \<Longrightarrow> \<forall>(k, x) \<in> set ms. utf8_text k \<and> utf8_text x \<Longrightarrow> printable (J_Object (map (\<lambda>(k, x). (k, J_String x)) ms))"
  by (rule printable.intros) (auto simp: key_order_def comp_def case_prod_beta intro: printable.intros)

lemma printable_status:
  assumes "utf8_text k" and "utf8_text st"
  shows "printable (status_message k st)"
proof -
  have "printable (J_Object [(''device_id'', J_String k), (''device_status'', J_String st),
     (''operation'', J_String ''device status change'')])"
    using printable_strings [of "[(''device_id'', k), (''device_status'', st), (''operation'', ''device status change'')]"] assms
    by (simp add: key_order_def ascii_text)
  then show ?thesis unfolding status_message_def
    by (intro printable.intros) (auto simp: key_order_def ascii_text)
qed

text \<open>A device, its window, and a server that knows both.\<close>

definition demo_device :: device_info where
  "demo_device = \<lparr>name = ''door'', key = ''cam001'', rtmp_url = ''rtmp://host/live/cam001'', encryption = [],
     is_active = True, is_playing = False, is_playing_audio = False, window_idx = -1\<rparr>"

definition demo_main :: "video_ctrl \<Rightarrow> video_ctrl main_ctrl" where
  "demo_main raw = new_MainCtrl\<lparr>devices := [demo_device],
     windows := [\<lparr>win_playing = False, device_idx = -1, video_ctrl = new_VideoCtrl raw\<rparr>]\<rparr>"

definition ok_reply :: "json \<Rightarrow> json" where
  "ok_reply r = J_Object [(''code'', J_Unsigned 200), (''reply'', r)]"

definition demo_server :: server where
  "demo_server txt = Some (jc.text_of (ok_reply (J_Object [(''rtmp_url'', J_String ''rtmp://host/live/cam001'')])))"

definition demo_ops :: "video_ctrl \<Rightarrow> (server \<times> video_ctrl main_op) list" where
  "demo_ops raw = map (\<lambda>x. (demo_server, x)) [Set_Server_Ip ''10.0.0.1'', Set_Server_Port ''50051'', Add_Device ''cam001'',
     Add_Window (new_VideoCtrl raw), Message (jc.text_of (status_message ''cam001'' ''active'')), Play_Video 0, Play_Audio 0]"

text \<open>What the requests are made of is printed and parsed back.\<close>

lemma printable_requests:
  "utf8_text tok \<Longrightarrow> utf8_text k \<Longrightarrow> printable (device_request tok k)"
  "utf8_text ctrl \<Longrightarrow> utf8_text k \<Longrightarrow> printable (talk_request ctrl k)"
  "utf8_text m \<Longrightarrow> utf8_text u \<Longrightarrow> utf8_text p \<Longrightarrow> printable (user_request m u p)"
  unfolding device_request_def talk_request_def user_request_def
  by (rule printable_init; simp add: printable.intros ascii_text)+

lemma json_dump_null: "json_dump J_Null = Inr (jc.text_of J_Null)"
  by (rule jc.text_of(1)) (rule printable.intros)

lemma demo_run:
  "\<exists>s. main_run (video_ops (\<lambda>c. c)) (\<lambda>_. 0) (demo_ops raw) new_MainCtrl = Inr s
     \<and> map window_idx (devices s) = [0] \<and> map is_playing_audio (devices s) = [True]
     \<and> rpc s = Some (''10.0.0.1'', ''50051'') \<and> token s = []"
proof -
  let ?info = "J_Object [(''rtmp_url'', J_String ''rtmp://host/live/cam001'')]"
  have info: "printable ?info"
    using printable_strings [of "[(''rtmp_url'', ''rtmp://host/live/cam001'')]"] by (simp add: key_order_def ascii_text)
  have p: "json_parse (\<lambda>_. 0) (jc.text_of (ok_reply ?info)) = Inr (ok_reply ?info)"
    unfolding ok_reply_def by (intro jc.text_of(2) printable_reply info)
  have m: "json_parse (\<lambda>_. 0) (jc.text_of (status_message ''cam001'' ''active'')) = Inr (status_message ''cam001'' ''active'')"
    by (intro jc.text_of(2) printable_status) (simp_all add: ascii_text)
  have d: "json_dump (device_request [] ''cam001'') = Inr (jc.text_of (device_request [] ''cam001''))"
    by (intro jc.text_of(1) printable_requests(1)) (simp_all add: ascii_text)
  show ?thesis
    by (simp add: demo_ops_def new_MainCtrl_def setServerIp_def setServerPort_def addDevice_def rpc_call_def
        call_def demo_server_def ok_reply_def status_message_def
        p [unfolded ok_reply_def] m [unfolded status_message_def] d json_defs addWindow_def MessageHandle_def playVideo_def
        in_range_def findWindow_def video_ops_def Video_Ctrl.play_def substr_def Capture_Thread.start_def
        setRtmpURL_def new_VideoCtrl_def new_VideoCapture_def upd_window_def upd_device_def playAudio_def
        c_str_def Let_def)
qed

theorem main_tables_consistent_witness:
  "\<forall>raw. \<exists>s. main_run (video_ops (\<lambda>c. c)) (\<lambda>_. 0) (demo_ops raw) new_MainCtrl = Inr s
     \<and> main_inv Video_Ctrl.is_playing Video_Ctrl.is_playing_audio s
     \<and> map window_idx (devices s) = [0] \<and> map is_playing_audio (devices s) = [True]"
proof
  fix raw
  have "new_windows Video_Ctrl.is_playing (demo_ops raw)"
    by (auto simp: new_windows_def demo_ops_def new_VideoCtrl_def)
  then show "\<exists>s. main_run (video_ops (\<lambda>c. c)) (\<lambda>_. 0) (demo_ops raw) new_MainCtrl = Inr s
     \<and> main_inv Video_Ctrl.is_playing Video_Ctrl.is_playing_audio s
     \<and> map window_idx (devices s) = [0] \<and> map is_playing_audio (devices s) = [True]"
    using demo_run [of raw] main_tables_consistent [of "\<lambda>c. c" "\<lambda>_. 0" "demo_ops raw"] by auto
qed

theorem playVideo_result_witness:
  "\<forall>raw. \<exists>w s'. w < 1 \<and> playVideo (video_ops (\<lambda>c. c)) 0 (demo_main raw) = Inr (int w, s') \<and> linked s' 0 w"
proof
  fix raw
  have m: "main_inv Video_Ctrl.is_playing Video_Ctrl.is_playing_audio (demo_main raw)" "0 < length (devices (demo_main raw))"
      "is_active (devices (demo_main raw) ! 0)" "\<not> is_playing (devices (demo_main raw) ! 0)" "windows (demo_main raw) \<noteq> []"
    by (simp_all add: demo_main_def main_inv_def win_ok_def dev_ok_def demo_device_def new_MainCtrl_def new_VideoCtrl_def)
  have p: "\<exists>v2. Video_Ctrl.play ''rtmp://host/live/cam001'' [] (new_VideoCtrl raw) = Inr (True, v2)"
    by (simp add: Video_Ctrl.play_def substr_def Capture_Thread.start_def setRtmpURL_def new_VideoCtrl_def
        new_VideoCapture_def Let_def)
  show "\<exists>w s'. w < 1 \<and> playVideo (video_ops (\<lambda>c. c)) 0 (demo_main raw) = Inr (int w, s') \<and> linked s' 0 w"
    using playVideo_result [OF m, where joined = "\<lambda>c. c"] p
    by (auto simp: demo_main_def demo_device_def window_for_play_def c_str_def)
qed

section \<open>The dialogue with the server\<close>

text \<open>What a message changes: the first device with the key, and nothing else.\<close>

lemma set_active_nth:
  assumes "i < length ds"
  shows "set_active k b ds ! i =
    (if key (ds ! i) = k \<and> (\<forall>j < i. key (ds ! j) \<noteq> k) then (ds ! i)\<lparr>is_active := b\<rparr> else ds ! i)"
  using assms
proof (induction ds arbitrary: i)
  case (Cons d ds)
  show ?case
  proof (cases i)
    case (Suc j)
    have "(\<forall>l < Suc j. key ((d # ds) ! l) \<noteq> k) \<longleftrightarrow> key d \<noteq> k \<and> (\<forall>l < j. key (ds ! l) \<noteq> k)"
      by (auto simp: less_Suc_eq_0_disj)
    then show ?thesis using Cons.IH [of j] Cons.prems Suc by (cases "key d = k") auto
  qed simp
qed simp

text \<open>
  The messages the server sends, as JSON values. \<open>status_change js k st\<close>: a status message, which
  may have other members; \<open>malformed js\<close>: a member the handler reads has another type than it
  expects. A missing member is not malformed, and neither is a null reply.
\<close>

definition is_text :: "json \<Rightarrow> bool" where
  "is_text v \<longleftrightarrow> (case v of J_String _ \<Rightarrow> True | _ \<Rightarrow> False)"

definition is_object :: "json \<Rightarrow> bool" where
  "is_object v \<longleftrightarrow> (case v of J_Object _ \<Rightarrow> True | _ \<Rightarrow> False)"

inductive status_change :: "json \<Rightarrow> string \<Rightarrow> string \<Rightarrow> bool" where
  "status_change (J_Object ms) k st"
    if "map_of ms ''reply'' = Some (J_Object rs)"
      and "map_of rs ''operation'' = Some (J_String ''device status change'')"
      and "map_of rs ''device_id'' = Some (J_String k)" and "k \<noteq> []"
      and "map_of rs ''device_status'' = Some (J_String st)" and "st \<noteq> []"

inductive malformed :: "json \<Rightarrow> bool" where
  bad_message: "\<not> is_object js \<Longrightarrow> malformed js"
| bad_reply: "malformed (J_Object ms)" if "map_of ms ''reply'' = Some v" and "v \<noteq> J_Null" and "\<not> is_object v"
| bad_operation: "malformed (J_Object ms)"
    if "map_of ms ''reply'' = Some (J_Object rs)" and "map_of rs ''operation'' = Some v" and "\<not> is_text v"
| bad_member: "malformed (J_Object ms)"
    if "map_of ms ''reply'' = Some (J_Object rs)"
      and "map_of rs ''operation'' = Some (J_String ''device status change'')"
      and "x \<in> {''device_id'', ''device_status''}" and "map_of rs x = Some v" and "\<not> is_text v"

lemma get_string_cases: "get_string v = (case v of J_String x \<Rightarrow> Inr x | _ \<Rightarrow> Inl TypeError)"
  by (cases v) simp_all

lemma message_malformed:
  assumes "json_parse strtod msg = Inr js" and "malformed js"
  shows "MessageHandle strtod msg s = Inl TypeError"
  using assms(2)
proof cases
  case bad_message
  then show ?thesis using assms(1) by (cases js) (simp_all add: MessageHandle_def json_defs is_object_def)
next
  case (bad_reply ms v)
  then show ?thesis using assms(1) by (cases v) (simp_all add: MessageHandle_def json_defs is_object_def)
next
  case (bad_operation ms rs v)
  then show ?thesis using assms(1) by (cases v) (simp_all add: MessageHandle_def json_defs is_text_def)
next
  case (bad_member ms rs x v)
  then show ?thesis using assms(1)
    by (auto simp: MessageHandle_def json_defs is_text_def get_string_cases split: option.split json.splits)
qed

lemma message_status:
  assumes "json_parse strtod msg = Inr js" and "status_change js k st"
  shows "MessageHandle strtod msg s = Inr (s\<lparr>devices := set_active k (st = ''active'') (devices s)\<rparr>)"
  using assms(2,1) by cases (simp add: MessageHandle_def json_defs)

lemma message_other:
  assumes "json_parse strtod msg = Inr js" and "\<not> malformed js" and "\<nexists>k st. status_change js k st"
  shows "MessageHandle strtod msg s = Inr s"
proof -
  obtain ms where js: "js = J_Object ms"
    using assms(2) by (cases js) (auto intro: bad_message simp: is_object_def)
  consider "map_of ms ''reply'' = None" | "map_of ms ''reply'' = Some J_Null"
    | rs where "map_of ms ''reply'' = Some (J_Object rs)"
  proof (cases "map_of ms ''reply''")
    case (Some v)
    moreover have "v = J_Null \<or> is_object v" using assms(2) bad_reply [OF Some] js by blast
    ultimately show ?thesis using that(2,3) by (cases v) (auto simp: is_object_def)
  qed (use that(1) in simp)
  then show ?thesis
  proof cases
    case 3
    have op: "v = J_Null \<and> False \<or> is_text v" if "map_of rs ''operation'' = Some v" for v
      using assms(2) bad_operation [OF 3 that] js by blast
    show ?thesis
    proof (cases "map_of rs ''operation'' = Some (J_String ''device status change'')")
      case True
      have m: "is_text v" if "map_of rs x = Some v" "x \<in> {''device_id'', ''device_status''}" for x v
        using assms(2) bad_member [OF 3 True that(2,1)] js by blast
      have "\<not> (\<exists>k st. map_of rs ''device_id'' = Some (J_String k) \<and> k \<noteq> []
          \<and> map_of rs ''device_status'' = Some (J_String st) \<and> st \<noteq> [])"
        using assms(3) status_change.intros [OF 3 True] js by blast
      then show ?thesis
        using assms(1) js 3 True m [of "''device_id''"] m [of "''device_status''"]
        by (auto simp: MessageHandle_def json_defs is_text_def get_string_cases split: option.split json.splits)
    next
      case False
      then show ?thesis
        using assms(1) js 3 op
        by (auto simp: MessageHandle_def json_defs is_text_def get_string_cases split: option.split json.splits)
    qed
  qed (use assms(1) js in \<open>simp_all add: MessageHandle_def json_defs\<close>)
qed

text \<open>C37: what a JSON message of the server does, by its shape. A status message, with whatever other
  members, sets the online state of the first device with the key it names and of no other, and changes
  nothing else. A message in which something the handler reads has the wrong type (the message or its
  non-null reply is not an object, the operation is not a string, or, for a status change, the key or the
  status is not a string) throws in the message thread. Every other message, one without a reply or with
  another operation among them, changes nothing.\<close>

theorem status_message_sets:
  assumes "json_parse strtod msg = Inr js"
  shows "(\<forall>k st. status_change js k st \<longrightarrow>
      (\<exists>ds. MessageHandle strtod msg s = Inr (s\<lparr>devices := ds\<rparr>) \<and> length ds = length (devices s)
        \<and> (\<forall>i < length ds. ds ! i = (if key (devices s ! i) = k \<and> (\<forall>j < i. key (devices s ! j) \<noteq> k)
             then (devices s ! i)\<lparr>is_active := (st = ''active'')\<rparr> else devices s ! i))))
    \<and> (malformed js \<longrightarrow> MessageHandle strtod msg s = Inl TypeError)
    \<and> (\<not> malformed js \<and> (\<nexists>k st. status_change js k st) \<longrightarrow> MessageHandle strtod msg s = Inr s)"
proof (intro conjI allI impI)
  fix k st
  assume "status_change js k st"
  from message_status [OF assms this]
  have "MessageHandle strtod msg s = Inr (s\<lparr>devices := set_active k (st = ''active'') (devices s)\<rparr>)" .
  moreover have "length (set_active k b ds) = length ds" for b ds by (induction ds) auto
  ultimately show "\<exists>ds. MessageHandle strtod msg s = Inr (s\<lparr>devices := ds\<rparr>) \<and> length ds = length (devices s)
        \<and> (\<forall>i < length ds. ds ! i = (if key (devices s ! i) = k \<and> (\<forall>j < i. key (devices s ! j) \<noteq> k)
             then (devices s ! i)\<lparr>is_active := (st = ''active'')\<rparr> else devices s ! i))"
    by (intro exI [of _ "set_active k (st = ''active'') (devices s)"]) (simp add: set_active_nth)
qed (use message_malformed [OF assms] message_other [OF assms] in auto)

text \<open>A status message, one that is an array, and one with a null reply.\<close>

theorem status_message_sets_witness:
  "\<forall>raw. (\<exists>ds. MessageHandle (\<lambda>_. 0) (jc.text_of (status_message ''cam001'' ''offline'')) (demo_main raw)
       = Inr ((demo_main raw)\<lparr>devices := ds\<rparr>) \<and> \<not> is_active (ds ! 0))
     \<and> MessageHandle (\<lambda>_. 0) (jc.text_of (J_Array [])) (demo_main raw) = Inl TypeError
     \<and> MessageHandle (\<lambda>_. 0) (jc.text_of (J_Object [(''reply'', J_Null)])) (demo_main raw) = Inr (demo_main raw)"
proof (intro allI conjI)
  fix raw
  have 1: "json_parse (\<lambda>_. 0) (jc.text_of (status_message ''cam001'' ''offline'')) = Inr (status_message ''cam001'' ''offline'')"
    by (intro jc.text_of(2) printable_status) (simp_all add: ascii_text)
  have "status_change (status_message ''cam001'' ''offline'') ''cam001'' ''offline''"
    unfolding status_message_def by (rule status_change.intros, simp) simp_all
  with conjunct1 [OF status_message_sets [OF 1, of "demo_main raw"]] obtain ds where
    ds: "MessageHandle (\<lambda>_. 0) (jc.text_of (status_message ''cam001'' ''offline'')) (demo_main raw) =
      Inr ((demo_main raw)\<lparr>devices := ds\<rparr>)" "length ds = length (devices (demo_main raw))"
    and at: "\<forall>i < length ds. ds ! i = (if key (devices (demo_main raw) ! i) = ''cam001''
        \<and> (\<forall>j < i. key (devices (demo_main raw) ! j) \<noteq> ''cam001'')
      then (devices (demo_main raw) ! i)\<lparr>is_active := (''offline'' = ''active'')\<rparr> else devices (demo_main raw) ! i)"
    by blast
  have d: "devices (demo_main raw) = [demo_device]" "key demo_device = ''cam001''"
    by (simp_all add: demo_main_def demo_device_def)
  have "\<not> is_active (ds ! 0)" using at [rule_format, of 0] ds(2) by (simp add: d)
  with ds(1) show "\<exists>ds. MessageHandle (\<lambda>_. 0) (jc.text_of (status_message ''cam001'' ''offline'')) (demo_main raw)
       = Inr ((demo_main raw)\<lparr>devices := ds\<rparr>) \<and> \<not> is_active (ds ! 0)" by blast
  have 2: "json_parse (\<lambda>_. 0) (jc.text_of (J_Array [])) = Inr (J_Array [])"
    by (intro jc.text_of(2) printable.intros) simp
  have "malformed (J_Array [])" by (rule bad_message) (simp add: is_object_def)
  then show "MessageHandle (\<lambda>_. 0) (jc.text_of (J_Array [])) (demo_main raw) = Inl TypeError"
    using status_message_sets [OF 2, of "demo_main raw"] by simp
  have 3: "json_parse (\<lambda>_. 0) (jc.text_of (J_Object [(''reply'', J_Null)])) = Inr (J_Object [(''reply'', J_Null)])"
    by (intro jc.text_of(2) printable.intros) (auto simp: key_order_def ascii_text intro: printable.intros)
  have "\<not> malformed (J_Object [(''reply'', J_Null)])"
  proof
    assume "malformed (J_Object [(''reply'', J_Null)])"
    then show False by cases (simp_all add: is_object_def)
  qed
  moreover have "\<not> status_change (J_Object [(''reply'', J_Null)]) k st" for k st
  proof
    assume "status_change (J_Object [(''reply'', J_Null)]) k st"
    then show False by cases simp
  qed
  ultimately show "MessageHandle (\<lambda>_. 0) (jc.text_of (J_Object [(''reply'', J_Null)])) (demo_main raw) = Inr (demo_main raw)"
    using status_message_sets [OF 3, of "demo_main raw"] by simp
qed

text \<open>
  Two ways an answer can be bad: none comes, or it is a JSON object with another code than 200; or it
  makes the client throw, because it is not JSON, not an object, or its code is not a number.
\<close>

definition refused :: "(string \<Rightarrow> double) \<Rightarrow> string option \<Rightarrow> bool" where
  "refused strtod a \<longleftrightarrow> (\<forall>txt. a = Some txt \<longrightarrow>
     (\<exists>re c. json_parse strtod txt = Inr re \<and> value_int ''code'' 0 re = Inr c \<and> c \<noteq> 200))"

definition garbled :: "(string \<Rightarrow> double) \<Rightarrow> fault \<Rightarrow> string option \<Rightarrow> bool" where
  "garbled strtod e a \<longleftrightarrow>
     (\<exists>txt. a = Some txt \<and> rbind (json_parse strtod txt) (value_int ''code'' 0) = Inl e)"

lemma rpc_call_refused:
  assumes "rpc s = Some r" and "\<forall>body. refused strtod (srv body)" and "printable ctx"
  shows "rpc_call strtod srv ctx s = Inr (J_Null, False)"
  using assms(2) [rule_format, of "jc.text_of ctx"] assms(1) jc.text_of(1) [OF assms(3)]
  by (auto simp: rpc_call_def call_def refused_def split: option.splits)

lemma rpc_call_garbled:
  assumes "rpc s = Some r" and "\<forall>body. garbled strtod e (srv body)" and "printable ctx"
  shows "rpc_call strtod srv ctx s = Inl e"
proof -
  obtain a where t: "srv (jc.text_of ctx) = Some a" "rbind (json_parse strtod a) (value_int ''code'' 0) = Inl e"
    using assms(2) unfolding garbled_def by blast
  show ?thesis
  proof (cases "json_parse strtod a")
    case (Inr re)
    then have "value_int ''code'' 0 re = Inl e" using t(2) by simp
    then show ?thesis using assms(1) jc.text_of(1) [OF assms(3)] t(1) Inr by (simp add: rpc_call_def call_def)
  qed (use assms(1) jc.text_of(1) [OF assms(3)] t in \<open>simp add: rpc_call_def call_def\<close>)
qed

lemma window_device_text:
  assumes "window_device w s = Some d" and "\<forall>d \<in> set (devices s). utf8_text (key d)"
  shows "utf8_text (key d)"
proof -
  have "d \<in> set (devices s)" using assms(1) by (auto simp: window_device_def in_range_def split: if_splits)
  then show ?thesis using assms(2) by blast
qed

text \<open>C38: how the five operations that call the server fail, for inputs that are UTF-8 text. When the
  server cannot be reached or answers with another code than 200, adding a device, starting a talk and
  logging in report failure and change nothing; stopping ends a talk that is on, in a window that shows
  a device, and changes nothing else; registering throws instead of reporting, since it looks for the
  reason in a null reply. When the answer cannot be read, each of them throws what reading it throws,
  except that the two talk operations, where they do not call the server at all, return with nothing
  changed; stopping a talk then leaves it on.\<close>

theorem server_failure:
  assumes "rpc s = Some r"
    and "utf8_text (token s)" and "\<forall>d \<in> set (devices s). utf8_text (key d)"
    and "utf8_text k" and "utf8_text u" and "utf8_text p"
  shows "((\<forall>body. refused strtod (srv body)) \<longrightarrow>
      addDevice strtod srv k s = Inr (-1, s) \<and> startTalk strtod srv w s = Inr (False, s)
      \<and> stopTalk strtod srv w s =
          Inr (if is_talking s \<and> window_device w s \<noteq> None then s\<lparr>is_talking := False\<rparr> else s)
      \<and> login_user strtod srv u p s = Inr (login_failed, s)
      \<and> register_user strtod srv u p s = Inl TypeError)
    \<and> ((\<forall>body. garbled strtod e (srv body)) \<longrightarrow>
      addDevice strtod srv k s = Inl e
      \<and> startTalk strtod srv w s =
          (if \<not> is_talking s \<and> window_device w s \<noteq> None then Inl e else Inr (False, s))
      \<and> stopTalk strtod srv w s = (if is_talking s \<and> window_device w s \<noteq> None then Inl e else Inr s)
      \<and> login_user strtod srv u p s = Inl e
      \<and> register_user strtod srv u p s = Inl e)"
proof -
  have a: "utf8_text ''start''" "utf8_text ''stop''" "utf8_text ''login''" "utf8_text ''register''"
    by (simp_all add: ascii_text)
  note k = window_device_text [OF _ assms(3)]
  note req = printable_requests(1) [OF assms(2,4)] printable_requests(3) [OF a(3) assms(5,6)]
    printable_requests(3) [OF a(4) assms(5,6)]
  note talk = printable_requests(2) [OF a(1) k] printable_requests(2) [OF a(2) k]
  show ?thesis
  proof (intro conjI impI)
    assume "\<forall>body. refused strtod (srv body)"
    note c = rpc_call_refused [where strtod = strtod, OF assms(1) this]
    show "addDevice strtod srv k s = Inr (-1, s)" "login_user strtod srv u p s = Inr (login_failed, s)"
      "register_user strtod srv u p s = Inl TypeError"
      by (simp_all add: addDevice_def login_user_def register_user_def json_dump_null c [OF req(1)] c [OF req(2)] c [OF req(3)])
    show "startTalk strtod srv w s = Inr (False, s)"
      using c [OF talk(1)] by (simp add: startTalk_def split: option.split)
    show "stopTalk strtod srv w s =
        Inr (if is_talking s \<and> window_device w s \<noteq> None then s\<lparr>is_talking := False\<rparr> else s)"
      using c [OF talk(2)] by (cases "window_device w s") (simp_all add: stopTalk_def)
  next
    assume "\<forall>body. garbled strtod e (srv body)"
    note c = rpc_call_garbled [where strtod = strtod, OF assms(1) this]
    show "addDevice strtod srv k s = Inl e" "login_user strtod srv u p s = Inl e"
      "register_user strtod srv u p s = Inl e"
      by (simp_all add: addDevice_def login_user_def register_user_def c [OF req(1)] c [OF req(2)] c [OF req(3)])
    show "startTalk strtod srv w s =
        (if \<not> is_talking s \<and> window_device w s \<noteq> None then Inl e else Inr (False, s))"
      using c [OF talk(1)] by (cases "window_device w s") (simp_all add: startTalk_def)
    show "stopTalk strtod srv w s = (if is_talking s \<and> window_device w s \<noteq> None then Inl e else Inr s)"
      using c [OF talk(2)] by (cases "window_device w s") (simp_all add: stopTalk_def)
  qed
qed

text \<open>A talk with the device in the window, an unreachable server, and one that answers an array.\<close>

definition demo_talk :: "video_ctrl \<Rightarrow> video_ctrl main_ctrl" where
  "demo_talk raw = new_MainCtrl\<lparr>devices := [demo_device\<lparr>is_playing := True, window_idx := 0\<rparr>],
     windows := [\<lparr>win_playing = True, device_idx = 0, video_ctrl = new_VideoCtrl raw\<rparr>],
     rpc := Some (''10.0.0.1'', ''50051''), is_talking := True\<rparr>"

theorem server_failure_witness:
  "\<forall>raw. stopTalk (\<lambda>_. 0) (\<lambda>_. None) 0 (demo_talk raw) = Inr ((demo_talk raw)\<lparr>is_talking := False\<rparr>)
     \<and> register_user (\<lambda>_. 0) (\<lambda>_. None) ''u'' ''p'' (demo_talk raw) = Inl TypeError
     \<and> stopTalk (\<lambda>_. 0) (\<lambda>_. Some (jc.text_of (J_Array []))) 0 (demo_talk raw) = Inl TypeError"
proof
  fix raw
  have "json_parse (\<lambda>_. 0) (jc.text_of (J_Array [])) = Inr (J_Array [])"
    by (intro jc.text_of(2) printable.intros) simp
  then have g: "garbled (\<lambda>_. 0) TypeError (Some (jc.text_of (J_Array [])))" by (simp add: garbled_def json_defs)
  have t: "rpc (demo_talk raw) = Some (''10.0.0.1'', ''50051'')" "is_talking (demo_talk raw)"
    "window_device 0 (demo_talk raw) \<noteq> None" "utf8_text (token (demo_talk raw))"
    "\<forall>d \<in> set (devices (demo_talk raw)). utf8_text (key d)" "utf8_text ''k''" "utf8_text ''u''" "utf8_text ''p''"
    by (simp_all add: demo_talk_def window_device_def in_range_def new_MainCtrl_def demo_device_def ascii_text)
  note f = server_failure [OF t(1,4-8), where strtod = "\<lambda>_. 0" and w = 0]
  show "stopTalk (\<lambda>_. 0) (\<lambda>_. None) 0 (demo_talk raw) = Inr ((demo_talk raw)\<lparr>is_talking := False\<rparr>)
     \<and> register_user (\<lambda>_. 0) (\<lambda>_. None) ''u'' ''p'' (demo_talk raw) = Inl TypeError
     \<and> stopTalk (\<lambda>_. 0) (\<lambda>_. Some (jc.text_of (J_Array []))) 0 (demo_talk raw) = Inl TypeError"
    using f [of "\<lambda>_. None"] f [of "\<lambda>_. Some (jc.text_of (J_Array []))" TypeError] t(2,3) g
    by (simp add: refused_def)
qed

section \<open>Logging in twice, and not at all\<close>

text \<open>A server that accepts the login of \<open>u\<close>, with the token \<open>tok\<close>.\<close>

definition login_accepted :: "(string \<Rightarrow> double) \<Rightarrow> server \<Rightarrow> string \<Rightarrow> string \<Rightarrow> string \<Rightarrow> json \<Rightarrow> bool" where
  "login_accepted strtod srv u p tok reply \<longleftrightarrow>
     (\<exists>txt ms. srv (jc.text_of (user_request ''login'' u p)) = Some txt
       \<and> json_parse strtod txt = Inr (ok_reply reply) \<and> reply = J_Object ms \<and> printable reply
       \<and> map_of ms ''msg'' = Some (J_String ''success'') \<and> map_of ms ''token'' = Some (J_String tok) \<and> tok \<noteq> [])"

lemma login_accepted_result:
  assumes "rpc s = Some r" and "utf8_text u" and "utf8_text p" and "login_accepted strtod srv u p tok reply"
  shows "login_user strtod srv u p s =
    rbind (after_login reply (s\<lparr>token := tok\<rparr>)) (\<lambda>s. Inr (if token s = [] then login_failed else login_ok, s))"
proof -
  obtain t ms where a: "srv (jc.text_of (user_request ''login'' u p)) = Some t"
      "json_parse strtod t = Inr (ok_reply reply)" "reply = J_Object ms" "printable reply"
      "map_of ms ''msg'' = Some (J_String ''success'')" "map_of ms ''token'' = Some (J_String tok)"
    using assms(4) unfolding login_accepted_def by blast
  have req: "printable (user_request ''login'' u p)"
    by (intro printable_requests(3) assms(2,3)) (simp add: ascii_text)
  have c: "rpc_call strtod srv (user_request ''login'' u p) s = Inr (reply, True)"
    using a(1,2) assms(1) jc.text_of(1) [OF req] by (simp add: rpc_call_def call_def ok_reply_def json_defs)
  show ?thesis
    using a(3,5,6) c jc.text_of(1) [OF a(4)] by (simp add: login_user_def json_defs Let_def)
qed

text \<open>C39: a successful login starts the message thread, and any further successful login, of whichever
  user, with whichever token and reply and on whichever server, terminates the process, since the
  thread of the first is assigned over while it is joinable.\<close>

theorem second_login_terminates:
  assumes "rpc s = Some r" and "\<not> msg_cb_thread s"
    and "utf8_text u" and "utf8_text p" and "login_accepted strtod srv u p tok reply"
    and "utf8_text u'" and "utf8_text p'" and "login_accepted strtod srv' u' p' tok' reply'"
  shows "\<exists>s1. login_user strtod srv u p s = Inr (login_ok, s1)
    \<and> msg_cb_thread s1 \<and> token s1 = tok \<and> devices s1 = devices s \<and> windows s1 = windows s
    \<and> login_user strtod srv' u' p' s1 = Inl Terminate"
proof -
  obtain ms where ms: "reply = J_Object ms" "printable reply" "tok \<noteq> []"
    using assms(5) unfolding login_accepted_def by blast
  obtain l where l: "value_json ''device_list'' (J_Array []) reply = Inr l" "printable l"
  proof (cases "map_of ms ''device_list''")
    case None
    moreover have "printable (J_Array [])" by (rule printable.intros) simp
    ultimately show ?thesis using that [of "J_Array []"] ms(1) by (simp add: json_defs)
  next
    case (Some x)
    then have "printable x" using ms(1,2) by (auto elim: printable.cases dest: map_of_SomeD)
    then show ?thesis using that [of x] Some ms(1) by (simp add: json_defs)
  qed
  let ?s1 = "s\<lparr>token := tok, msg_cb_thread := True, init_device_list := jc.text_of l\<rparr>"
  have "login_user strtod srv u p s = Inr (login_ok, ?s1)"
    using login_accepted_result [OF assms(1,3-5)] assms(2) l(1) ms(3) jc.text_of(1) [OF l(2)]
    by (simp add: after_login_def startMessageCallBack_def)
  moreover have "tok' \<noteq> []" using assms(8) unfolding login_accepted_def by blast
  then have "login_user strtod srv' u' p' ?s1 = Inl Terminate"
    using login_accepted_result [where s = ?s1, OF _ assms(6-8)] assms(1)
    by (simp add: after_login_def startMessageCallBack_def)
  ultimately show ?thesis by (intro exI [of _ ?s1]) simp
qed

definition login_reply :: "string \<Rightarrow> json" where
  "login_reply tok = J_Object [(''msg'', J_String ''success''), (''token'', J_String tok)]"

lemma demo_login:
  assumes "utf8_text tok" and "tok \<noteq> []"
  shows "login_accepted strtod (\<lambda>_. Some (jc.text_of (ok_reply (login_reply tok)))) u p tok (login_reply tok)"
proof -
  have r: "printable (login_reply tok)"
    unfolding login_reply_def using printable_strings [of "[(''msg'', ''success''), (''token'', tok)]"] assms(1)
    by (simp add: key_order_def ascii_text)
  have "json_parse strtod (jc.text_of (ok_reply (login_reply tok))) = Inr (ok_reply (login_reply tok))"
    unfolding ok_reply_def by (intro jc.text_of(2) printable_reply r)
  then show ?thesis using r assms(2) by (simp add: login_accepted_def login_reply_def)
qed

theorem second_login_terminates_witness:
  "\<forall>raw. \<exists>s1. login_user (\<lambda>_. 0) (\<lambda>_. Some (jc.text_of (ok_reply (login_reply ''t'')))) ''u'' ''p''
         ((demo_main raw)\<lparr>rpc := Some ([], [])\<rparr>) = Inr (login_ok, s1)
     \<and> login_user (\<lambda>_. 0) (\<lambda>_. Some (jc.text_of (ok_reply (login_reply ''t2'')))) ''v'' ''q'' s1 = Inl Terminate"
proof
  fix raw
  have l: "login_accepted (\<lambda>_. 0) (\<lambda>_. Some (jc.text_of (ok_reply (login_reply ''t'')))) ''u'' ''p'' ''t'' (login_reply ''t'')"
    "login_accepted (\<lambda>_. 0) (\<lambda>_. Some (jc.text_of (ok_reply (login_reply ''t2'')))) ''v'' ''q'' ''t2'' (login_reply ''t2'')"
    by (rule demo_login; simp add: ascii_text)+
  show "\<exists>s1. login_user (\<lambda>_. 0) (\<lambda>_. Some (jc.text_of (ok_reply (login_reply ''t'')))) ''u'' ''p''
         ((demo_main raw)\<lparr>rpc := Some ([], [])\<rparr>) = Inr (login_ok, s1)
     \<and> login_user (\<lambda>_. 0) (\<lambda>_. Some (jc.text_of (ok_reply (login_reply ''t2'')))) ''v'' ''q'' s1 = Inl Terminate"
    using second_login_terminates [OF _ _ _ _ l(1) _ _ l(2), of "(demo_main raw)\<lparr>rpc := Some ([], [])\<rparr>" "([], [])"]
    by (auto simp: demo_main_def new_MainCtrl_def ascii_text)
qed

text \<open>Only a login starts the message thread.\<close>

lemma after_login_thread: "after_login reply s = Inr s' \<Longrightarrow> token s = [] \<Longrightarrow> s' = s"
  by (simp add: after_login_def)

lemma stopVideo_thread: "msg_cb_thread (stopVideo ops i s) = msg_cb_thread s"
  by (simp add: stopVideo_def Let_def upd_window_def upd_device_def)

lemma main_step_thread:
  assumes "main_step ops strtod srv x s = Inr s'" and "\<forall>u p. x \<noteq> Login u p"
  shows "msg_cb_thread s' = msg_cb_thread s"
proof (cases x)
  case (Stop_Video i)
  then show ?thesis using assms(1) by (auto simp: stopVideo_thread)
next
  case (Play_Video i)
  then show ?thesis
    using assms(1)
    by (auto simp: playVideo_def Let_def rbind_Inr_iff upd_window_def upd_device_def stopVideo_thread split: if_splits)
qed (use assms in \<open>auto simp: addDevice_def addWindow_def playAudio_def stopAudio_def startTalk_def stopTalk_def
    MessageHandle_def setServerIp_def setServerPort_def rbind_Inr_iff Let_def upd_window_def upd_device_def
    split: if_splits option.splits\<close>)

lemma main_run_thread:
  "main_run ops strtod xs s = Inr s' \<Longrightarrow> \<forall>srv u p. (srv, Login u p) \<notin> set xs \<Longrightarrow>
   msg_cb_thread s' = msg_cb_thread s"
proof (induction xs arbitrary: s)
  case (Cons a xs)
  obtain srv x where a: "a = (srv, x)" by (cases a)
  with Cons.prems(1) obtain s1 where "main_step ops strtod srv x s = Inr s1" "main_run ops strtod xs s1 = Inr s'"
    by (auto simp: rbind_Inr_iff)
  then show ?case
    using Cons.IH [of s1] main_step_thread [of ops strtod srv x s s1] Cons.prems(2) a by auto
qed simp

text \<open>C40: a viewer in which nobody has logged in cannot be closed: whatever else was done with it, the
  destructor dereferences a null pointer, the client's when no server was set, and otherwise, as soon as
  the logout call returns, that of the message thread that was never started; where the logout call
  throws, the exception leaves the destructor.\<close>

theorem closing_without_login:
  assumes "main_run ops strtod xs new_MainCtrl = Inr s" and "\<forall>srv u p. (srv, Login u p) \<notin> set xs"
  shows "(rpc s = None \<longrightarrow> delete_MainCtrl strtod srv s = Inl NullDeref)
    \<and> (\<forall>x. rpc_call strtod srv (logout_request (token s)) s = Inr x \<longrightarrow> delete_MainCtrl strtod srv s = Inl NullDeref)
    \<and> (\<forall>e. rpc_call strtod srv (logout_request (token s)) s = Inl e \<longrightarrow> delete_MainCtrl strtod srv s = Inl e)"
proof -
  have "\<not> msg_cb_thread s" using main_run_thread [OF assms] by (simp add: new_MainCtrl_def)
  then show ?thesis by (simp add: delete_MainCtrl_def rpc_call_def check_def)
qed

theorem closing_without_login_witness:
  "\<forall>raw. \<exists>s. main_run (video_ops (\<lambda>c. c)) (\<lambda>_. 0) (demo_ops raw) new_MainCtrl = Inr s
     \<and> rpc s \<noteq> None \<and> delete_MainCtrl (\<lambda>_. 0) (\<lambda>_. None) s = Inl NullDeref"
proof
  fix raw
  obtain s where s: "main_run (video_ops (\<lambda>c. c)) (\<lambda>_. 0) (demo_ops raw) new_MainCtrl = Inr s"
      "rpc s = Some (''10.0.0.1'', ''50051'')" "token s = []"
    using demo_run [of raw] by blast
  have n: "\<forall>srv u p. (srv, Login u p) \<notin> set (demo_ops raw)" by (auto simp: demo_ops_def)
  have "printable (logout_request [])"
    unfolding logout_request_def by (rule printable_init; simp add: printable.intros ascii_text)
  then have "rpc_call (\<lambda>_. 0) (\<lambda>_. None) (logout_request (token s)) s = Inr (J_Null, False)"
    by (intro rpc_call_refused [OF s(2)]) (simp_all add: refused_def s(3))
  then show "\<exists>s. main_run (video_ops (\<lambda>c. c)) (\<lambda>_. 0) (demo_ops raw) new_MainCtrl = Inr s
     \<and> rpc s \<noteq> None \<and> delete_MainCtrl (\<lambda>_. 0) (\<lambda>_. None) s = Inl NullDeref"
    using closing_without_login [OF s(1) n] s(1,2) by blast
qed

end
