(* ===== verification/Config_Ctrl.thy ===== *)
theory Config_Ctrl
  imports String_Map
begin

text \<open>
  \<^verbatim>\<open>src/ConfigCtrl.cpp\<close>: the settings, a \<open>std::map\<close> of strings that is written
  to and read from a text file. \<open>fs\<close> is the file system: the bytes stored under a path. The file is
  opened in the text mode of the target (Windows): the end of a line is stored as two bytes, and on
  reading a byte 0x1A ends the text. Strings are the bytes of their UTF-8 form, as
  \<open>toStdString\<close> makes them; \<open>c_str\<close> cuts a value at its first NUL.
\<close>

section \<open>The settings\<close>

record config_ctrl =
  config_file :: string
  config_values :: "(string \<times> string) list"

type_synonym files = "string \<rightharpoonup> string"

definition new_ConfigCtrl :: config_ctrl where
  "new_ConfigCtrl = \<lparr>config_file = [], config_values = []\<rparr>"

definition setValue :: "string \<Rightarrow> string \<Rightarrow> config_ctrl \<Rightarrow> config_ctrl" where
  "setValue k v s = s\<lparr>config_values := map_put k v (config_values s)\<rparr>"

text \<open>\<open>operator[]\<close> makes an empty entry when there is none.\<close>

definition getValue :: "string \<Rightarrow> config_ctrl \<Rightarrow> string \<times> config_ctrl" where
  "getValue k s =
    (case map_of (config_values s) k of Some v \<Rightarrow> (c_str v, s)
     | None \<Rightarrow> ([], s\<lparr>config_values := map_put k [] (config_values s)\<rparr>))"

definition config_line :: "string \<times> string \<Rightarrow> string" where
  "config_line p = fst p @ '':'' @ snd p @ [CHR 0x0A]"

text \<open>Writing and reading in text mode.\<close>

definition text_write :: "string \<Rightarrow> string" where
  "text_write cs = concat (map (\<lambda>c. if c = CHR 0x0A then [CHR 0x0D, c] else [c]) cs)"

fun text_read :: "string \<Rightarrow> string" where
  "text_read [] = []"
| "text_read [c] = (if c = CHR 0x1A then [] else [c])"
| "text_read (c # d # cs) =
    (if c = CHR 0x1A then [] else if c = CHR 0x0D \<and> d = CHR 0x0A then d # text_read cs
     else c # text_read (d # cs))"

text \<open>\<open>can_open\<close>: whether the file can be opened for writing.\<close>

definition publish :: "(string \<Rightarrow> bool) \<Rightarrow> config_ctrl \<Rightarrow> files \<Rightarrow> files" where
  "publish can_open s fs =
    (if config_file s = [] \<or> \<not> can_open (config_file s) then fs
     else fs(config_file s \<mapsto> text_write (concat (map config_line (config_values s)))))"

definition is_space :: "char \<Rightarrow> bool" where
  "is_space c \<longleftrightarrow> c \<in> {CHR 0x20, CHR 0x09, CHR 0x0A, CHR 0x0B, CHR 0x0C, CHR 0x0D}"

text \<open>The words \<open>ss >> line\<close> extracts one after the other.\<close>

function words :: "string \<Rightarrow> string list" where
  "words cs =
    (let cs = dropWhile is_space cs in
     if cs = [] then [] else takeWhile (\<lambda>c. \<not> is_space c) cs # words (dropWhile (\<lambda>c. \<not> is_space c) cs))"
  by pat_completeness auto

termination
proof (relation "measure length")
  fix cs x :: string
  assume x: "x = dropWhile is_space cs" "x \<noteq> []"
  then have "\<not> is_space (hd x)" using hd_dropWhile [of is_space cs] by simp
  then have "length (dropWhile (\<lambda>c. \<not> is_space c) x) < length x"
    using x(2) length_dropWhile_le [of "\<lambda>c. \<not> is_space c" "tl x"] by (cases x) auto
  moreover have "length x \<le> length cs" unfolding x(1) by (rule length_dropWhile_le)
  ultimately show "(dropWhile (\<lambda>c. \<not> is_space c) x, cs) \<in> measure length" by simp
qed simp

declare words.simps [simp del]

text \<open>A word without a colon is skipped.\<close>

definition load_word :: "string \<Rightarrow> config_ctrl \<Rightarrow> config_ctrl" where
  "load_word line s =
    (if CHR '':'' \<notin> set line then s
     else setValue (takeWhile (\<lambda>c. c \<noteq> CHR '':'') line) (tl (dropWhile (\<lambda>c. c \<noteq> CHR '':'') line)) s)"

definition initValues :: "files \<Rightarrow> config_ctrl \<Rightarrow> config_ctrl" where
  "initValues fs s =
    (if config_file s = [] then s
     else case fs (config_file s) of None \<Rightarrow> s | Some bytes \<Rightarrow> fold load_word (words (text_read bytes)) s)"

definition setConfigFile :: "files \<Rightarrow> string \<Rightarrow> config_ctrl \<Rightarrow> config_ctrl" where
  "setConfigFile fs path s = initValues fs (s\<lparr>config_file := path\<rparr>)"

section \<open>The properties\<close>

definition plain_entry :: "string \<times> string \<Rightarrow> bool" where
  "plain_entry p \<longleftrightarrow> (\<forall>c \<in> set (fst p). \<not> is_space c \<and> c \<noteq> CHR '':'') \<and> (\<forall>c \<in> set (snd p). \<not> is_space c)
     \<and> CHR 0x1A \<notin> set (fst p @ snd p)"

lemma text_write_simps [simp]:
  "text_write [] = []"
  "text_write (c # cs) = (if c = CHR 0x0A then [CHR 0x0D, c] else [c]) @ text_write cs"
  by (simp_all add: text_write_def)

lemma text_write_hd: "text_write cs = d # ds \<Longrightarrow> d \<noteq> CHR 0x0A"
  by (cases cs) (auto split: if_splits)

text \<open>Text mode loses nothing of a text without the byte 0x1A.\<close>

lemma text_read_write: "CHR 0x1A \<notin> set cs \<Longrightarrow> text_read (text_write cs) = cs"
proof (induction cs)
  case (Cons c cs)
  then have IH: "text_read (text_write cs) = cs" by simp
  show ?case
  proof (cases "c = CHR 0x0A")
    case False
    then show ?thesis
      using IH Cons.prems text_write_hd [of cs] by (cases "text_write cs") auto
  qed (simp add: IH)
qed simp

lemma plain_lines: "\<forall>p \<in> set es. plain_entry p \<Longrightarrow> CHR 0x1A \<notin> set (concat (map config_line es))"
  by (auto simp: plain_entry_def config_line_def)

lemma words_word:
  assumes "\<forall>c \<in> set w. \<not> is_space c" and "w \<noteq> []"
  shows "words (w @ CHR 0x0A # rest) = w # words rest"
proof -
  have nl: "is_space (CHR 0x0A)" by (simp add: is_space_def)
  obtain c cs where w: "w = c # cs" using assms(2) by (cases w) auto
  have d: "dropWhile is_space (w @ CHR 0x0A # rest) = w @ CHR 0x0A # rest" using assms(1) w by simp
  have t: "takeWhile (\<lambda>c. \<not> is_space c) (w @ CHR 0x0A # rest) = w"
    "dropWhile (\<lambda>c. \<not> is_space c) (w @ CHR 0x0A # rest) = CHR 0x0A # rest"
    using assms(1) nl takeWhile_append2 [of w] dropWhile_append2 [of w] by simp_all
  have "words (CHR 0x0A # rest) = words rest"
    using nl by (simp add: words.simps [of "CHR 0x0A # rest"] words.simps [of rest])
  then show ?thesis using assms(2) d t by (subst words.simps) (simp add: Let_def)
qed

lemma words_line:
  assumes "plain_entry p"
  shows "words (config_line p @ rest) = (fst p @ '':'' @ snd p) # words rest"
  using words_word [of "fst p @ '':'' @ snd p" rest] assms
  by (auto simp: config_line_def plain_entry_def is_space_def)

lemma words_lines:
  "\<forall>p \<in> set es. plain_entry p \<Longrightarrow> words (concat (map config_line es)) = map (\<lambda>p. fst p @ '':'' @ snd p) es"
proof (induction es)
  case Nil
  show ?case by (simp add: words.simps)
qed (simp add: words_line)

lemma load_plain: "plain_entry p \<Longrightarrow> load_word (fst p @ '':'' @ snd p) s = setValue (fst p) (snd p) s"
  by (auto simp: load_word_def plain_entry_def takeWhile_append2 dropWhile_append2)

lemma load_lines:
  "\<forall>p \<in> set es. plain_entry p \<Longrightarrow>
   fold load_word (map (\<lambda>p. fst p @ '':'' @ snd p) es) s =
     s\<lparr>config_values := sm.put_all es (config_values s)\<rparr>"
proof (induction es arbitrary: s)
  case (Cons p es)
  then show ?case using load_plain [of p s] by (cases p) (simp add: setValue_def sm.put_all_def)
qed (simp add: sm.put_all_def)

text \<open>C34: settings without white space or a byte 0x1A, and without a colon in a key, survive the text file:
  what \<open>publish\<close> writes a new \<open>ConfigCtrl\<close> reads back as the same settings, and one that has
  settings keeps those that are not in the file and takes the others from it.\<close>

theorem config_roundtrip:
  assumes "key_order (config_values s)" and "\<forall>p \<in> set (config_values s). plain_entry p"
    and "config_file s \<noteq> []" and "can_open (config_file s)" and "key_order (config_values s2)"
  shows "setConfigFile (publish can_open s fs) (config_file s) new_ConfigCtrl = s
    \<and> map_of (config_values (setConfigFile (publish can_open s fs) (config_file s) s2)) =
        map_of (config_values s2) ++ map_of (config_values s)"
proof -
  have load: "setConfigFile (publish can_open s fs) (config_file s) x =
      x\<lparr>config_file := config_file s, config_values := sm.put_all (config_values s) (config_values x)\<rparr>" for x
    using assms(3,4) words_lines [OF assms(2)] text_read_write [OF plain_lines [OF assms(2)]] load_lines [OF assms(2), of "x\<lparr>config_file := config_file s\<rparr>"]
    by (simp add: setConfigFile_def initValues_def publish_def)
  have "map_of (rev (config_values s)) = map_of (config_values s)"
    using key_order_distinct [OF assms(1)] by (intro map_of_inject_set [THEN iffD2]) (simp_all flip: rev_map)
  then show ?thesis
    using sm.put_all_entries [OF assms(1)] sm.lookup_put_all [OF assms(5)]
    by (simp add: load new_ConfigCtrl_def)
qed

theorem config_roundtrip_witness:
  "setConfigFile (publish (\<lambda>_. True) \<lparr>config_file = ''c.txt'', config_values = [(''ip'', ''::1''), (''port'', ''50051'')]\<rparr>
     (\<lambda>_. None)) ''c.txt'' new_ConfigCtrl = \<lparr>config_file = ''c.txt'', config_values = [(''ip'', ''::1''), (''port'', ''50051'')]\<rparr>"
  using config_roundtrip [of "\<lparr>config_file = ''c.txt'', config_values = [(''ip'', ''::1''), (''port'', ''50051'')]\<rparr>"
      "\<lambda>_. True" new_ConfigCtrl "\<lambda>_. None"]
  by (simp add: key_order_def plain_entry_def is_space_def new_ConfigCtrl_def less_char_def)

text \<open>
  The settings implement a finite map in which a missing key reads as the empty string; the entries
  stay in key order without repetition, through loading too.
\<close>

lemma config_refines_map:
  assumes "key_order (config_values s)"
  shows "map_of (config_values (setValue k v s)) = (map_of (config_values s))(k \<mapsto> v)"
    and "fst (getValue k s) = c_str (case map_of (config_values s) k of Some v \<Rightarrow> v | None \<Rightarrow> [])"
    and "fst (getValue j (snd (getValue k s))) = fst (getValue j s)"
    and "key_order (config_values (setValue k v s))" and "key_order (config_values (snd (getValue k s)))"
    and "key_order (config_values (setConfigFile fs path s))"
proof -
  have set: "key_order (config_values (setValue k v s))" if "key_order (config_values s)" for k v s
    using that by (simp add: setValue_def key_order_map_put)
  then show "key_order (config_values (setValue k v s))" using assms .
  have "key_order (config_values (fold load_word ls s))" if "key_order (config_values s)" for ls s
    using that by (induction ls arbitrary: s) (simp_all add: load_word_def set)
  then show "key_order (config_values (setConfigFile fs path s))"
    using assms by (simp add: setConfigFile_def initValues_def split: option.split)
qed (use assms in \<open>auto simp: setValue_def getValue_def c_str_def map_of_map_put key_order_map_put split: option.splits\<close>)

text \<open>
  A value with a space comes back cut off at it, a key with a colon as another key, and a byte 0x1A
  ends the settings.
\<close>

lemma config_not_roundtrip:
  "setConfigFile (publish (\<lambda>_. True) \<lparr>config_file = ''c'', config_values = [(''dir'', ''my files'')]\<rparr> (\<lambda>_. None))
     ''c'' new_ConfigCtrl = \<lparr>config_file = ''c'', config_values = [(''dir'', ''my'')]\<rparr>"
  "setConfigFile (publish (\<lambda>_. True) \<lparr>config_file = ''c'', config_values = [(''a:b'', ''x'')]\<rparr> (\<lambda>_. None))
     ''c'' new_ConfigCtrl = \<lparr>config_file = ''c'', config_values = [(''a'', ''b:x'')]\<rparr>"
  "setConfigFile (publish (\<lambda>_. True) \<lparr>config_file = ''c'',
       config_values = [(''a'', [CHR ''x'', CHR 0x1A]), (''b'', ''y'')]\<rparr> (\<lambda>_. None))
     ''c'' new_ConfigCtrl = \<lparr>config_file = ''c'', config_values = [(''a'', ''x'')]\<rparr>"
  by (simp_all add: setConfigFile_def initValues_def publish_def config_line_def words.simps is_space_def
      load_word_def setValue_def new_ConfigCtrl_def)

end
