(* ===== verification/Frame_Provider.thy ===== *)
theory Frame_Provider
  imports Viewer
begin

text \<open>
  \<^verbatim>\<open>src/FrameProvider.cpp\<close>, which presents frames on the video surface of a window,
  and \<^verbatim>\<open>src/CameraFilter.cpp\<close>, which sets the camera up and passes its frames on.
  Surfaces are pointers; Qt's surfaces are a parameter: which formats are valid, the nearest
  format a surface supports, and whether it becomes active when started in a format. \<open>log\<close> records
  the calls on surfaces, \<open>active\<close> which are active. A frame is its size, format and identity.
\<close>

section \<open>The provider\<close>

type_synonym surface = nat

record 'f surface_lib =
  valid :: "'f \<Rightarrow> bool"
  nearestFormat :: "surface \<Rightarrow> 'f \<Rightarrow> 'f"
  accepts :: "surface \<Rightarrow> 'f \<Rightarrow> bool"
  surface_format :: "int \<Rightarrow> int \<Rightarrow> qt_pixel_format \<Rightarrow> 'f"

record video_frame =
  vf_width :: int
  vf_height :: int
  vf_format :: qt_pixel_format
  vf_id :: nat

datatype 'f surface_call = Start surface 'f | Stop surface | Present surface video_frame

record 'f frame_provider =
  surface :: "surface option"
  format :: 'f
  active :: "surface set"
  log :: "'f surface_call list"

definition new_FrameProvider :: "'f \<Rightarrow> 'f frame_provider" where
  "new_FrameProvider none = \<lparr>surface = None, format = none, active = {}, log = []\<rparr>"

definition mark :: "bool \<Rightarrow> surface \<Rightarrow> surface set \<Rightarrow> surface set" where
  "mark b i on = (if b then on \<union> {i} else on - {i})"

lemma in_mark [simp]: "j \<in> mark b i on \<longleftrightarrow> (if j = i then b else j \<in> on)"
  by (simp add: mark_def)

definition surface_stop :: "surface \<Rightarrow> 'f frame_provider \<Rightarrow> 'f frame_provider" where
  "surface_stop i s = s\<lparr>active := mark False i (active s), log := log s @ [Stop i]\<rparr>"

definition surface_start :: "'f surface_lib \<Rightarrow> surface \<Rightarrow> 'f \<Rightarrow> 'f frame_provider \<Rightarrow> 'f frame_provider" where
  "surface_start lib i f s = s\<lparr>active := mark (accepts lib i f) i (active s), log := log s @ [Start i f]\<rparr>"

definition setVideoSurface ::
    "'f surface_lib \<Rightarrow> surface option \<Rightarrow> 'f frame_provider \<Rightarrow> 'f frame_provider" where
  "setVideoSurface lib sf s =
    (let s = (case surface s of None \<Rightarrow> s
       | Some i \<Rightarrow> if surface s \<noteq> sf \<and> i \<in> active s then surface_stop i s else s);
         s = s\<lparr>surface := sf\<rparr> in
     case surface s of None \<Rightarrow> s
     | Some i \<Rightarrow>
         if valid lib (format s) then
           (let s = s\<lparr>format := nearestFormat lib i (format s)\<rparr> in surface_start lib i (format s) s)
         else s)"

definition setFormat ::
    "'f surface_lib \<Rightarrow> int \<Rightarrow> int \<Rightarrow> qt_pixel_format \<Rightarrow> 'f frame_provider \<Rightarrow> 'f frame_provider" where
  "setFormat lib width heigth fmt s =
    (let s = s\<lparr>format := surface_format lib width heigth fmt\<rparr> in
     case surface s of None \<Rightarrow> s
     | Some i \<Rightarrow>
         (let s = (if i \<in> active s then surface_stop i s else s);
              s = s\<lparr>format := nearestFormat lib i (format s)\<rparr> in
          surface_start lib i (format s) s))"

definition onNewFrameReceived ::
    "'f surface_lib \<Rightarrow> video_frame \<Rightarrow> 'f frame_provider \<Rightarrow> 'f frame_provider" where
  "onNewFrameReceived lib fr s =
    (let s = setFormat lib (vf_width fr) (vf_height fr) (vf_format fr) s in
     case surface s of None \<Rightarrow> s | Some i \<Rightarrow> s\<lparr>log := log s @ [Present i fr]\<rparr>)"

definition flush :: "'f surface_lib \<Rightarrow> 'f frame_provider \<Rightarrow> 'f frame_provider" where
  "flush lib s =
    (case surface s of None \<Rightarrow> s
     | Some i \<Rightarrow>
         (let s = (if i \<in> active s then surface_stop i s else s) in surface_start lib i (format s) s))"

section \<open>The camera\<close>

record camera_settings =
  pixel_format :: qt_pixel_format
  min_frame_rate :: int
  max_frame_rate :: int
  resolution :: "int \<times> int"

definition viewfinder :: "camera_settings \<Rightarrow> camera_settings" where
  "viewfinder st = st\<lparr>pixel_format := Format_YUYV, min_frame_rate := 15, max_frame_rate := 15,
     resolution := (640, 360)\<rparr>"

text \<open>The frame passed on to the sender, if any; \<open>mapped\<close>: whether mapping it succeeds.\<close>

definition onProcssFram :: "bool \<Rightarrow> bool \<Rightarrow> 'a \<Rightarrow> 'a option" where
  "onProcssFram is_valid mapped frame = (if \<not> is_valid then None else if mapped then Some frame else None)"

section \<open>Runs\<close>

datatype provider_op = Set_Surface "surface option" | Frame video_frame | Flush

fun provider_step :: "'f surface_lib \<Rightarrow> provider_op \<Rightarrow> 'f frame_provider \<Rightarrow> 'f frame_provider" where
  "provider_step lib (Set_Surface sf) s = setVideoSurface lib sf s"
| "provider_step lib (Frame fr) s = onNewFrameReceived lib fr s"
| "provider_step lib Flush s = flush lib s"

text \<open>
  A surface must not be started while it is active nor stopped while it is not; \<open>on\<close> tells which
  are active before the calls. \<open>after_calls\<close> tells it for after them.
\<close>

fun after_calls :: "'f surface_lib \<Rightarrow> surface set \<Rightarrow> 'f surface_call list \<Rightarrow> surface set" where
  "after_calls lib on [] = on"
| "after_calls lib on (Start i f # cs) = after_calls lib (mark (accepts lib i f) i on) cs"
| "after_calls lib on (Stop i # cs) = after_calls lib (mark False i on) cs"
| "after_calls lib on (Present i fr # cs) = after_calls lib on cs"

fun calls_ok :: "'f surface_lib \<Rightarrow> surface set \<Rightarrow> 'f surface_call list \<Rightarrow> bool" where
  "calls_ok lib on [] = True"
| "calls_ok lib on (Start i f # cs) = (i \<notin> on \<and> calls_ok lib (mark (accepts lib i f) i on) cs)"
| "calls_ok lib on (Stop i # cs) = (i \<in> on \<and> calls_ok lib (mark False i on) cs)"
| "calls_ok lib on (Present i fr # cs) = calls_ok lib on cs"

lemma calls_append [simp]:
  "after_calls lib on (cs @ ds) = after_calls lib (after_calls lib on cs) ds"
  "calls_ok lib on (cs @ ds) = (calls_ok lib on cs \<and> calls_ok lib (after_calls lib on cs) ds)"
proof -
  show "after_calls lib on (cs @ ds) = after_calls lib (after_calls lib on cs) ds"
  proof (induction cs arbitrary: on)
    case (Cons c cs)
    then show ?case by (cases c) simp_all
  qed simp
  show "calls_ok lib on (cs @ ds) = (calls_ok lib on cs \<and> calls_ok lib (after_calls lib on cs) ds)"
  proof (induction cs arbitrary: on)
    case (Cons c cs)
    then show ?case by (cases c) simp_all
  qed simp
qed

text \<open>An operation that starts a surface which is already active, and whether a run has one.\<close>

definition restart :: "'f surface_lib \<Rightarrow> provider_op \<Rightarrow> 'f frame_provider \<Rightarrow> bool" where
  "restart lib op s \<longleftrightarrow> (case op of Set_Surface (Some i) \<Rightarrow>
     surface s = Some i \<and> i \<in> active s \<and> valid lib (format s) | _ \<Rightarrow> False)"

fun restarts :: "'f surface_lib \<Rightarrow> provider_op list \<Rightarrow> 'f frame_provider \<Rightarrow> bool" where
  "restarts lib [] s \<longleftrightarrow> False"
| "restarts lib (op # ops) s \<longleftrightarrow> restart lib op s \<or> restarts lib ops (provider_step lib op s)"

text \<open>The frames received, with the surface that was set then.\<close>

fun expected :: "surface option \<Rightarrow> provider_op list \<Rightarrow> (surface \<times> video_frame) list" where
  "expected cur [] = []"
| "expected cur (Set_Surface sf # ops) = expected sf ops"
| "expected cur (Frame fr # ops) = (case cur of None \<Rightarrow> [] | Some i \<Rightarrow> [(i, fr)]) @ expected cur ops"
| "expected cur (Flush # ops) = expected cur ops"

fun presented :: "'f surface_call list \<Rightarrow> (surface \<times> video_frame) list" where
  "presented [] = []"
| "presented (Present i fr # cs) = (i, fr) # presented cs"
| "presented (_ # cs) = presented cs"

lemma presented_append [simp]: "presented (cs @ ds) = presented cs @ presented ds"
proof (induction cs)
  case (Cons c cs)
  then show ?case by (cases c) simp_all
qed simp

definition provider_inv :: "'f surface_lib \<Rightarrow> 'f frame_provider \<Rightarrow> bool" where
  "provider_inv lib s \<longleftrightarrow> active s = after_calls lib {} (log s)
     \<and> (\<forall>i. i \<in> active s \<longrightarrow> surface s = Some i)"

lemma mark_mark [simp]: "mark b i (mark c i on) = mark b i on"
  by (auto simp: mark_def)

text \<open>The calls of each operation, and what they do to the active surfaces.\<close>

definition stop_calls :: "surface \<Rightarrow> bool \<Rightarrow> 'f surface_call list" where
  "stop_calls i b = (if b then [Stop i] else [])"

fun op_calls :: "'f surface_lib \<Rightarrow> provider_op \<Rightarrow> 'f frame_provider \<Rightarrow> 'f surface_call list" where
  "op_calls lib (Set_Surface sf) s =
     (case surface s of None \<Rightarrow> [] | Some i \<Rightarrow> stop_calls i (sf \<noteq> Some i \<and> i \<in> active s))
     @ (case sf of None \<Rightarrow> [] | Some j \<Rightarrow>
          if valid lib (format s) then [Start j (nearestFormat lib j (format s))] else [])"
| "op_calls lib (Frame fr) s =
     (case surface s of None \<Rightarrow> [] | Some i \<Rightarrow> stop_calls i (i \<in> active s)
        @ [Start i (nearestFormat lib i (surface_format lib (vf_width fr) (vf_height fr) (vf_format fr))), Present i fr])"
| "op_calls lib Flush s =
     (case surface s of None \<Rightarrow> [] | Some i \<Rightarrow> stop_calls i (i \<in> active s) @ [Start i (format s)])"

lemma surface_calls [simp]:
  "surface (surface_stop i s) = surface s" "surface (surface_start lib i f s) = surface s"
  "format (surface_stop i s) = format s" "format (surface_start lib i f s) = format s"
  "active (surface_stop i s) = mark False i (active s)"
  "active (surface_start lib i f s) = mark (accepts lib i f) i (active s)"
  "log (surface_stop i s) = log s @ [Stop i]" "log (surface_start lib i f s) = log s @ [Start i f]"
  by (simp_all add: surface_stop_def surface_start_def)

lemma provider_step_calls:
  "log (provider_step lib op s) = log s @ op_calls lib op s
    \<and> active (provider_step lib op s) = after_calls lib (active s) (op_calls lib op s)
    \<and> surface (provider_step lib op s) = (case op of Set_Surface sf \<Rightarrow> sf | _ \<Rightarrow> surface s)"
proof (cases "surface s")
  case None
  then show ?thesis
    by (cases op; (cases "valid lib (format s)")?)
      (auto simp: setVideoSurface_def onNewFrameReceived_def setFormat_def flush_def Let_def split: option.split)
next
  case (Some i)
  show ?thesis
  proof (cases op)
    case (Set_Surface sf)
    then show ?thesis
      using Some by (cases sf; cases "i \<in> active s"; cases "sf = Some i"; cases "valid lib (format s)")
        (simp_all add: setVideoSurface_def stop_calls_def Let_def)
  qed (use Some in \<open>cases "i \<in> active s"; simp add: onNewFrameReceived_def setFormat_def flush_def stop_calls_def Let_def\<close>)+
qed

lemma op_calls_ok:
  assumes only: "\<And>i. i \<in> active s \<Longrightarrow> surface s = Some i"
  shows "calls_ok lib (active s) (op_calls lib op s) \<longleftrightarrow> \<not> restart lib op s"
    and "i \<in> after_calls lib (active s) (op_calls lib op s) \<Longrightarrow>
      (case op of Set_Surface sf \<Rightarrow> sf | _ \<Rightarrow> surface s) = Some i"
proof -
  have "(calls_ok lib (active s) (op_calls lib op s) \<longleftrightarrow> \<not> restart lib op s)
      \<and> (i \<in> after_calls lib (active s) (op_calls lib op s) \<longrightarrow>
          (case op of Set_Surface sf \<Rightarrow> sf | _ \<Rightarrow> surface s) = Some i)"
  proof (cases "surface s")
    case None
    then have "active s = {}" using only by auto
    then show ?thesis using None by (cases op) (auto simp: restart_def split: option.split)
  next
    case (Some j)
    then have "active s = {j} \<or> active s = {}" using only by auto
    then show ?thesis
      using Some by (cases op) (auto simp: stop_calls_def restart_def split: option.split)
  qed
  then show "calls_ok lib (active s) (op_calls lib op s) \<longleftrightarrow> \<not> restart lib op s"
    and "i \<in> after_calls lib (active s) (op_calls lib op s) \<Longrightarrow>
      (case op of Set_Surface sf \<Rightarrow> sf | _ \<Rightarrow> surface s) = Some i" by blast+
qed

lemma provider_step_inv:
  assumes inv: "provider_inv lib s"
  shows "provider_inv lib (provider_step lib op s)"
    and "calls_ok lib {} (log (provider_step lib op s)) \<longleftrightarrow> calls_ok lib {} (log s) \<and> \<not> restart lib op s"
    and "presented (log (provider_step lib op s)) = presented (log s) @ expected (surface s) [op]"
proof -
  have a: "after_calls lib {} (log s) = active s"
    and only: "\<And>i. i \<in> active s \<Longrightarrow> surface s = Some i"
    using inv by (simp_all add: provider_inv_def)
  show "provider_inv lib (provider_step lib op s)"
    using a op_calls_ok(2) [OF only, where lib = lib] provider_step_calls [of lib op s] by (simp add: provider_inv_def)
  show "calls_ok lib {} (log (provider_step lib op s)) \<longleftrightarrow> calls_ok lib {} (log s) \<and> \<not> restart lib op s"
    using a op_calls_ok(1) [OF only, where lib = lib] provider_step_calls [of lib op s] by simp
  show "presented (log (provider_step lib op s)) = presented (log s) @ expected (surface s) [op]"
    using provider_step_calls [of lib op s] by (cases op) (simp_all add: stop_calls_def split: option.split)
qed

lemma provider_run:
  assumes "provider_inv lib s"
  shows "provider_inv lib (fold (provider_step lib) ops s)
    \<and> (calls_ok lib {} (log (fold (provider_step lib) ops s)) \<longleftrightarrow> calls_ok lib {} (log s) \<and> \<not> restarts lib ops s)
    \<and> presented (log (fold (provider_step lib) ops s)) = presented (log s) @ expected (surface s) ops"
  using assms
proof (induction ops arbitrary: s)
  case (Cons op ops)
  let ?s = "provider_step lib op s"
  have o: "expected (surface s) (op # ops) = expected (surface s) [op] @ expected (surface ?s) ops"
    using provider_step_calls [of lib op s] by (cases op; simp)+
  show ?case
    using Cons.IH [OF provider_step_inv(1) [OF Cons.prems]] provider_step_inv(2,3) [OF Cons.prems, of op] o
    by auto
qed simp

text \<open>C35: whatever sequence of frames, flushes and surfaces a window gets: every frame received while a
  surface is set is presented on it exactly once and in order; only the current surface is ever left
  active; no surface is stopped while it is not active; and none is started while it is active, except
  by setting the active surface once more, which always does that when the format is valid.\<close>

theorem frames_presented:
  "presented (log (fold (provider_step lib) ops (new_FrameProvider none))) = expected None ops
    \<and> (\<forall>i. i \<in> active (fold (provider_step lib) ops (new_FrameProvider none)) \<longrightarrow>
         surface (fold (provider_step lib) ops (new_FrameProvider none)) = Some i)
    \<and> (calls_ok lib {} (log (fold (provider_step lib) ops (new_FrameProvider none)))
        \<longleftrightarrow> \<not> restarts lib ops (new_FrameProvider none))"
  using provider_run [of lib "new_FrameProvider none" ops]
  by (simp add: provider_inv_def new_FrameProvider_def)

definition demo_surfaces :: "(int \<times> int \<times> qt_pixel_format) option surface_lib" where
  "demo_surfaces = \<lparr>valid = (\<lambda>f. f \<noteq> None), nearestFormat = (\<lambda>i f. f), accepts = (\<lambda>i f. True),
     surface_format = (\<lambda>w h f. Some (w, h, f))\<rparr>"

definition demo_vf :: "nat \<Rightarrow> video_frame" where
  "demo_vf n = \<lparr>vf_width = 352, vf_height = 288, vf_format = Format_YUV420P, vf_id = n\<rparr>"

theorem frames_presented_witness:
  "presented (log (fold (provider_step demo_surfaces)
     [Frame (demo_vf 0), Set_Surface (Some 1), Frame (demo_vf 1), Set_Surface (Some 2), Flush, Frame (demo_vf 2)]
     (new_FrameProvider None))) = [(1, demo_vf 1), (2, demo_vf 2)]
   \<and> calls_ok demo_surfaces {} (log (fold (provider_step demo_surfaces)
     [Frame (demo_vf 0), Set_Surface (Some 1), Frame (demo_vf 1), Set_Surface (Some 2), Flush, Frame (demo_vf 2)]
     (new_FrameProvider None)))
   \<and> \<not> calls_ok demo_surfaces {} (log (fold (provider_step demo_surfaces)
     [Set_Surface (Some 1), Frame (demo_vf 1), Set_Surface (Some 1)] (new_FrameProvider None)))"
proof -
  have "\<not> restarts demo_surfaces [Frame (demo_vf 0), Set_Surface (Some 1), Frame (demo_vf 1),
      Set_Surface (Some 2), Flush, Frame (demo_vf 2)] (new_FrameProvider None)"
    by (simp add: restart_def onNewFrameReceived_def setFormat_def setVideoSurface_def flush_def
        new_FrameProvider_def demo_surfaces_def surface_start_def surface_stop_def Let_def)
  moreover have "restarts demo_surfaces [Set_Surface (Some 1), Frame (demo_vf 1), Set_Surface (Some 1)]
      (new_FrameProvider None)"
    by (simp add: restart_def onNewFrameReceived_def setFormat_def setVideoSurface_def
        new_FrameProvider_def demo_surfaces_def surface_start_def surface_stop_def Let_def)
  ultimately show ?thesis
    using frames_presented [of demo_surfaces "[Frame (demo_vf 0), Set_Surface (Some 1), Frame (demo_vf 1),
        Set_Surface (Some 2), Flush, Frame (demo_vf 2)]" None]
      frames_presented [of demo_surfaces "[Set_Surface (Some 1), Frame (demo_vf 1), Set_Surface (Some 1)]" None]
    by simp
qed

end
