(* ===== verification/Ffmpeg_Encode.thy ===== *)
theory Ffmpeg_Encode
  imports Viewer
begin

text \<open>
  \<^verbatim>\<open>src/FFmpeg_Encode.cpp\<close>: the H.264 encoder of the local recording. libavcodec is
  the parameter \<open>encoder_lib\<close>; the result of a call is what the data callback received.
  \<open>pkt_allocs\<close> and \<open>pkt_frees\<close> count the packets allocated and freed, \<open>sent_pts\<close> logs the
  time stamps of the frames sent to the codec. A member the constructor returns without setting
  keeps the contents of the allocation \<open>raw\<close>.
\<close>

record 'e encoder_lib =
  avcodec_send_frame :: "'e \<Rightarrow> u8 list \<Rightarrow> int \<Rightarrow> 'e \<times> int"
  avcodec_receive_packet :: "'e \<Rightarrow> 'e \<times> int \<times> u8 list"

record 'e encoder =
  enc_codecCtx :: "'e option"
  enc_size :: "u32 \<times> u32"
  time_base :: "int \<times> int"
  enc_pix_fmt :: av_pixel_format
  enc_frame :: bool
  enc_count :: u32
  pkt_allocs :: nat
  pkt_frees :: nat
  sent_pts :: "int list"

text \<open>
  \<open>found\<close>, \<open>ctx\<close>, \<open>opened\<close> and \<open>buffered\<close>: the results of
  \<open>avcodec_find_encoder\<close>, \<open>avcodec_alloc_context3\<close>, \<open>avcodec_open2\<close> and
  \<open>av_frame_get_buffer\<close>.
\<close>

definition new_Encoder ::
    "bool \<Rightarrow> 'e option \<Rightarrow> bool \<Rightarrow> bool \<Rightarrow> u32 \<Rightarrow> u32 \<Rightarrow> u32 \<Rightarrow> av_pixel_format \<Rightarrow> 'e encoder \<Rightarrow> 'e encoder"
where
  "new_Encoder found ctx opened buffered width height fps pix_fmt raw =
    (let s = raw\<lparr>pkt_allocs := 0, pkt_frees := 0, sent_pts := []\<rparr> in
     if \<not> found then s
     else
       let s = s\<lparr>enc_codecCtx := ctx\<rparr> in
       if ctx = None then s
       else
         let s = s\<lparr>enc_size := (width, height), time_base := (1, sint fps), enc_pix_fmt := pix_fmt\<rparr> in
         if \<not> opened then s
         else
           let s = s\<lparr>enc_frame := True\<rparr> in
           if \<not> buffered then s else s\<lparr>enc_count := 0\<rparr>)"

text \<open>The loop: a packet is allocated for every attempt and freed only when the attempt yields data.\<close>

partial_function (option) receive_packets ::
    "'e encoder_lib \<Rightarrow> 'e encoder \<Rightarrow> 'e \<Rightarrow> u8 list list \<Rightarrow> ('e encoder \<times> u8 list list) option" where
  "receive_packets lib s e out =
    (let s = s\<lparr>pkt_allocs := pkt_allocs s + 1\<rparr>; (e, ret, d) = avcodec_receive_packet lib e in
     if ret \<noteq> 0 then Some (s\<lparr>enc_codecCtx := Some e\<rparr>, out)
     else receive_packets lib (s\<lparr>pkt_frees := pkt_frees s + 1\<rparr>) e (out @ [d]))"

text \<open>The quotient of the time base, truncated towards zero, as \<open>int\<close>; the product is unsigned.\<close>

definition next_pts :: "'e encoder \<Rightarrow> int" where
  "next_pts s = (let (num, den) = time_base s in
     uint (enc_count s * word_of_int (sgn den * (num * 1000 div \<bar>den\<bar>))))"

definition receiveData ::
    "'e encoder_lib \<Rightarrow> u8 list \<Rightarrow> 'e encoder \<Rightarrow> ('e encoder \<times> u8 list list) result option" where
  "receiveData lib data s =
    (case enc_codecCtx s of
       None \<Rightarrow> Some (Inl NullDeref)
     | Some e \<Rightarrow>
         if \<not> enc_frame s then Some (Inl NullDeref)
         else if snd (time_base s) = 0 then Some (Inl DivByZero)
         else
           let pts = next_pts s;
               s = s\<lparr>enc_count := enc_count s + 1, sent_pts := sent_pts s @ [pts]\<rparr>;
               (e, ret) = avcodec_send_frame lib e data pts in
           if ret \<noteq> 0 then Some (Inr (s\<lparr>enc_codecCtx := Some e\<rparr>, []))
           else map_option Inr (receive_packets lib s e []))"

section \<open>A recording\<close>

fun record_all ::
    "'e encoder_lib \<Rightarrow> u8 list list \<Rightarrow> 'e encoder \<Rightarrow> ('e encoder \<times> u8 list list) result option" where
  "record_all lib [] s = Some (Inr (s, []))"
| "record_all lib (d # ds) s =
    (case receiveData lib d s of
       None \<Rightarrow> None | Some (Inl e) \<Rightarrow> Some (Inl e)
     | Some (Inr (s, out)) \<Rightarrow>
         (case record_all lib ds s of
            None \<Rightarrow> None | Some (Inl e) \<Rightarrow> Some (Inl e) | Some (Inr (s, out')) \<Rightarrow> Some (Inr (s, out @ out'))))"

text \<open>
  \<open>yields lib e ps e'\<close>: asked for packets, the codec hands over \<open>ps\<close> one by one and then reports
  that there is nothing more, by any of its codes (\<open>AVERROR(EAGAIN)\<close>, \<open>AVERROR_EOF\<close> or an
  encoding error). \<open>encodes lib step e pts ds e' ps n\<close>: what the codec does with a sequence of frames
  whose time stamps start at \<open>pts\<close> and are \<open>step\<close> apart. Each frame is either refused, with any
  nonzero code, or taken, in which case packets come out; \<open>ps\<close> are all packets and \<open>n\<close> is the number
  of frames taken.
\<close>

fun yields :: "'e encoder_lib \<Rightarrow> 'e \<Rightarrow> u8 list list \<Rightarrow> 'e \<Rightarrow> bool" where
  "yields lib e [] e' \<longleftrightarrow> (\<exists>ret d. avcodec_receive_packet lib e = (e', ret, d) \<and> ret \<noteq> 0)"
| "yields lib e (p # ps) e' \<longleftrightarrow> (\<exists>e1. avcodec_receive_packet lib e = (e1, 0, p) \<and> yields lib e1 ps e')"

inductive encodes ::
    "'e encoder_lib \<Rightarrow> int \<Rightarrow> 'e \<Rightarrow> int \<Rightarrow> u8 list list \<Rightarrow> 'e \<Rightarrow> u8 list list \<Rightarrow> nat \<Rightarrow> bool"
  for lib :: "'e encoder_lib" and step :: int where
  over: "encodes lib step e pts [] e [] 0"
| refused: "encodes lib step e pts (d # ds) e' ps n"
    if "avcodec_send_frame lib e d pts = (e1, ret)" and "ret \<noteq> 0"
      and "encodes lib step e1 (pts + step) ds e' ps n"
| taken: "encodes lib step e pts (d # ds) e' (qs @ ps) (Suc n)"
    if "avcodec_send_frame lib e d pts = (e1, 0)" and "yields lib e1 qs e2"
      and "encodes lib step e2 (pts + step) ds e' ps n"

lemma receive_packets_yields:
  "yields lib e ps e' \<Longrightarrow> receive_packets lib s e out =
     Some (s\<lparr>enc_codecCtx := Some e', pkt_allocs := pkt_allocs s + length ps + 1, pkt_frees := pkt_frees s + length ps\<rparr>, out @ ps)"
proof (induction ps arbitrary: s e out)
  case Nil
  then show ?case by (subst receive_packets.simps) auto
next
  case (Cons p ps)
  then obtain e1 where "avcodec_receive_packet lib e = (e1, 0, p)" "yields lib e1 ps e'" by auto
  then show ?case using Cons.IH by (subst receive_packets.simps) simp
qed

text \<open>
  An encoder for \<open>fps\<close> frames a second that has seen \<open>n\<close> frames and of which the codec took \<open>k\<close>.
\<close>

definition at_frame :: "nat \<Rightarrow> nat \<Rightarrow> nat \<Rightarrow> 'e \<Rightarrow> 'e encoder \<Rightarrow> bool" where
  "at_frame fps n k e s \<longleftrightarrow> enc_codecCtx s = Some e \<and> enc_frame s \<and> time_base s = (1, int fps)
     \<and> enc_count s = word_of_nat n \<and> pkt_allocs s = pkt_frees s + k
     \<and> sent_pts s = map (\<lambda>i. int (i * (1000 div fps))) [0..<n]"

lemma at_frame_pts:
  assumes "at_frame fps n k e s" and "0 < fps" and "n * (1000 div fps) < 2 ^ 32"
  shows "next_pts s = int (n * (1000 div fps))"
proof -
  have q: "1000 div int fps = int (1000 div fps)" by (simp add: zdiv_int)
  have "next_pts s = uint (word_of_nat n * word_of_int (int (1000 div fps)) :: u32)"
    using assms(1,2) by (simp add: next_pts_def at_frame_def q)
  also have "(word_of_nat n * word_of_int (int (1000 div fps)) :: u32) = word_of_nat (n * (1000 div fps))"
    unfolding of_int_of_nat_eq of_nat_mult ..
  finally show ?thesis
    using assms(3) by (simp only: uint_nat) (simp add: unsigned_of_nat take_bit_nat_eq_self del: of_nat_mult)
qed

lemma receiveData_refused:
  assumes "at_frame fps n k e s" and "0 < fps" and "n * (1000 div fps) < 2 ^ 32"
    and "avcodec_send_frame lib e d (int (n * (1000 div fps))) = (e1, ret)" and "ret \<noteq> 0"
  obtains s' where "receiveData lib d s = Some (Inr (s', []))" and "at_frame fps (Suc n) k e1 s'"
proof -
  let ?s' = "s\<lparr>enc_count := enc_count s + 1, sent_pts := sent_pts s @ [int (n * (1000 div fps))],
      enc_codecCtx := Some e1\<rparr>"
  have "receiveData lib d s = Some (Inr (?s', []))"
    using assms(1,2,4,5) by (simp add: receiveData_def at_frame_pts [OF assms(1-3)] Let_def at_frame_def)
  moreover have "at_frame fps (Suc n) k e1 ?s'" using assms(1) by (simp add: at_frame_def)
  ultimately show thesis by (rule that)
qed

lemma receiveData_taken:
  assumes "at_frame fps n k e s" and "0 < fps" and "n * (1000 div fps) < 2 ^ 32"
    and "avcodec_send_frame lib e d (int (n * (1000 div fps))) = (e1, 0)" and "yields lib e1 ps e2"
  obtains s' where "receiveData lib d s = Some (Inr (s', ps))" and "at_frame fps (Suc n) (Suc k) e2 s'"
proof -
  let ?s = "s\<lparr>enc_count := enc_count s + 1, sent_pts := sent_pts s @ [int (n * (1000 div fps))]\<rparr>"
  let ?s' = "?s\<lparr>enc_codecCtx := Some e2, pkt_allocs := pkt_allocs s + length ps + 1,
      pkt_frees := pkt_frees s + length ps\<rparr>"
  have "receiveData lib d s = Some (Inr (?s', ps))"
    using assms(1,2,4) receive_packets_yields [OF assms(5), of ?s "[]"]
    by (simp add: receiveData_def at_frame_pts [OF assms(1-3)] Let_def at_frame_def)
  moreover have "at_frame fps (Suc n) (Suc k) e2 ?s'" using assms(1) by (simp add: at_frame_def)
  ultimately show thesis by (rule that)
qed

lemma record_all_run:
  assumes "encodes lib (int (1000 div fps)) e pts ds e' ps m" and "0 < fps"
    and "at_frame fps n k e s" and "pts = int (n * (1000 div fps))"
    and "(n + length ds) * (1000 div fps) < 2 ^ 32"
  shows "\<exists>s'. record_all lib ds s = Some (Inr (s', ps)) \<and> at_frame fps (n + length ds) (k + m) e' s'"
  using assms
proof (induction arbitrary: n k s rule: encodes.induct)
  case (over e pts)
  then show ?case by auto
next
  case (refused e d pts e1 ret ds e' ps m)
  have b: "n * (1000 div fps) < 2 ^ 32"
    by (rule le_less_trans [OF _ refused.prems(4)]) (simp add: add_mult_distrib)
  obtain s1 where s1: "receiveData lib d s = Some (Inr (s1, []))" "at_frame fps (Suc n) k e1 s1"
    by (rule receiveData_refused [OF refused.prems(2,1) b refused.hyps(1) [unfolded refused.prems(3)] refused.hyps(2)])
  have "pts + int (1000 div fps) = int (Suc n * (1000 div fps))" using refused.prems(3) by simp
  from refused.IH [OF refused.prems(1) s1(2) this] refused.prems(4) s1(1) show ?case by auto
next
  case (taken e d pts e1 qs e2 ds e' ps m)
  have b: "n * (1000 div fps) < 2 ^ 32"
    by (rule le_less_trans [OF _ taken.prems(4)]) (simp add: add_mult_distrib)
  obtain s1 where s1: "receiveData lib d s = Some (Inr (s1, qs))" "at_frame fps (Suc n) (Suc k) e2 s1"
    by (rule receiveData_taken [OF taken.prems(2,1) b taken.hyps(1) [unfolded taken.prems(3)] taken.hyps(2)])
  have "pts + int (1000 div fps) = int (Suc n * (1000 div fps))" using taken.prems(3) by simp
  from taken.IH [OF taken.prems(1) s1(2) this] taken.prems(4) s1(1) show ?case by auto
qed

text \<open>C36: a recording hands the codec every frame, one after the other, with time stamps that are the
  multiples of the whole milliseconds between frames. A frame the codec refuses, for whatever reason, is
  skipped: it produces no packet and the next frame still gets its own time stamp. The packets of the
  frames the codec takes are written completely and in order, and exactly one packet is leaked for each of
  these frames, the one of the last attempt. All that is relied on is that the codec, asked for packets,
  sooner or later has none.\<close>

theorem recording_delivers:
  assumes "encodes lib (int (1000 div fps)) e 0 ds e' ps n"
    and "0 < fps" and "fps < 2 ^ 31" and "length ds * (1000 div fps) < 2 ^ 32"
  shows "\<exists>s'. record_all lib ds (new_Encoder True (Some e) True True width height (word_of_nat fps) fmt raw) =
        Some (Inr (s', ps))
    \<and> enc_codecCtx s' = Some e'
    \<and> sent_pts s' = map (\<lambda>i. int (i * (1000 div fps))) [0..<length ds]
    \<and> pkt_allocs s' = pkt_frees s' + n"
proof -
  have "sint (word_of_nat fps :: u32) = int fps"
    using assms(3) by (simp add: signed_of_nat signed_take_bit_int_eq_self)
  then have "at_frame fps 0 0 e (new_Encoder True (Some e) True True width height (word_of_nat fps) fmt raw)"
    by (simp add: at_frame_def new_Encoder_def Let_def)
  from record_all_run [OF assms(1,2) this] assms(4) show ?thesis by (auto simp: at_frame_def)
qed

text \<open>An encoder that makes one packet of a frame and refuses an empty one (\<open>AVERROR(EINVAL)\<close>).\<close>

definition demo_encoder :: "u8 list encoder_lib" where
  "demo_encoder = \<lparr>avcodec_send_frame = (\<lambda>e d pts. if d = [] then (e, - 22) else (d, 0)),
     avcodec_receive_packet = (\<lambda>e. if e = [] then ([], - 11, []) else ([], 0, e))\<rparr>"

lemma demo_encodes: "encodes demo_encoder 40 [] 0 [[1], [], [2, 3]] [] [[1], [2, 3]] 2"
proof -
  have y: "yields demo_encoder [1] [[1]] []" "yields demo_encoder [2, 3] [[2, 3]] []"
    by (auto simp: demo_encoder_def)
  have a: "encodes demo_encoder 40 [] (0 + 40 + 40) [[2, 3]] [] ([[2, 3]] @ []) (Suc 0)"
    by (rule encodes.taken [OF _ y(2) encodes.over]) (simp add: demo_encoder_def)
  have b: "encodes demo_encoder 40 [] (0 + 40) [[], [2, 3]] [] ([[2, 3]] @ []) (Suc 0)"
    by (rule encodes.refused [OF _ _ a, where ret = "- 22"]) (simp_all add: demo_encoder_def)
  have "encodes demo_encoder 40 [] 0 [[1], [], [2, 3]] [] ([[1]] @ [[2, 3]] @ []) (Suc (Suc 0))"
    by (rule encodes.taken [OF _ y(1) b]) (simp add: demo_encoder_def)
  then show ?thesis by (simp add: numeral_2_eq_2)
qed

theorem recording_delivers_witness:
  "\<forall>raw. \<exists>s'. record_all demo_encoder [[1], [], [2, 3]]
      (new_Encoder True (Some []) True True 2 2 25 AV_PIX_FMT_YUV420P raw) = Some (Inr (s', [[1], [2, 3]]))
    \<and> sent_pts s' = [0, 40, 80] \<and> pkt_allocs s' = pkt_frees s' + 2"
proof
  fix raw :: "u8 list encoder"
  from recording_delivers [of demo_encoder 25 "[]" "[[1], [], [2, 3]]" "[]" "[[1], [2, 3]]" 2 2 2
      AV_PIX_FMT_YUV420P raw] demo_encodes
  show "\<exists>s'. record_all demo_encoder [[1], [], [2, 3]]
      (new_Encoder True (Some []) True True 2 2 25 AV_PIX_FMT_YUV420P raw) = Some (Inr (s', [[1], [2, 3]]))
    \<and> sent_pts s' = [0, 40, 80] \<and> pkt_allocs s' = pkt_frees s' + 2"
    by (auto simp: upt_rec)
qed

text \<open>A stream that reports no frame rate stops the viewer with a division by zero at its first picture.\<close>

lemma no_frame_rate:
  "receiveData lib d (new_Encoder True (Some e) True True width height 0 fmt raw) = Some (Inl DivByZero)"
  by (simp add: receiveData_def new_Encoder_def Let_def)

end
