(* ===== verification/Grisu_Inverse.thy ===== *)
theory Grisu_Inverse
  imports Grisu_Text
begin

text \<open>
  The printed text determines the double: the intervals between midpoints do not overlap, and a
  decimal text has one value. So a \<open>strtod\<close> that rounds every result correctly exists.
\<close>

section \<open>The intervals around the doubles\<close>

lemma fraction_exponent:
  assumes "unat d < 2 ^ 63"
  shows "double_exponent d = unat d div 2 ^ 52" "double_fraction d = unat d mod 2 ^ 52"
proof -
  note parts = double_parts(3,5) [OF assms]
  show "double_exponent d = unat d div 2 ^ 52" "double_fraction d = unat d mod 2 ^ 52"
    unfolding parts(2) using parts(1) by simp_all
qed

lemma midpoint_order: "midpoint_below d < midpoint_above d"
proof -
  have p: "(0 :: real) < 2 powi x" for x by simp
  then have "0 < (if lower_closer d then 2 powi (exponent d - 2) else 2 powi (exponent d - 1) :: real)" by simp
  then show ?thesis using p [of "exponent d - 1"] unfolding midpoint_below_def midpoint_above_def by linarith
qed

text \<open>The next double in absolute value, in the same binade or as the first of the next one.\<close>

lemma next_double:
  assumes "unat s = Suc (unat d)" and "unat s < 2 ^ 63"
  shows "exponent s = exponent d \<and> significand s = Suc (significand d) \<and> \<not> lower_closer s \<or>
    exponent s = exponent d + 1 \<and> significand s = 2 ^ 52 \<and> significand d = 2 ^ 53 - 1 \<and> lower_closer s"
proof -
  have d: "unat d < 2 ^ 63" using assms by simp
  note e = fraction_exponent [OF d] fraction_exponent [OF assms(2), unfolded assms(1)]
  show ?thesis
  proof (cases "Suc (unat d mod 2 ^ 52) = 2 ^ 52")
    case False
    then have "Suc (unat d) div 2 ^ 52 = unat d div 2 ^ 52" "Suc (unat d) mod 2 ^ 52 = Suc (unat d mod 2 ^ 52)"
      by (simp_all add: div_Suc mod_Suc)
    then have "double_exponent s = double_exponent d" "double_fraction s = Suc (double_fraction d)" using e by simp_all
    then show ?thesis by (simp add: exponent_def significand_def lower_closer_def)
  next
    case True
    then have "Suc (unat d) div 2 ^ 52 = Suc (unat d div 2 ^ 52)" "Suc (unat d) mod 2 ^ 52 = 0" "unat d mod 2 ^ 52 = 2 ^ 52 - 1"
      by (simp_all add: div_Suc mod_Suc)
    then have "double_exponent s = Suc (double_exponent d)" "double_fraction s = 0" "double_fraction d = 2 ^ 52 - 1" using e by simp_all
    then show ?thesis by (simp add: exponent_def significand_def lower_closer_def)
  qed
qed

lemma midpoint_between:
  assumes "unat s = Suc (unat d)" and "unat s < 2 ^ 63"
  shows "midpoint_below s = midpoint_above d"
proof -
  define x where "x = exponent d - 1"
  have x: "exponent d = x + 1" by (simp add: x_def)
  have two: "(2 :: real) powi (y + 1) = 2 * 2 powi y" for y by (simp add: power_int_add)
  note defs = midpoint_below_def midpoint_above_def double_value_def
  from next_double [OF assms] show ?thesis
  proof (elim disjE conjE)
    assume "exponent s = exponent d" "significand s = Suc (significand d)" "\<not> lower_closer s"
    then show ?thesis using two [of x] by (simp add: defs x algebra_simps)
  next
    assume "exponent s = exponent d + 1" "significand s = 2 ^ 52" "significand d = 2 ^ 53 - 1" "lower_closer s"
    then show ?thesis using two [of x] two [of "x + 1"] by (simp add: defs x algebra_simps)
  qed
qed

lemma midpoints_apart:
  assumes "unat d < n" and "n < 2 ^ 63"
  shows "midpoint_above d \<le> midpoint_below (of_nat n)"
  using assms
proof (induction n)
  case (Suc n)
  define c s :: double where "c = of_nat n" and "s = of_nat (Suc n)"
  have c: "unat c = n" "unat s = Suc (unat c)" "unat s < 2 ^ 63"
    using Suc.prems(2) by (simp_all only: c_def s_def unsigned_of_nat) (simp_all add: take_bit_nat_eq_self)
  have step: "midpoint_below s = midpoint_above c" by (rule midpoint_between [OF c(2,3)])
  have "midpoint_above d \<le> midpoint_above c"
  proof (cases "unat d = n")
    case True
    then have "d = c" using c(1) by (simp add: word_unat_eq_iff)
    then show ?thesis by simp
  next
    case False
    then have "midpoint_above d \<le> midpoint_below c" using Suc by (simp add: c_def)
    then show ?thesis using midpoint_order [of c] by simp
  qed
  then show ?case unfolding step [symmetric] s_def .
qed simp

lemma nearest_bounds:
  assumes "nearest d v"
  shows "v < midpoint_above d" and "d \<noteq> 0 \<Longrightarrow> midpoint_below d < v"
  using assms by (auto simp: nearest_def midpoint_above_def double_value_def significand_def double_fraction_def double_exponent_def split: if_splits)

lemma nearest_unique:
  assumes "nearest d v" and "nearest d' v" and "unat d < 2 ^ 63" and "unat d' < 2 ^ 63"
  shows "d = d'"
proof -
  have apart: False if "nearest a v" "nearest b v" "unat a < unat b" "unat b < 2 ^ 63" for a b
  proof -
    have "midpoint_above a \<le> midpoint_below b" using midpoints_apart [OF that(3,4)] by simp
    moreover have "b \<noteq> 0" using that(3) by auto
    ultimately show False using nearest_bounds(1) [OF that(1)] nearest_bounds(2) [OF that(2)] by linarith
  qed
  then show ?thesis using assms by (metis linorder_neqE_nat word_unat_eq_iff)
qed

section \<open>The value of a text\<close>

definition no_digit :: "string \<Rightarrow> bool" where
  "no_digit t \<longleftrightarrow> t = [] \<or> \<not> digit (of_char (hd t))"

lemma digits_split:
  assumes "ds @ t = ds' @ t'" and "digits ds" and "digits ds'" and "no_digit t" and "no_digit t'"
  shows "ds = ds'" "t = t'"
proof -
  let ?p = "\<lambda>c. digit (of_char c)"
  have p: "takeWhile ?p (xs @ u) = xs" "dropWhile ?p (xs @ u) = u" if "digits xs" "no_digit u" for xs u
    using that by (cases u; simp add: digits_def no_digit_def takeWhile_append dropWhile_append)+
  show "ds = ds'" "t = t'" using p [OF assms(2,4)] p [OF assms(3,5)] unfolding assms(1) by simp_all
qed

lemma no_digit_Cons: "no_digit (c # t) \<longleftrightarrow> \<not> digit (of_char c)"
  by (simp add: no_digit_def)

lemma exponent_no_digit: "exponent_text ex e \<Longrightarrow> no_digit ex \<and> (ex \<noteq> [] \<longrightarrow> hd ex \<noteq> CHR ''.'')"
  by (auto simp: exponent_text_def no_digit_def digit_def)

lemma fraction_no_digit: "fraction_text fr fs \<Longrightarrow> no_digit ex \<Longrightarrow> no_digit (fr @ ex)"
  by (auto simp: fraction_text_def no_digit_def digit_def)

lemma exponent_unique:
  assumes "exponent_text ex e" and "exponent_text ex e'"
  shows "e = e'"
proof (cases ex)
  case Nil
  then show ?thesis using assms by (simp add: exponent_text_def)
next
  case (Cons c t)
  have sign: "\<not> digits (CHR ''+'' # ds)" "\<not> digits (CHR ''-'' # ds)" for ds by (simp_all add: digits_Cons digit_def)
  have form: "\<exists>ds. digits ds \<and> ds \<noteq> [] \<and> (t = ds \<and> x = int (decimal 0 ds) \<or> t = CHR ''+'' # ds \<and> x = int (decimal 0 ds) \<or>
      t = CHR ''-'' # ds \<and> x = - int (decimal 0 ds))" if "exponent_text ex x" for x
    using that unfolding exponent_text_def Cons by auto
  show ?thesis using form [OF assms(1)] form [OF assms(2)] sign by auto
qed

lemma fraction_unique:
  assumes "fr @ ex = fr' @ ex'" and "fraction_text fr fs" and "fraction_text fr' fs'" and "exponent_text ex e" and "exponent_text ex' e'"
  shows "fs = fs'" "ex = ex'"
proof -
  note nd = exponent_no_digit [OF assms(4)] exponent_no_digit [OF assms(5)]
  have "fs = fs' \<and> ex = ex'"
  proof (cases "fr = []")
    case True
    then have "fr' = []" using assms(1,3) nd by (auto simp: fraction_text_def)
    then show ?thesis using True assms(1-3) by (simp add: fraction_text_def)
  next
    case False
    then have "fr' \<noteq> []" using assms(1,2) nd by (auto simp: fraction_text_def)
    then have "fs @ ex = fs' @ ex'" "digits fs" "digits fs'" using False assms(1-3) by (auto simp: fraction_text_def)
    then show ?thesis using digits_split nd by blast
  qed
  then show "fs = fs'" "ex = ex'" by simp_all
qed

lemma parts_unique:
  assumes "ds @ fr @ ex = ds' @ fr' @ ex'" and "int_part ds" and "int_part ds'" and "fraction_text fr fs" and "fraction_text fr' fs'"
    and "exponent_text ex e" and "exponent_text ex' e'"
  shows "ds = ds' \<and> fs = fs' \<and> e = e'"
proof -
  have int: "digits ds" if "int_part ds" for ds using that by (auto simp: int_part_def digits_def digit_def)
  have "no_digit (fr @ ex)" "no_digit (fr' @ ex')" using fraction_no_digit exponent_no_digit assms(4-7) by blast+
  then have d: "ds = ds'" "fr @ ex = fr' @ ex'" using digits_split assms(1-3) int by metis+
  from fraction_unique [OF d(2) assms(4-7)] d(1) show ?thesis using exponent_unique assms(6,7) by blast
qed

lemma int_part_unsigned: "int_part ds \<Longrightarrow> ds \<noteq> [] \<and> hd ds \<noteq> CHR ''-''"
  by (auto simp: int_part_def digits_Cons digit_def neq_Nil_conv)

lemma decimal_text_unique:
  assumes "decimal_text t neg v" and "decimal_text t neg' v'"
  shows "neg = neg'" "v = v'"
proof -
  obtain ds fr fs ex e where t: "t = (if neg then ''-'' else []) @ ds @ fr @ ex" "int_part ds" "fraction_text fr fs" "exponent_text ex e"
    "v = real (decimal 0 (ds @ fs)) * 10 powi (e - int (length fs))" using assms(1) by (rule decimal_text.cases) auto
  obtain ds' fr' fs' ex' e' where t': "t = (if neg' then ''-'' else []) @ ds' @ fr' @ ex'" "int_part ds'" "fraction_text fr' fs'"
    "exponent_text ex' e'" "v' = real (decimal 0 (ds' @ fs')) * 10 powi (e' - int (length fs'))"
    using assms(2) by (rule decimal_text.cases) auto
  have "hd (ds @ fr @ ex) \<noteq> CHR ''-''" "hd (ds' @ fr' @ ex') \<noteq> CHR ''-''"
    using int_part_unsigned t(2) t'(2) by simp_all
  then show "neg = neg'" using t(1) t'(1) by (cases neg; cases neg') (auto dest: arg_cong [where f = hd])
  then have "ds @ fr @ ex = ds' @ fr' @ ex'" using t(1) t'(1) by simp
  from parts_unique [OF this t(2) t'(2) t(3) t'(3) t(4) t'(4)] show "v = v'" using t(5) t'(5) by simp
qed

section \<open>Printing is injective\<close>

lemma double_split:
  assumes "take_bit 63 d = take_bit 63 d'" and "bit d 63 = bit d' 63"
  shows "d = (d' :: double)"
proof (rule bit_word_eqI)
  fix n
  assume "n < LENGTH(64)"
  moreover have "bit (take_bit 63 d) n = bit (take_bit 63 d') n" using assms(1) by simp
  ultimately show "bit d n = bit d' n" using assms(2) by (cases "n = 63") (simp_all add: bit_take_bit_iff)
qed

lemma nearest_inject:
  assumes "decimal_text t (bit d 63) v" and "decimal_text t (bit d' 63) v'" and "nearest (take_bit 63 d) v" and "nearest (take_bit 63 d') v'"
  shows "d = d'"
proof -
  note u = decimal_text_unique [OF assms(1,2)]
  have "take_bit 63 d = take_bit 63 d'" using nearest_unique assms(3,4) u(2) sign_bit by blast
  then show ?thesis using u(1) by (rule double_split)
qed

text \<open>Some \<open>strtod\<close> rounds every text as it should.\<close>

lemma correct_strtod_exists: "\<exists>strtod. \<forall>d. rounds_correctly strtod d"
proof -
  let ?reads = "\<lambda>t d. \<exists>v. decimal_text t (bit d 63) v \<and> nearest (take_bit 63 d) v"
  have "(SOME d. ?reads t d) = d" if "?reads t d" for t d
    using that nearest_inject by (intro some_equality) blast+
  then show ?thesis unfolding rounds_correctly_def by (intro exI [of _ "\<lambda>t. SOME d. ?reads t d"]) blast
qed

lemma double_text_inject: "double_text d t \<Longrightarrow> double_text d' t \<Longrightarrow> d = d'"
  using double_text_decimal nearest_inject by metis

lemma to_chars_injective:
  assumes "isfinite d" and "isfinite d'" and "24 \<le> cap" and "24 \<le> cap'" and "to_chars cap d = to_chars cap' d'"
  shows "d = d'"
  using to_chars_result [OF assms(1,3)] to_chars_result [OF assms(2,4)] double_text_inject assms(5) by (metis sum.inject(2))

end
