(* ===== verification/Json_Strings.thy ===== *)
theory Json_Strings
  imports Json_Roundtrip
begin

text \<open>
  The byte sequences that the lexer and the decoder table of the serializer accept are exactly the
  well-formed UTF-8 of the standard; so printing a string fails on ill-formed text alone, and only
  with the strict error handler, and the buffer of 512 bytes holds on every byte sequence.
\<close>

section \<open>The ranges of the lexer are the encodings\<close>

lemma utf8_bytes_2: "2 \<le> p \<Longrightarrow> p < 32 \<Longrightarrow> q < 64 \<Longrightarrow> utf8_bytes (64 * p + q) = [0xC0 + p, 0x80 + q]"
  by (simp add: utf8_bytes_def mod_offset)

lemma utf8_bytes_3:
  assumes "32 \<le> 64 * p + q" and "p < 16" and "q < 64" and "r < 64"
  shows "utf8_bytes (4096 * p + 64 * q + r) = [0xE0 + p, 0x80 + q, 0x80 + r]"
proof -
  have n: "4096 * p + 64 * q + r = 64 * (64 * p + q) + r" by simp
  then have d: "(4096 * p + 64 * q + r) div 64 = 64 * p + q" "(4096 * p + 64 * q + r) mod 64 = r"
    using assms(4) by (simp_all only: n mod_offset) simp
  then have "(4096 * p + 64 * q + r) div 4096 = p" using assms(3) by (simp flip: div_cuts(1))
  moreover have "\<not> 4096 * p + 64 * q + r \<le> 0x7FF" "4096 * p + 64 * q + r \<le> 0xFFFF" using assms by linarith+
  ultimately show ?thesis using assms(3) d by (simp add: utf8_bytes_def mod_offset)
qed

lemma utf8_bytes_4:
  assumes "16 \<le> 64 * p + q" and "p < 5" and "q < 64" and "r < 64" and "s < 64"
  shows "utf8_bytes (262144 * p + 4096 * q + 64 * r + s) = [0xF0 + p, 0x80 + q, 0x80 + r, 0x80 + s]"
proof -
  let ?n = "262144 * p + 4096 * q + 64 * r + s"
  have n: "?n = 64 * (64 * (64 * p + q) + r) + s" by simp
  then have d: "?n div 64 = 64 * (64 * p + q) + r" "?n mod 64 = s" using assms(5) by (simp_all only: n mod_offset) simp
  then have d2: "?n div 4096 = 64 * p + q" using assms(4) by (simp flip: div_cuts(1))
  then have "?n div 262144 = p" using assms(3) by (simp flip: div_cuts(2))
  moreover have "?n div 64 mod 64 = r" using assms(4) by (simp only: d mod_offset)
  moreover have "\<not> ?n \<le> 0xFFFF" using assms by linarith
  ultimately show ?thesis using assms(3) d(2) d2 by (simp add: utf8_bytes_def mod_offset)
qed

lemma in_ranges_simps [simp]:
  "in_ranges bs [] \<longleftrightarrow> bs = []"
  "in_ranges bs ((lo, hi) # rs) \<longleftrightarrow> (\<exists>b bs'. bs = b # bs' \<and> lo \<le> int b \<and> int b \<le> hi \<and> in_ranges bs' rs)"
  by (auto simp: in_ranges_def list_all2_Cons2)

lemma ranges_utf8:
  assumes "continuation_ranges (int b) = Some rs" and "in_ranges bs rs"
  shows "\<exists>n. scalar n \<and> utf8_bytes n = b # bs"
proof -
  consider (two) c where "0xC2 \<le> b" "b \<le> 0xDF" "bs = [c]" "0x80 \<le> c" "c \<le> 0xBF"
    | (three) c d where "0xE0 \<le> b" "b \<le> 0xEF" "bs = [c, d]" "0x80 \<le> c" "c \<le> 0xBF" "0x80 \<le> d" "d \<le> 0xBF"
        "b = 0xE0 \<Longrightarrow> 0xA0 \<le> c" "b = 0xED \<Longrightarrow> c \<le> 0x9F"
    | (four) c d e where "0xF0 \<le> b" "b \<le> 0xF4" "bs = [c, d, e]" "0x80 \<le> c" "c \<le> 0xBF" "0x80 \<le> d" "d \<le> 0xBF"
        "0x80 \<le> e" "e \<le> 0xBF" "b = 0xF0 \<Longrightarrow> 0x90 \<le> c" "b = 0xF4 \<Longrightarrow> c \<le> 0x8F"
    using assms by (auto simp: continuation_ranges_def split: if_splits)
  then show ?thesis
  proof cases
    case two
    define p q where "p = b - 0xC0" and "q = c - 0x80"
    then have "b = 0xC0 + p" "c = 0x80 + q" "2 \<le> p" "p < 32" "q < 64" using two by simp_all
    then show ?thesis using two(3) utf8_bytes_2 [of p q] by (intro exI [of _ "64 * p + q"]) (simp add: scalar_def)
  next
    case three
    define p q r where "p = b - 0xE0" and "q = c - 0x80" and "r = d - 0x80"
    then have e: "b = 0xE0 + p" "c = 0x80 + q" "d = 0x80 + r" "p < 16" "q < 64" "r < 64" using three by simp_all
    have q: "p = 0 \<Longrightarrow> 32 \<le> q" "p = 13 \<Longrightarrow> q < 32" using e three(8,9) by simp_all
    consider "p = 0" | "1 \<le> p" "p < 13" | "p = 13" | "13 < p" by linarith
    then have "scalar (4096 * p + 64 * q + r) \<and> 32 \<le> 64 * p + q"
      by cases (use q e(4-6) in \<open>simp_all add: scalar_def\<close>)
    then show ?thesis using three(3) e utf8_bytes_3 [of p q r] by (intro exI [of _ "4096 * p + 64 * q + r"]) simp
  next
    case four
    define p q r s where "p = b - 0xF0" and "q = c - 0x80" and "r = d - 0x80" and "s = e - 0x80"
    then have e: "b = 0xF0 + p" "c = 0x80 + q" "d = 0x80 + r" "e = 0x80 + s" "p < 5" "q < 64" "r < 64" "s < 64"
      using four by simp_all
    have q: "p = 0 \<Longrightarrow> 16 \<le> q" "p = 4 \<Longrightarrow> q < 16" using e four(10,11) by simp_all
    consider "p = 0" | "1 \<le> p" "p < 4" | "p = 4" using e(5) by linarith
    then have "scalar (262144 * p + 4096 * q + 64 * r + s) \<and> 16 \<le> 64 * p + q"
      by cases (use q e(5-8) in \<open>simp_all add: scalar_def\<close>)
    then show ?thesis using four(3) e utf8_bytes_4 [of p q r s]
      by (intro exI [of _ "262144 * p + 4096 * q + 64 * r + s"]) simp
  qed
qed

lemma utf8_text_empty [simp]: "utf8_text []"
  unfolding utf8_text_def by (rule exI [of _ "[]"]) simp

lemma utf8_text_utf8: "scalar n \<Longrightarrow> utf8_text (utf8 n)"
  unfolding utf8_text_def by (rule exI [of _ "[n]"]) simp

lemma utf8_text_append: "utf8_text s \<Longrightarrow> utf8_text t \<Longrightarrow> utf8_text (s @ t)"
  unfolding utf8_text_def by (elim exE conjE, rule_tac x = "ns @ nsa" in exI) auto

section \<open>The decoder table\<close>

text \<open>The bytes a state waits for; nothing after a byte that is not expected.\<close>

abbreviation cont :: "int \<times> int" where "cont \<equiv> (0x80, 0xBF)"

definition awaits :: "nat \<Rightarrow> (int \<times> int) list option" where
  "awaits st = map_of [(0, []), (2, [cont]), (3, [cont, cont]), (4, [(0xA0, 0xBF), cont]), (5, [(0x80, 0x9F), cont]),
     (6, [(0x90, 0xBF), cont, cont]), (7, [cont, cont, cont]), (8, [(0x80, 0x8F), cont, cont])] st"

lemma awaits_simps [simp]:
  "awaits 0 = Some []" "awaits 1 = None" "awaits (Suc 0) = None" "awaits 2 = Some [cont]" "awaits 3 = Some [cont, cont]"
  "awaits 4 = Some [(0xA0, 0xBF), cont]" "awaits 5 = Some [(0x80, 0x9F), cont]"
  "awaits 6 = Some [(0x90, 0xBF), cont, cont]" "awaits 7 = Some [cont, cont, cont]"
  "awaits 8 = Some [(0x80, 0x8F), cont, cont]"
  by (simp_all add: awaits_def)

lemma byte_cases:
  assumes "b < 256"
  obtains "b \<le> 0x7F" | "0x80 \<le> b" "b \<le> 0x8F" | "0x90 \<le> b" "b \<le> 0x9F" | "0xA0 \<le> b" "b \<le> 0xBF"
    | "0xC0 \<le> b" "b \<le> 0xC1" | "0xC2 \<le> b" "b \<le> 0xDF" | "b = 0xE0" | "0xE1 \<le> b" "b \<le> 0xEC" | "b = 0xED"
    | "0xEE \<le> b" "b \<le> 0xEF" | "b = 0xF0" | "0xF1 \<le> b" "b \<le> 0xF3" | "b = 0xF4" | "0xF5 \<le> b" "b \<le> (0xFF :: nat)"
proof -
  consider "b \<le> 0xBF" | "0xC0 \<le> b" "b \<le> 0xE0" | "0xE1 \<le> b" "b \<le> 0xEF" | "0xF0 \<le> b" by linarith
  then show thesis
  proof cases
    case 1
    then consider "b \<le> 0x7F" | "0x80 \<le> b" "b \<le> 0x8F" | "0x90 \<le> b" "b \<le> 0x9F" | "0xA0 \<le> b" by linarith
    then show thesis using 1 that(1-4) by cases
  next
    case 2
    then consider "b \<le> 0xC1" | "0xC2 \<le> b" "b \<le> 0xDF" | "b = 0xE0" by linarith
    then show thesis using 2 that(5-7) by cases
  next
    case 3
    then consider "b \<le> 0xEC" | "b = 0xED" | "0xEE \<le> b" by linarith
    then show thesis using 3 that(8-10) by cases
  next
    case 4
    then consider "b = 0xF0" | "0xF1 \<le> b" "b \<le> 0xF3" | "b = 0xF4" | "0xF5 \<le> b" by linarith
    then show thesis using 4 assms that(11-14) by cases auto
  qed
qed

lemma wrong_classes:
  "0xC0 \<le> b \<Longrightarrow> b \<le> 0xC1 \<Longrightarrow> byte_class b = 8" "0xF5 \<le> b \<Longrightarrow> b \<le> 0xFF \<Longrightarrow> byte_class b = 8"
  by (simp_all add: byte_class_def utf8d_def nth_append less_diff_conv2 nth_Cons')

lemma states_rejected:
  "next_state 0 1 = 1" "next_state 0 (Suc 0) = 1" "next_state 0 7 = 1" "next_state 0 8 = 1" "next_state 0 9 = 1"
  by (simp_all add: next_state_def utf8d_def nth_append)

lemma awaits_first:
  assumes "b < 256"
  shows "awaits (next_state 0 (byte_class b)) = (if b \<le> 0x7F then Some [] else continuation_ranges (int b))"
  using assms
  by (rule byte_cases) (auto simp: byte_classes lead_classes wrong_classes states_rejected continuation_ranges_def)

lemma continuing_rejected:
  "list_all (\<lambda>st. list_all (\<lambda>ty. next_state st ty = 1) [0, 2, 3, 4, 5, 6, 8, 10, 11]) [2, 3, 4, 5, 6, 7, 8]"
  "next_state 4 1 = 1" "next_state 4 9 = 1" "next_state 5 7 = 1" "next_state 6 1 = 1" "next_state 8 7 = 1" "next_state 8 9 = 1"
  by (simp_all add: next_state_def utf8d_def nth_append)

lemmas rejected = continuing_rejected [unfolded list.pred_inject conj_assoc]

lemma awaits_states:
  assumes "awaits st = Some ((lo, hi) # rs)"
  shows "st \<in> {2, 3, 4, 5, 6, 7, 8}"
proof -
  have "awaits n = None" if "n \<notin> {0, 2, 3, 4, 5, 6, 7, 8}" for n using that by (simp add: awaits_def)
  then have "st \<in> {0, 2, 3, 4, 5, 6, 7, 8}" using assms option.distinct(1) by metis
  moreover have "st \<noteq> 0" using assms by (rule contrapos_pn) simp
  ultimately show ?thesis by simp
qed

lemma awaits_next:
  assumes "awaits st = Some ((lo, hi) # rs)" and "b < 256"
  shows "awaits (next_state st (byte_class b)) = (if lo \<le> int b \<and> int b \<le> hi then Some rs else None)"
proof -
  note classes = byte_classes lead_classes wrong_classes rejected
  have st: "st = 2 \<or> st = 3 \<or> st = 4 \<or> st = 5 \<or> st = 6 \<or> st = 7 \<or> st = 8" using awaits_states [OF assms(1)] by simp
  show ?thesis using assms(2)
  proof (cases rule: byte_cases)
    case 1 then show ?thesis using st assms(1) by (elim disjE) (simp_all add: classes del: One_nat_def)
  next
    case 2 then show ?thesis using st assms(1) by (elim disjE) (simp_all add: classes del: One_nat_def)
  next
    case 3 then show ?thesis using st assms(1) by (elim disjE) (simp_all add: classes del: One_nat_def)
  next
    case 4 then show ?thesis using st assms(1) by (elim disjE) (simp_all add: classes del: One_nat_def)
  next
    case 5 then show ?thesis using st assms(1) by (elim disjE) (simp_all add: classes del: One_nat_def)
  qed (use st assms(1) in \<open>elim disjE; auto simp: classes simp del: One_nat_def; fail\<close>)+
qed

lemma next_state_bound:
  assumes "st \<le> 8" and "b < 256"
  shows "next_state st (byte_class b) \<le> 8"
proof -
  have "byte_class b \<le> 11"
    using assms(2) by (rule byte_cases) (simp_all add: byte_classes lead_classes wrong_classes)
  then have i: "16 * st + byte_class b < 144" using assms(1) by linarith
  have d: "length (drop 256 utf8d) = 144" "list_all (\<lambda>x. x \<le> 8) (drop 256 utf8d)"
    by (simp_all add: utf8d_def)
  have "drop 256 utf8d ! (16 * st + byte_class b) \<in> set (drop 256 utf8d)" using i d(1) by (metis nth_mem)
  then have "drop 256 utf8d ! (16 * st + byte_class b) \<le> 8" using d(2) by (simp only: list_all_iff)
  moreover have "256 \<le> length utf8d" by (simp add: utf8d_def)
  ultimately show ?thesis by (simp add: next_state_def ac_simps)
qed

lemma awaits_None: "st \<le> 8 \<Longrightarrow> awaits st = None \<longleftrightarrow> st = 1"
  unfolding awaits_def by (simp add: numeral_eq_Suc le_Suc_eq) (elim disjE; simp)

lemma awaits_Nil: "awaits st = Some [] \<longleftrightarrow> st = 0"
  unfolding awaits_def by simp

lemma awaits_le: "awaits st = Some rs \<Longrightarrow> st \<le> 8"
  by (cases rs) (auto simp: awaits_Nil dest: awaits_states)

text \<open>Going on until the end, which has to be the end of a code point.\<close>

fun accepts :: "nat \<Rightarrow> nat list \<Rightarrow> bool" where
  "accepts st [] \<longleftrightarrow> st = 0"
| "accepts st (b # bs) \<longleftrightarrow> next_state st (byte_class b) \<noteq> 1 \<and> accepts (next_state st (byte_class b)) bs"

lemma accepts_awaits:
  assumes "awaits st = Some rs" and "\<forall>b \<in> set bs. b < 256" and "accepts st bs"
  shows "\<exists>us vs. bs = us @ vs \<and> in_ranges us rs \<and> accepts 0 vs"
  using assms
proof (induction rs arbitrary: st bs)
  case Nil
  then show ?case by (simp add: awaits_Nil)
next
  case (Cons r rs)
  obtain lo hi where r: "r = (lo, hi)" by (cases r)
  have "st \<noteq> 0" using Cons.prems(1) by (rule contrapos_pn) simp
  then obtain b bs' where bs: "bs = b # bs'" using Cons.prems(3) by (cases bs) auto
  let ?st = "next_state st (byte_class b)"
  have "awaits ?st \<noteq> None"
    using Cons.prems bs awaits_None [OF next_state_bound [OF awaits_le]] by simp
  then have "awaits ?st = Some rs" "lo \<le> int b" "int b \<le> hi"
    using awaits_next [of st lo hi rs b] Cons.prems bs r by (auto split: if_splits)
  then obtain us vs where "bs' = us @ vs" "in_ranges us rs" "accepts 0 vs"
    using Cons.IH [of ?st bs'] Cons.prems(2,3) bs by auto
  then show ?case using bs r \<open>lo \<le> int b\<close> \<open>int b \<le> hi\<close> by (intro exI [of _ "b # us"] exI [of _ vs]) simp
qed

lemma accepts_utf8:
  assumes "accepts 0 (map of_char s)"
  shows "utf8_text s"
  using assms
proof (induction "length s" arbitrary: s rule: less_induct)
  case less
  show ?case
  proof (cases s)
    case (Cons c cs)
    define b :: nat where "b = of_char c"
    let ?st = "next_state 0 (byte_class b)"
    have b: "b < 256" and c: "c = char_of b" by (simp_all add: b_def)
    have a: "accepts ?st (map of_char cs)" "?st \<noteq> 1" using less.prems Cons by (simp_all add: b_def)
    have "awaits ?st \<noteq> None" using awaits_None [OF next_state_bound [OF _ b]] a(2) by simp
    then obtain rs where rs: "awaits ?st = Some rs" by auto
    obtain us vs where s: "map of_char cs = us @ vs" "in_ranges us rs" "accepts 0 vs"
      using accepts_awaits [OF rs _ a(1)] by auto
    have "\<exists>n. scalar n \<and> utf8_bytes n = b # us"
    proof (cases "b \<le> 0x7F")
      case True
      then have "us = []" using rs s(2) awaits_first [OF b] by simp
      then show ?thesis using True by (intro exI [of _ b]) (simp add: scalar_def utf8_bytes_def)
    next
      case False
      then show ?thesis using rs s(2) awaits_first [OF b] ranges_utf8 by simp
    qed
    then obtain n where n: "scalar n" "utf8_bytes n = b # us" by blast
    obtain cs1 cs2 where cs: "cs = cs1 @ cs2" "us = map of_char cs1" "vs = map of_char cs2"
      using s(1) by (auto simp: map_eq_append_conv)
    have "utf8 n = c # cs1" using n(2) cs(2) c by (simp add: utf8_def comp_def)
    moreover have "utf8_text cs2" using less.hyps [of cs2] s(3) cs Cons by simp
    ultimately show ?thesis using utf8_text_append [OF utf8_text_utf8 [OF n(1)]] Cons cs(1) by fastforce
  qed simp
qed

section \<open>Escaping arbitrary bytes\<close>

text \<open>What holds before every byte: the state waits for bytes, at most three have been copied since the
  last complete code point, and up to there the buffer has room for the longest escape.\<close>

definition steady :: "bool \<Rightarrow> escaping \<Rightarrow> bool" where
  "steady ascii e \<longleftrightarrow> (\<exists>rs. awaits (utf8_state e) = Some rs \<and> (rs = [] \<longrightarrow> undumped_chars e = 0) \<and>
     undumped_chars e + length rs \<le> 4) \<and>
   length (string_buffer e) = after_accept e + (if ascii then 0 else undumped_chars e) \<and> after_accept e \<le> 499"

lemma decode_state: "fst (decode st cp b) = next_state st (byte_class b)"
  by (simp add: decode_def next_state_def byte_class_def Let_def)

lemma accept_codepoint_fits:
  assumes "length (string_buffer e) + (if ascii then 13 else 7) \<le> 512"
  shows "\<exists>t. accept_codepoint ascii c e = Inr (e\<lparr>string_buffer := string_buffer e @ t\<rparr>) \<and>
    length (string_buffer e) + length t \<le> 512"
proof -
  have u: "length (u_escape n) = 6" for n by (simp add: u_escape_def hex4_def)
  have p: "\<exists>t. buffer_put w n e = Inr (e\<lparr>string_buffer := string_buffer e @ t\<rparr>) \<and> length (string_buffer e) + length t \<le> 512"
    if "length (string_buffer e) + length w + n \<le> 512" for w n
    using that by (intro exI [of _ w]) (simp add: buffer_put_def)
  have b: "codepoint e \<le> 0x1F \<Longrightarrow> codepoint e \<le> 0xFFFF" by (simp add: word_le_nat_alt)
  show ?thesis unfolding accept_codepoint_def Let_def
    using assms b by (auto intro!: p simp: u split: if_splits)
qed

lemma steadyE:
  assumes "steady ascii e"
  obtains rs where "awaits (utf8_state e) = Some rs" "rs = [] \<longrightarrow> undumped_chars e = 0" "undumped_chars e + length rs \<le> 4"
    "length (string_buffer e) = after_accept e + (if ascii then 0 else undumped_chars e)" "after_accept e \<le> 499"
  using assms unfolding steady_def by (elim conjE exE) (rule that)

lemma steady_undumped:
  assumes "steady ascii e"
  shows "undumped_chars e \<le> 3"
proof -
  from assms obtain rs where
    "awaits (utf8_state e) = Some rs" and r: "rs = [] \<longrightarrow> undumped_chars e = 0" "undumped_chars e + length rs \<le> 4"
    and "length (string_buffer e) = after_accept e + (if ascii then 0 else undumped_chars e)" "after_accept e \<le> 499"
    by (rule steadyE)
  from r show ?thesis by (cases rs) simp_all
qed

lemma accept_byte_steady:
  assumes "steady ascii e"
  shows "\<exists>e'. accept_byte ascii c (e\<lparr>utf8_state := 0, codepoint := cp\<rparr>) = Inr e' \<and> steady ascii e' \<and> utf8_state e' = 0"
proof -
  let ?e = "e\<lparr>utf8_state := 0, codepoint := cp\<rparr>"
  have "undumped_chars e \<le> 3"
    by (rule steady_undumped [OF assms])
  then have "length (string_buffer ?e) + (if ascii then 13 else 7) \<le> 512" using assms by (auto simp: steady_def)
  then obtain t where "accept_codepoint ascii c ?e = Inr (?e\<lparr>string_buffer := string_buffer ?e @ t\<rparr>)"
    using accept_codepoint_fits by blast
  then show ?thesis by (auto simp: accept_byte_def Let_def flush_full_def steady_def)
qed

lemma reject_byte_steady:
  assumes "steady ascii e" and "h \<noteq> Strict"
  shows "\<exists>e'. reject_byte h ascii (e\<lparr>utf8_state := 1, codepoint := cp\<rparr>) = Inr e' \<and> steady ascii e'"
  using assms
  by (auto simp: reject_byte_def Let_def buffer_put_def flush_full_def steady_def replacement_def)

lemma incomplete_byte_steady:
  assumes "steady ascii e" and "awaits (next_state (utf8_state e) (byte_class b)) = Some rs" and "rs \<noteq> []" and "b < 256"
  shows "\<exists>e'. incomplete_byte ascii c (e\<lparr>utf8_state := next_state (utf8_state e) (byte_class b), codepoint := cp\<rparr>) = Inr e' \<and>
    steady ascii e' \<and> utf8_state e' = next_state (utf8_state e) (byte_class b)"
proof -
  from assms(1) obtain rs0 where rs0: "awaits (utf8_state e) = Some rs0" "rs0 = [] \<longrightarrow> undumped_chars e = 0"
      "undumped_chars e + length rs0 \<le> 4"
    and *: "length (string_buffer e) = after_accept e + (if ascii then 0 else undumped_chars e)" "after_accept e \<le> 499"
    by (rule steadyE)
  have "undumped_chars e + 1 + length rs \<le> 4"
  proof (cases rs0)
    case Nil
    then have st: "utf8_state e = 0" using rs0(1) awaits_Nil by simp
    then have "continuation_ranges (int b) = Some rs" using assms(2-4) awaits_first [OF assms(4)] by (simp split: if_splits)
    then show ?thesis using Nil rs0(2) by (auto simp: continuation_ranges_def split: if_splits)
  next
    case (Cons r rs1)
    obtain lo hi where "r = (lo, hi)" by (cases r)
    then have "rs1 = rs" using awaits_next [of "utf8_state e" lo hi rs1 b] assms(2,4) rs0(1) Cons by (simp split: if_splits)
    then show ?thesis using rs0(3) Cons by simp
  qed
  with * show ?thesis using assms(2,3) by (auto simp: incomplete_byte_def buffer_put_def steady_def)
qed

text \<open>The loop: it can only fail with the strict handler, on bytes that are not UTF-8.\<close>

lemma dump_escaped_loop_result:
  assumes "steady ascii e"
  shows "case dump_escaped_loop h ascii cs e of
      Inl er \<Rightarrow> er = TypeError \<and> h = Strict \<and> \<not> accepts (utf8_state e) (map of_char cs)
    | Inr e' \<Rightarrow> h = Strict \<longrightarrow> utf8_state e' = 0 \<longleftrightarrow> accepts (utf8_state e) (map of_char cs)"
  using assms
proof (induction h ascii cs e rule: dump_escaped_loop.induct)
  case (2 h ascii c cs e)
  define b :: nat where "b = of_char c"
  have b: "b < 256" by (simp add: b_def)
  define st where "st = next_state (utf8_state e) (byte_class b)"
  obtain cp where d: "decode (utf8_state e) (codepoint e) b = (st, cp)"
    using decode_state [of "utf8_state e" "codepoint e" b] by (cases "decode (utf8_state e) (codepoint e) b") (simp add: st_def)
  note d' = d [unfolded b_def, symmetric]
  have "utf8_state e \<le> 8" using 2(4) awaits_le by (rule steadyE)
  then have aw: "st \<noteq> 1 \<Longrightarrow> awaits st \<noteq> None" using awaits_None [OF next_state_bound [OF _ b]] by (simp add: st_def)
  have ac: "accepts (utf8_state e) (map of_char (c # cs)) \<longleftrightarrow> st \<noteq> 1 \<and> accepts st (map of_char cs)"
    by (simp add: st_def b_def)
  consider "st = 0" | "st = 1" | "st \<noteq> 0" "st \<noteq> 1" by blast
  then show ?case
  proof cases
    case 1
    obtain e' where e': "accept_byte ascii c (e\<lparr>utf8_state := st, codepoint := cp\<rparr>) = Inr e'" "steady ascii e'" "utf8_state e' = 0"
      using accept_byte_steady [OF 2(4)] 1 by blast
    then have "dump_escaped_loop h ascii (c # cs) e = dump_escaped_loop h ascii cs e'" using d 1 by (simp add: b_def)
    then show ?thesis using 2(1) [OF d' refl 1 e'(1)] e'(2,3) ac 1 by (simp split: sum.splits)
  next
    case st: 2
    show ?thesis
    proof (cases "h = Strict")
      case True
      then have "dump_escaped_loop h ascii (c # cs) e = Inl TypeError" using d st by (simp add: b_def reject_byte_def Let_def)
      then show ?thesis using True ac st by simp
    next
      case False
      obtain e' where e': "reject_byte h ascii (e\<lparr>utf8_state := st, codepoint := cp\<rparr>) = Inr e'" "steady ascii e'"
        using reject_byte_steady [OF 2(4) False] st by blast
      define r where "r = dump_escaped_loop h ascii (if 0 < undumped_chars e then c # cs else cs) e'"
      have "dump_escaped_loop h ascii (c # cs) e = r" using d st e'(1) by (simp add: b_def r_def)
      moreover have "case r of Inl er \<Rightarrow> False | Inr e' \<Rightarrow> True"
        using 2(2) [OF d' refl _ st, of e'] e' st False unfolding r_def
        by (cases "0 < undumped_chars e") (auto split: sum.splits simp del: dump_escaped_loop.simps)
      ultimately show ?thesis using False by (cases r) simp_all
    qed
  next
    case st: 3
    obtain rs where rs: "awaits st = Some rs" using aw [OF st(2)] by (cases "awaits st") simp_all
    then have "rs \<noteq> []" using awaits_Nil [of st] st(1) by (cases rs) simp_all
    then obtain e' where e': "incomplete_byte ascii c (e\<lparr>utf8_state := st, codepoint := cp\<rparr>) = Inr e'" "steady ascii e'" "utf8_state e' = st"
      using incomplete_byte_steady [OF 2(4) rs [unfolded st_def] _ b] unfolding st_def by blast
    then have "dump_escaped_loop h ascii (c # cs) e = dump_escaped_loop h ascii cs e'" using d st by (simp add: b_def)
    then show ?thesis using 2(3) [OF d' refl st e'(1,2)] e'(3) ac st by (simp split: sum.splits)
  qed
qed simp

lemma dump_escaped_result:
  "case dump_escaped h s ascii of
      Inl er \<Rightarrow> er = TypeError \<and> h = Strict \<and> \<not> accepts 0 (map of_char s)
    | Inr t \<Rightarrow> h = Strict \<longrightarrow> accepts 0 (map of_char s)"
proof -
  have "steady ascii new_escaping" "utf8_state new_escaping = 0" by (simp_all add: steady_def new_escaping_def)
  then show ?thesis using dump_escaped_loop_result [of ascii new_escaping h s]
    by (cases h) (auto simp: dump_escaped_def split: sum.splits)
qed

text \<open>So the decoder table decides whether a text is UTF-8.\<close>

definition utf8_ok :: "string \<Rightarrow> bool" where
  "utf8_ok s \<longleftrightarrow> accepts 0 (map of_char s)"

lemma utf8_ok_text: "utf8_ok s \<longleftrightarrow> utf8_text s"
proof
  show "utf8_text s" if "utf8_ok s" using that accepts_utf8 by (simp add: utf8_ok_def)
  show "utf8_ok s" if t: "utf8_text s"
  proof -
    obtain t where "dump_escaped Strict s False = Inr t" using dump_escaped_body [OF t] by blast
    then show ?thesis using dump_escaped_result [of Strict s False] by (simp add: utf8_ok_def)
  qed
qed

text \<open>Printing a string fails on ill-formed UTF-8 with the strict handler, and never otherwise.\<close>

lemma dump_escaped_fails:
  "dump_escaped h s ascii = Inl er \<longleftrightarrow> er = TypeError \<and> h = Strict \<and> \<not> utf8_text s"
  using dump_escaped_result [of h s ascii]
  by (cases "dump_escaped h s ascii") (auto simp flip: utf8_ok_text simp: utf8_ok_def)

end
