(* ===== verification/Json_Types.thy ===== *)
theory Json_Types
  imports Json_Strings
begin

text \<open>
  What \<open>json::parse\<close> can return: values whose strings and keys are UTF-8, whose objects are
  ordered maps, whose doubles are finite and whose signed integers are not positive.
\<close>

section \<open>Strings of the lexer\<close>

lemma char_of_int: "0 \<le> c \<Longrightarrow> char_of c = char_of (nat c)"
  using char_of_nat [of "nat c", where 'a = int] by simp

lemma codepoint_loop_result:
  assumes "codepoint_loop fs c s = (c', s')" and "0 \<le> c"
  shows "token_buffer s' = token_buffer s \<and> (c' = -1 \<or> c \<le> c' \<and> c' \<le> c + sum_list (map (\<lambda>f. 15 * 2 ^ f) fs))"
  using assms
proof (induction fs c s rule: codepoint_loop.induct)
  case (2 f fs c s)
  let ?c = "current (get s)"
  have d: "0 \<le> push_bit f d" "push_bit f d \<le> 15 * 2 ^ f" if "0 \<le> d" "d \<le> (15 :: int)" for d
    using that mult_right_mono [of d 15 "2 ^ f"] by (simp_all add: push_bit_eq_mult)
  have step: ?case
    if "token_buffer s' = token_buffer (get s) \<and> (c' = -1 \<or> c + push_bit f (?c - k) \<le> c' \<and>
        c' \<le> c + push_bit f (?c - k) + sum_list (map (\<lambda>f. 15 * 2 ^ f) fs))" "0 \<le> ?c - k" "?c - k \<le> 15" for k
  proof -
    have "c' = -1 \<or> c \<le> c' \<and> c' \<le> c + (15 * 2 ^ f + sum_list (map (\<lambda>f. 15 * 2 ^ f) fs))"
      using that(1) d [OF that(2,3)] by linarith
    then show ?thesis using that(1) by simp
  qed
  consider "0x30 \<le> ?c \<and> ?c \<le> 0x39" | "\<not> (0x30 \<le> ?c \<and> ?c \<le> 0x39)" "0x41 \<le> ?c \<and> ?c \<le> 0x46"
    | "\<not> (0x30 \<le> ?c \<and> ?c \<le> 0x39)" "\<not> (0x41 \<le> ?c \<and> ?c \<le> 0x46)" "0x61 \<le> ?c \<and> ?c \<le> 0x66"
    | "\<not> (0x30 \<le> ?c \<and> ?c \<le> 0x39)" "\<not> (0x41 \<le> ?c \<and> ?c \<le> 0x46)" "\<not> (0x61 \<le> ?c \<and> ?c \<le> 0x66)" by blast
  then show ?case
  proof cases
    case 1
    then show ?thesis using step [of "0x30"] "2.IH"(1) [OF refl refl 1] "2.prems" 1 by (simp add: Let_def)
  next
    case 2
    then show ?thesis using step [of "0x37"] "2.IH"(2) [OF refl refl 2] "2.prems" 2 by (simp add: Let_def)
  next
    case 3
    then show ?thesis using step [of "0x57"] "2.IH"(3) [OF refl refl 3] "2.prems" 3 by (simp add: Let_def)
  next
    case 4
    then show ?thesis using "2.prems" by (auto simp: Let_def)
  qed
qed auto

lemma get_codepoint_result:
  assumes "get_codepoint s = (c, s')"
  shows "token_buffer s' = token_buffer s" and "c = -1 \<or> 0 \<le> c \<and> c \<le> 0xFFFF"
  using codepoint_loop_result [of "[12, 8, 4, 0]" 0 s c s'] assms by (auto simp: get_codepoint_def)

text \<open>More text that is UTF-8.\<close>

definition more_text :: "lexer \<Rightarrow> lexer \<Rightarrow> bool" where
  "more_text s s' \<longleftrightarrow> (\<exists>u. utf8_text u \<and> token_buffer s' = token_buffer s @ u)"

lemma more_textD: "more_text s s' \<Longrightarrow> utf8_text (token_buffer s) \<Longrightarrow> utf8_text (token_buffer s')"
  using utf8_text_append by (auto simp: more_text_def)

lemma more_ascii: "0 \<le> c \<Longrightarrow> c \<le> 0x7F \<Longrightarrow> token_buffer s' = token_buffer s \<Longrightarrow> more_text s (add c s')"
proof -
  assume c: "0 \<le> c" "c \<le> 0x7F" "token_buffer s' = token_buffer s"
  then have "scalar (nat c)" by (simp add: scalar_def nat_less_iff)
  moreover have "utf8 (nat c) = [char_of c]" using c by (simp add: utf8_def utf8_bytes_def nat_le_iff char_of_int)
  ultimately show "more_text s (add c s')" using utf8_text_utf8 [of "nat c"] c(3) by (auto simp: more_text_def)
qed

lemma more_codepoint:
  assumes "0 \<le> c" and "scalar (nat c)" and "token_buffer s' = token_buffer s"
  shows "more_text s (add_codepoint c s')"
proof -
  have "nat c \<le> 0x10FFFF" using assms(2) by (auto simp: scalar_def)
  then have "add_codepoint c s' = s'\<lparr>token_buffer := token_buffer s @ utf8 (nat c)\<rparr>"
    using add_codepoint_utf8 [of "nat c" s'] assms(1,3) by simp
  then show ?thesis using utf8_text_utf8 [OF assms(2)] by (auto simp: more_text_def)
qed

lemma scan_surrogate_text:
  assumes "scan_surrogate c s = (True, s')" and "0 \<le> c" and "c \<le> 0xFFFF"
  shows "more_text s s'"
proof (cases "0xD800 \<le> c \<and> c \<le> 0xDBFF")
  case True
  let ?s = "get (get s)"
  obtain c2 s2 where g: "get_codepoint ?s = (c2, s2)" by (cases "get_codepoint ?s")
  have c2: "0xDC00 \<le> c2" "c2 \<le> 0xDFFF" "s' = add_codepoint (push_bit 10 c + c2 - 0x35FDC00) s2"
    using assms(1) True g by (auto simp: scan_surrogate_def Let_def scan_error_def split: if_splits)
  let ?n = "push_bit 10 c + c2 - 0x35FDC00"
  have "0x10000 \<le> ?n" "?n \<le> 0x10FFFF" using True c2 by (simp_all add: push_bit_eq_mult)
  then have "0 \<le> ?n" "scalar (nat ?n)" unfolding scalar_def by linarith+
  then show ?thesis using more_codepoint get_codepoint_result(1) [OF g] c2(3) by simp
next
  case False
  then have "s' = add_codepoint c s" "\<not> (0xDC00 \<le> c \<and> c \<le> 0xDFFF)"
    using assms(1) by (auto simp: scan_surrogate_def scan_error_def split: if_splits)
  moreover from this False assms(2,3) have "scalar (nat c)" unfolding scalar_def by linarith
  ultimately show ?thesis using more_codepoint assms(2) by simp
qed

lemma scan_escape_text:
  assumes "scan_escape s = (True, s')"
  shows "more_text s s'"
proof (cases "current (get s) = 0x75")
  case True
  obtain c s1 where g: "get_codepoint (get s) = (c, s1)" by (cases "get_codepoint (get s)")
  then have "c \<noteq> -1" "scan_surrogate c s1 = (True, s')"
    using assms True by (auto simp: scan_escape_def scan_unicode_escape_def scan_error_def Let_def split: if_splits)
  then show ?thesis using scan_surrogate_text [of c s1 s'] get_codepoint_result [OF g] by (auto simp: more_text_def)
next
  case False
  then show ?thesis using assms
    by (auto simp: scan_escape_def scan_error_def Let_def split: if_splits intro: more_ascii)
qed

lemma range_loop_text:
  assumes "range_loop rs s = (True, s')" and "\<And>lo hi. (lo, hi) \<in> set rs \<Longrightarrow> 0 \<le> lo"
  shows "\<exists>bs. in_ranges bs rs \<and> token_buffer s' = token_buffer s @ map char_of bs"
  using assms
proof (induction rs s rule: range_loop.induct)
  case (2 lo hi rs s)
  let ?s = "add (current (get s)) (get s)"
  have c: "lo \<le> current (get s)" "current (get s) \<le> hi" "range_loop rs ?s = (True, s')" "0 \<le> lo"
    using "2.prems" by (auto simp: Let_def scan_error_def split: if_splits)
  then obtain bs where "in_ranges bs rs" "token_buffer s' = token_buffer ?s @ map char_of bs"
    using "2.IH" [OF refl] "2.prems"(2) by force
  then show ?case using c by (intro exI [of _ "nat (current (get s)) # bs"]) (simp add: char_of_int)
qed simp

lemma next_bytes_text:
  assumes "next_byte_in_range rs s = (True, s')" and "continuation_ranges (current s) = Some rs"
  shows "more_text s s'"
proof -
  define b where "b = nat (current s)"
  have c: "0 \<le> current s" using assms(2) by (auto simp: continuation_ranges_def split: if_splits)
  then have b: "current s = int b" by (simp add: b_def)
  have "0 \<le> lo" if "(lo, hi) \<in> set rs" for lo hi
    using assms(2) that by (auto simp: continuation_ranges_def split: if_splits)
  then obtain bs where bs: "in_ranges bs rs" "token_buffer s' = token_buffer s @ map char_of (b # bs)"
    using range_loop_text [of rs "add (current s) s" s'] assms(1) by (fastforce simp: next_byte_in_range_def b)
  obtain n where "scalar n" "utf8_bytes n = b # bs" using ranges_utf8 assms(2) bs(1) b by metis
  then show ?thesis using utf8_text_utf8 [of n] bs(2) by (auto simp: more_text_def utf8_def)
qed

lemma scan_chars_text:
  assumes "scan_chars s = (Value_String, s')" and "utf8_text (token_buffer s)"
  shows "utf8_text (token_buffer s')"
  using assms
proof (induction s rule: scan_chars.induct)
  case (1 s)
  let ?s = "get s"
  let ?c = "current ?s"
  obtain ok s1 where esc: "scan_escape ?s = (ok, s1)" by (cases "scan_escape ?s")
  have t: "utf8_text (token_buffer ?s)" using 1(5) by simp
  have step: "?thesis" if "more_text ?s s1" "utf8_text (token_buffer s1) \<Longrightarrow> utf8_text (token_buffer s')" for s1
    using that more_textD t by blast
  consider "?c = -1" | "?c = 0x22" | (esc) "?c \<noteq> -1" "?c \<noteq> 0x22" "?c = 0x5C"
    | "?c \<noteq> -1" "?c \<noteq> 0x22" "?c \<noteq> 0x5C" "?c \<le> 0x1F"
    | (ascii) "?c \<noteq> -1" "?c \<noteq> 0x22" "?c \<noteq> 0x5C" "\<not> ?c \<le> 0x1F" "?c \<le> 0x7F"
    | (lead) "?c \<noteq> -1" "?c \<noteq> 0x22" "?c \<noteq> 0x5C" "\<not> ?c \<le> 0x1F" "\<not> ?c \<le> 0x7F" by linarith
  then show ?case
  proof cases
    case esc': esc
    then have "ok" "scan_chars s1 = (Value_String, s')"
      using 1(4) esc by (subst (asm) scan_chars.simps, auto simp: Let_def split: if_splits)+
    then show ?thesis using step [of s1] scan_escape_text [of ?s s1] 1(1) [OF refl refl esc' esc [symmetric]] esc by simp
  next
    case ascii
    then have "scan_chars (add ?c ?s) = (Value_String, s')"
      using 1(4) by (subst (asm) scan_chars.simps) (simp add: Let_def)
    then show ?thesis using step [OF more_ascii [of ?c ?s ?s]] 1(2) [OF refl refl ascii] ascii by simp
  next
    case lead
    then obtain rs s1 where l: "continuation_ranges ?c = Some rs" "next_byte_in_range rs ?s = (True, s1)" "scan_chars s1 = (Value_String, s')"
      using 1(4) by (subst (asm) scan_chars.simps) (auto simp: Let_def token_error_def split: option.splits prod.splits if_splits)
    then show ?thesis
      using step [OF next_bytes_text [OF l(2,1)]] 1(3) [OF refl refl lead l(1) l(2) [symmetric]] by simp
  qed (use 1(4,5) in \<open>(subst (asm) scan_chars.simps, auto simp: Let_def token_error_def)+\<close>)
qed

section \<open>Numbers of the lexer\<close>

text \<open>A number token; a signed integer has a minus sign.\<close>

definition number_token :: "token_type \<times> lexer \<Rightarrow> bool" where
  "number_token r \<longleftrightarrow> fst r \<in> {Value_Float, Value_Unsigned, Parse_Error}
     \<or> fst r = Value_Integer \<and> sint (value_integer (snd r)) \<le> 0"

definition signed :: "token_type \<Rightarrow> lexer \<Rightarrow> bool" where
  "signed ty s \<longleftrightarrow> ty = Value_Integer \<longrightarrow> (\<exists>ds. token_buffer s = CHR ''-'' # ds)"

lemma signed_simps [simp]:
  "signed Value_Float s" "signed Value_Unsigned s" "signed ty (get s) = signed ty s" "signed ty (unget s) = signed ty s"
  by (simp_all add: signed_def)

lemma signed_add [simp]: "signed ty s \<Longrightarrow> signed ty (add c s)"
  by (auto simp: signed_def)

lemma number_token_error [simp]: "number_token (token_error m s)"
  by (simp add: number_token_def token_error_def)

lemma number_token_float [simp]: "number_token (number_float strtod s)"
  by (simp add: number_token_def number_float_def)

lemma strtoll_negative: "strtoll (CHR ''-'' # ds) = Some x \<Longrightarrow> sint x \<le> 0"
proof -
  assume "strtoll (CHR ''-'' # ds) = Some x"
  then obtain k where k: "x = word_of_int k" "- (2 ^ 63) \<le> k" "k \<le> 0"
    by (intro that [of "- int (decimal 0 ds)"]) (auto simp: strtoll_def Let_def split: if_splits)
  then have "sint x = k" unfolding k(1) by (simp add: signed_of_int signed_take_bit_int_eq_self)
  then show "sint x \<le> 0" using k(3) by simp
qed

lemma number_token_done [simp]:
  assumes "signed ty s"
  shows "number_token (scan_number_done strtod ty s)"
proof (cases "ty = Value_Integer")
  case True
  then obtain ds where "token_buffer s = CHR ''-'' # ds" using assms by (auto simp: signed_def)
  then show ?thesis using strtoll_negative [of ds] True
    by (auto simp: scan_number_done_def Let_def number_token_def number_float_def split: option.split)
next
  case False
  then show ?thesis by (auto simp: scan_number_done_def Let_def number_token_def number_float_def split: option.split)
qed

lemma number_token_any2 [simp]: "number_token (scan_number_any2 strtod s)"
proof (induction strtod s rule: scan_number_any2.induct)
  case (1 strtod s)
  then show ?case by (subst scan_number_any2.simps) (simp add: Let_def)
qed

lemma number_token_exponent [simp]: "number_token (scan_number_exponent strtod s)"
  by (simp add: scan_number_exponent_def scan_number_sign_def Let_def)

lemma number_token_decimal2 [simp]: "number_token (scan_number_decimal2 strtod s)"
proof (induction strtod s rule: scan_number_decimal2.induct)
  case (1 strtod s)
  then show ?case by (subst scan_number_decimal2.simps) (simp add: Let_def)
qed

lemma number_token_decimal1 [simp]: "number_token (scan_number_decimal1 strtod s)"
  by (simp add: scan_number_decimal1_def Let_def)

lemma number_token_any1 [simp]: "signed ty s \<Longrightarrow> number_token (scan_number_any1 strtod ty s)"
proof (induction strtod ty s rule: scan_number_any1.induct)
  case (1 strtod ty s)
  then show ?case by (subst scan_number_any1.simps) (simp add: Let_def)
qed

lemma number_token_zero [simp]: "signed ty s \<Longrightarrow> number_token (scan_number_zero strtod ty s)"
  by (simp add: scan_number_zero_def Let_def)

lemma number_token_number: "number_token (scan_number strtod s)"
proof -
  have "signed Value_Integer (add c (get (add 0x2D (reset s))))" for c
    by (simp add: signed_def reset_def char_of_def bit_numeral_rec)
  then show ?thesis by (simp add: scan_number_def scan_number_minus_def Let_def)
qed

section \<open>Tokens\<close>

lemma scan_literal_token: "fst (scan_literal cs ty s) \<in> {ty, Parse_Error}"
  by (induction cs ty s rule: scan_literal.induct) (auto simp: Let_def token_error_def)

lemma scan_chars_token: "fst (scan_chars s) \<in> {Value_String, Parse_Error}"
proof (induction s rule: scan_chars.induct)
  case (1 s)
  note IH = 1(1) [OF refl refl _ _ _ prod.collapse] 1(2) [OF refl refl] 1(3) [OF refl refl _ _ _ _ _ _ prod.collapse]
  show ?case
    using IH by (subst scan_chars.simps) (simp add: Let_def case_prod_beta token_error_def split: option.split)
qed

lemma scan_token_value:
  assumes "scan_token strtod s = (t, s')"
  shows "t = Value_String \<Longrightarrow> utf8_text (token_buffer s')" and "t = Value_Integer \<Longrightarrow> sint (value_integer s') \<le> 0"
proof -
  have l: "scan_literal cs ty s = (t, s') \<Longrightarrow> t = ty \<or> t = Parse_Error" for cs ty
    using scan_literal_token [of cs ty s] by auto
  have n: "scan_number strtod s = (t, s') \<Longrightarrow> number_token (t, s')" using number_token_number by metis
  have c: "scan_string s = (Value_String, s') \<Longrightarrow> utf8_text (token_buffer s')"
    using scan_chars_text [of "reset s" s'] by (simp add: scan_string_def reset_def)
  have i: "scan_string s = (t, s') \<Longrightarrow> t \<noteq> Value_Integer" using scan_chars_token [of "reset s"] by (auto simp: scan_string_def)
  show "t = Value_String \<Longrightarrow> utf8_text (token_buffer s')"
    using assms l n c by (auto simp: scan_token_def Let_def token_error_def number_token_def split: if_splits)
  show "t = Value_Integer \<Longrightarrow> sint (value_integer s') \<le> 0"
    using assms l n i by (auto simp: scan_token_def Let_def token_error_def number_token_def split: if_splits)
qed

section \<open>Well-formed values\<close>

fun well_formed :: "json \<Rightarrow> bool" where
  "well_formed (J_Object ms) \<longleftrightarrow> key_order ms \<and> list_all (\<lambda>(k, x). utf8_ok k \<and> well_formed x) ms"
| "well_formed (J_Array xs) \<longleftrightarrow> list_all well_formed xs"
| "well_formed (J_String s) \<longleftrightarrow> utf8_ok s"
| "well_formed (J_Integer n) \<longleftrightarrow> sint n \<le> 0"
| "well_formed (J_Float d) \<longleftrightarrow> isfinite d"
| "well_formed (J_Binary bs st) \<longleftrightarrow> False"
| "well_formed J_Discarded \<longleftrightarrow> False"
| "well_formed j \<longleftrightarrow> True"

lemma map_change_keys: "map fst (map_change k f es) = map fst es"
  by (induction k f es rule: map_change.induct) auto

lemma map_change_all:
  "list_all (\<lambda>(k, x). P k \<and> Q x) es \<Longrightarrow> (\<And>x. Q x \<Longrightarrow> Q (f x)) \<Longrightarrow> list_all (\<lambda>(k, x). P k \<and> Q x) (map_change k f es)"
  by (induction k f es rule: map_change.induct) auto

lemma well_formed_change:
  "well_formed j \<Longrightarrow> (\<And>j. well_formed j \<Longrightarrow> well_formed (f j)) \<Longrightarrow> well_formed (change_at p f j)"
proof (induction p f j rule: change_at.induct)
  case (2 i p f xs)
  then show ?case by (cases "i < length xs") (auto simp: list_all_length nth_list_update)
next
  case (3 k p f ms)
  then show ?case using map_change_all [of utf8_ok well_formed ms "change_at p f" k]
    by (auto simp: key_order_def map_change_keys)
qed auto

lemma well_formed_at: "well_formed j \<Longrightarrow> at_path p j = Some x \<Longrightarrow> well_formed x"
proof (induction p j rule: at_path.induct)
  case (3 k p ms)
  then obtain y where "map_of ms k = Some y" "at_path p y = Some x" by (auto split: option.splits)
  then show ?case using 3 by (auto simp: list_all_iff dest!: map_of_SomeD)
qed (auto simp: list_all_length split: if_splits)

lemma handle_value_well_formed:
  assumes "well_formed v" and "well_formed (root d)"
  shows "well_formed (root (snd (handle_value v d)))"
proof -
  have w: "well_formed (root (snd (write_at p v' d)))" if "well_formed v'" for p v'
    using well_formed_change [OF assms(2)] that by (simp add: write_at_def)
  have "well_formed (J_Array (xs @ [v]))" if "at_path p (root d) = Some (J_Array xs)" for p xs
    using well_formed_at [OF assms(2) that] assms(1) by simp
  then show ?thesis using assms w by (auto simp: handle_value_def split: list.split option.split json.split)
qed

lemma map_put_all: "list_all P es \<Longrightarrow> P (k, v) \<Longrightarrow> list_all P (map_put k v es)"
  by (induction k v es rule: map_put.induct) auto

lemma builder_well_formed:
  assumes "well_formed (root d)"
  shows "well_formed (root (start_object d))" "well_formed (root (start_array d))" "well_formed (root (end_container d))"
    and "utf8_text k \<Longrightarrow> well_formed (root (key k d))"
proof -
  have "well_formed (J_Object [])" "well_formed (J_Array [])" by (simp_all add: key_order_def)
  then show "well_formed (root (start_object d))" "well_formed (root (start_array d))" "well_formed (root (end_container d))"
    using handle_value_well_formed [OF _ assms] assms
    by (simp_all add: start_object_def start_array_def start_container_def end_container_def split_beta)
  show "well_formed (root (key k d))" if "utf8_text k"
    using that unfolding key_def Let_def
    by (auto intro!: well_formed_change [OF assms] map_put_all key_order_map_put simp: map_emplace_def utf8_ok_text split: json.split)
qed

section \<open>The parser keeps the tree well-formed\<close>

definition typed_token :: "parser \<Rightarrow> bool" where
  "typed_token p \<longleftrightarrow> (last_token p = Value_String \<longrightarrow> utf8_text (token_buffer (m_lexer p)))
     \<and> (last_token p = Value_Integer \<longrightarrow> sint (value_integer (m_lexer p)) \<le> 0)"

lemma typed_get_token: "typed_token (get_token strtod p)"
proof -
  obtain t l where s: "scan strtod (m_lexer p) = (t, l)" by (cases "scan strtod (m_lexer p)")
  have "t = Parse_Error \<or> (\<exists>s. scan_token strtod s = (t, l))"
    using s by (auto simp: scan_def token_error_def split: prod.splits if_splits)
  then show ?thesis using scan_token_value s by (auto simp: typed_token_def get_token_def)
qed

text \<open>Without an error the tree is well-formed; with exceptions an error does not return.\<close>

definition builder_ok :: "bool \<Rightarrow> dom_parser \<Rightarrow> bool" where
  "builder_ok allow d \<longleftrightarrow> well_formed (root d) \<and> allow_exceptions d = allow \<and> \<not> errored d"

definition result_ok :: "bool \<Rightarrow> sax_result \<Rightarrow> bool" where
  "result_ok allow r \<longleftrightarrow> (case r of Inl ex \<Rightarrow> allow
     | Inr (_, p, d) \<Rightarrow> allow_exceptions d = allow \<and> (if errored d then \<not> allow else well_formed (root d)))"

definition flow_ok :: "bool \<Rightarrow> ('a \<Rightarrow> bool) \<Rightarrow> 'a flow \<Rightarrow> bool" where
  "flow_ok allow P r \<longleftrightarrow> (case r of Return s \<Rightarrow> result_ok allow s | Go_On x \<Rightarrow> P x)"

definition state_ok :: "bool \<Rightarrow> loop_state \<Rightarrow> bool" where
  "state_ok allow = (\<lambda>(states, p, d). typed_token p \<and> builder_ok allow d)"

lemma flow_ok_simps [simp]: "flow_ok allow P (Return s) = result_ok allow s" "flow_ok allow P (Go_On x) = P x"
  by (simp_all add: flow_ok_def)

lemma result_ok_error [simp]: "builder_ok allow d \<Longrightarrow> result_ok allow (sax_error ex p d)"
  "builder_ok allow d \<Longrightarrow> result_ok allow (syntax_error t ctx p d)"
  by (simp_all add: syntax_error_def sax_error_def result_ok_def builder_ok_def Let_def)

lemma builder_ok_steps:
  assumes "builder_ok allow d"
  shows "builder_ok allow (start_object d)" "builder_ok allow (start_array d)" "builder_ok allow (end_container d)"
    and "utf8_text k \<Longrightarrow> builder_ok allow (key k d)"
    and "well_formed v \<Longrightarrow> builder_ok allow (snd (handle_value v d))"
proof -
  have h: "allow_exceptions (snd (handle_value v d)) = allow_exceptions d" "errored (snd (handle_value v d)) = errored d" for v
    by (simp_all add: handle_value_def write_at_def split: list.split option.split json.split)
  show "builder_ok allow (start_object d)" "builder_ok allow (start_array d)" "builder_ok allow (end_container d)"
    "utf8_text k \<Longrightarrow> builder_ok allow (key k d)" "well_formed v \<Longrightarrow> builder_ok allow (snd (handle_value v d))"
    using assms builder_well_formed [of d] handle_value_well_formed h
    by (auto simp: builder_ok_def start_object_def start_array_def start_container_def end_container_def key_def Let_def split_beta)
qed

lemma parse_member_ok: "state_ok allow (states, p, d) \<Longrightarrow> flow_ok allow (state_ok allow) (parse_member strtod (states, p, d))"
  by (auto simp: parse_member_def Let_def state_ok_def typed_get_token builder_ok_steps typed_token_def [of p])

definition value_ok :: "bool \<Rightarrow> loop_state + parser \<times> dom_parser \<Rightarrow> bool" where
  "value_ok allow r \<longleftrightarrow> (case r of Inl s \<Rightarrow> state_ok allow s | Inr (p, d) \<Rightarrow> builder_ok allow d)"

lemma parse_begin_object_ok:
  assumes "state_ok allow (states, p, d)"
  shows "flow_ok allow (value_ok allow) (parse_begin_object strtod (states, p, d))"
proof -
  let ?s = "(False # states, get_token strtod p, start_object d)"
  have "state_ok allow ?s" using assms by (simp add: state_ok_def typed_get_token builder_ok_steps)
  note m = parse_member_ok [OF this, of strtod]
  have "builder_ok allow d" using assms by (simp add: state_ok_def)
  then show ?thesis using m
    by (cases "parse_member strtod ?s") (auto simp: parse_begin_object_def Let_def value_ok_def builder_ok_steps)
qed

lemma parse_begin_array_ok: "state_ok allow (states, p, d) \<Longrightarrow> flow_ok allow (value_ok allow) (parse_begin_array strtod (states, p, d))"
  by (simp add: parse_begin_array_def Let_def value_ok_def state_ok_def builder_ok_steps typed_get_token)

lemma parse_value_ok:
  assumes "state_ok allow (states, p, d)"
  shows "flow_ok allow (value_ok allow) (parse_value strtod (states, p, d))"
proof -
  have "well_formed v" if "token_value p = Some v" "\<not> (last_token p = Value_Float \<and> \<not> isfinite (value_float (m_lexer p)))" for v
    using that assms by (auto simp: token_value_def state_ok_def typed_token_def utf8_ok_text split: token_type.splits)
  then show ?thesis using assms parse_begin_object_ok parse_begin_array_ok
    by (auto simp: parse_value_def value_ok_def state_ok_def builder_ok_steps split: option.split)
qed

lemma parse_rest_ok:
  assumes "builder_ok allow d"
  shows "flow_ok allow (state_ok allow \<circ> snd) (parse_rest strtod (states, p, d))"
proof (cases states)
  case Nil
  then show ?thesis using assms by (simp add: parse_rest_def result_ok_def builder_ok_def)
next
  case (Cons is_array outer)
  let ?s = "(states, get_token strtod (get_token strtod p), d)"
  have s: "state_ok allow ?s" using assms by (simp add: state_ok_def typed_get_token)
  show ?thesis
  proof (cases "last_token (get_token strtod p) = Value_Separator")
    case True
    then show ?thesis using Cons s parse_member_ok [OF s, of strtod]
      by (cases "parse_member strtod ?s") (auto simp: parse_rest_def Let_def)
  next
    case False
    then show ?thesis using Cons assms
      by (auto simp: parse_rest_def Let_def state_ok_def typed_get_token builder_ok_steps)
  qed
qed

lemma parse_step_ok:
  assumes "state_ok allow (states, p, d)"
  shows "flow_ok allow (state_ok allow \<circ> snd) (parse_step strtod (skip, states, p, d))"
proof (cases skip)
  case True
  then show ?thesis using assms parse_rest_ok by (simp add: parse_step_def state_ok_def)
next
  case False
  then show ?thesis using parse_value_ok [OF assms, of strtod] parse_rest_ok
    by (cases "parse_value strtod (states, p, d)") (auto simp: parse_step_def value_ok_def split: sum.splits)
qed

lemma sax_parse_ok: "state_ok allow (snd s) \<Longrightarrow> result_ok allow (sax_parse_internal strtod s)"
proof (induction strtod s rule: sax_parse_internal.induct)
  case (1 strtod s)
  obtain skip states p d where s: "s = (skip, states, p, d)" by (cases s)
  then have "flow_ok allow (state_ok allow \<circ> snd) (parse_step strtod s)" using parse_step_ok 1(2) by simp
  then show ?case using 1(1) by (subst sax_parse_internal.simps) (auto split: flow.split)
qed

text \<open>Without exceptions a text that is not JSON gives the discarded value.\<close>

lemma parse_well_formed:
  "case basic_json_parse strtod t allow comments of
      Inl ex \<Rightarrow> allow
    | Inr j \<Rightarrow> if allow then well_formed j else well_formed j \<or> j = J_Discarded"
proof -
  let ?p = "new_parser strtod t comments"
  let ?r = "sax_parse_internal strtod (False, [], ?p, new_dom_parser allow)"
  have "state_ok allow ([], ?p, new_dom_parser allow)"
    by (simp add: state_ok_def new_parser_def typed_get_token new_dom_parser_def builder_ok_def)
  then have "result_ok allow ?r" using sax_parse_ok [of allow "(False, [], ?p, new_dom_parser allow)"] by simp
  then show ?thesis
    by (auto simp: basic_json_parse_def parser_parse_def result_ok_def syntax_error_def sax_error_def Let_def split: sum.splits if_splits)
qed

end
