(* ===== verification/Json_Failures.thy ===== *)
theory Json_Failures
  imports Json_Strings
begin

text \<open>
  When \<open>dump\<close> fails: on a string or key that is not UTF-8, with the strict error handler, and on
  nothing else. Numbers of every kind have a text.
\<close>

fun utf8_strings :: "json \<Rightarrow> bool" where
  "utf8_strings (J_String s) = utf8_text s"
| "utf8_strings (J_Array xs) = (\<forall>x \<in> set xs. utf8_strings x)"
| "utf8_strings (J_Object ms) = (\<forall>(k, x) \<in> set ms. utf8_text k \<and> utf8_strings x)"
| "utf8_strings _ = True"

section \<open>What has a text always\<close>

lemma integer_printed: "\<exists>t. dump_integer sg x = Inr t"
proof (cases "sg \<and> sint x < 0")
  case False
  then have "dump_integer sg x = dump_integer False x" by (cases sg) (simp_all add: dump_integer_def Let_def)
  then show ?thesis using dump_integer_text(1) by simp
qed (use dump_integer_text(2) in auto)

lemma bytes_printed: "\<exists>t. dump_bytes sep bs = Inr t"
proof (induction sep bs rule: dump_bytes.induct)
  case (3 sep b c bs)
  obtain u where u: "dump_bytes sep (c # bs) = Inr u" using 3 integer_printed [of False "ucast b"] by blast
  obtain t where "dump_integer False (ucast b) = Inr t" using integer_printed by blast
  then show ?case using u by simp
qed (simp_all add: integer_printed)

lemma subtype_printed: "\<exists>t. dump_subtype st = Inr t"
  using integer_printed by (cases st) (simp_all add: dump_subtype_def)

lemma float_printed: "\<exists>t. dump_float d = Inr t"
proof (cases "isfinite d")
  case True
  then show ?thesis using to_chars_result [of d 64 "\<exists>t. dump_float d = Inr t"] by (simp add: dump_float_def)
qed (simp add: dump_float_def)

lemma number_printed: "dump_integer sg x \<noteq> Inl er" "dump_float d \<noteq> Inl er"
  using integer_printed [of sg x] float_printed [of d] by auto

section \<open>Values\<close>

definition encoding_error :: "dump_options \<Rightarrow> fault \<Rightarrow> bool \<Rightarrow> bool" where
  "encoding_error opt er bad \<longleftrightarrow> er = TypeError \<and> on_error opt = Strict \<and> bad"

lemma dump_key_fails:
  "dump_key opt k = Inl er \<longleftrightarrow> encoding_error opt er (\<not> utf8_text k)"
  using dump_escaped_fails [of "on_error opt" k "ensure_ascii opt"]
  by (cases "dump_escaped (on_error opt) k (ensure_ascii opt)") (auto simp: dump_key_def encoding_error_def)

lemma then_text_fails: "then_text m t = Inl er \<longleftrightarrow> m = Inl er \<or> (\<exists>r. m = Inr r) \<and> t = Inl er"
  by (cases m; cases t) (auto simp: then_text_def)

lemma then_text_ok: "(\<exists>r. then_text m t = Inr r) \<longleftrightarrow> (\<exists>r. m = Inr r) \<and> (\<exists>r. t = Inr r)"
  by (cases m; cases t) (auto simp: then_text_def)

lemma compact_binary:
  assumes "\<not> pretty_print opt"
  shows "\<exists>r. dump_binary opt n bs st ind = Inr r"
  using bytes_printed [of "'',''" bs] subtype_printed [of st] assms
  by (auto simp: dump_binary_def Let_def then_text_def)

lemma value_then:
  "rbind m (\<lambda>(txt, ind). rbind (f ind) (\<lambda>(t, ind). Inr (txt @ t, ind))) = Inl er \<longleftrightarrow>
     m = Inl er \<or> (\<exists>txt ind. m = Inr (txt, ind) \<and> f ind = Inl er)" for f :: "string \<Rightarrow> printed"
  by (cases m) (auto simp: rbind_Inl_iff split: prod.splits)

lemma not_failed: "(\<exists>r. m = Inr r) \<longleftrightarrow> (\<forall>er. m \<noteq> Inl er)" for m :: "'a result"
  by (cases m) auto

lemma after_fails: "after_element opt l m = Inl er \<longleftrightarrow> m = Inl er"
  by (cases m) (auto simp: after_element_def then_text_def)

text \<open>Compact printing leaves the indentation alone, so the failures of the parts are the failures of the whole.\<close>

lemma compact_fails:
  assumes "\<not> pretty_print opt"
  shows "dump_value opt n j ind = Inl er \<longleftrightarrow> encoding_error opt er (\<not> utf8_strings j)"
    and "dump_elements opt n xs m = Inl er \<longleftrightarrow>
      m = Inl er \<or> (\<exists>r. m = Inr r) \<and> encoding_error opt er (\<exists>x \<in> set xs. \<not> utf8_strings x)"
    and "dump_members opt n ms m = Inl er \<longleftrightarrow>
      m = Inl er \<or> (\<exists>r. m = Inr r) \<and> encoding_error opt er (\<exists>(k, x) \<in> set ms. \<not> (utf8_text k \<and> utf8_strings x))"
  using assms
proof (induction opt n j ind and opt n xs m and opt n ms m arbitrary: er and er and er rule: dump_value_dump_elements_dump_members.induct)
  case (1 opt n ms ind)
  then show ?case
    by (auto simp: close_container_def open_container_def then_text_fails encoding_error_def Let_def)
next
  case (2 opt n xs ind)
  then show ?case
    by (auto simp: close_container_def open_container_def then_text_fails encoding_error_def Let_def)
next
  case (3 opt n s ind)
  then show ?case using dump_escaped_fails [of "on_error opt" s "ensure_ascii opt"]
    by (auto simp: rbind_Inl_iff encoding_error_def)
next
  case (4 opt n bs st ind)
  then show ?case using compact_binary [of opt n bs st ind] by (auto simp: encoding_error_def)
next
  case (12 opt n x xs m)
  let ?m = "rbind m (\<lambda>(txt, ind). rbind (dump_value opt n x ind) (\<lambda>(t, ind). Inr (txt @ t, ind)))"
  have before: "before_element opt n m = m" using 12(3) by (simp add: before_element_def)
  have x: "?m = Inl er \<longleftrightarrow> m = Inl er \<or> (\<exists>txt ind. m = Inr (txt, ind)) \<and> encoding_error opt er (\<not> utf8_strings x)" for er
    using 12(1) [OF _ refl 12(3)] unfolding before value_then by auto
  show ?case
    unfolding dump_elements.simps before 12(2) [OF 12(3), unfolded before] not_failed after_fails x
    by (cases m) (auto simp: encoding_error_def)
next
  case (14 opt n k x ms m)
  let ?k = "then_text m (dump_key opt k)"
  let ?m = "rbind ?k (\<lambda>(txt, ind). rbind (dump_value opt n x ind) (\<lambda>(t, ind). Inr (txt @ t, ind)))"
  have before: "before_element opt n m = m" using 14(3) by (simp add: before_element_def)
  have k: "?k = Inl er \<longleftrightarrow> m = Inl er \<or> (\<exists>r. m = Inr r) \<and> encoding_error opt er (\<not> utf8_text k)" for er
    unfolding then_text_fails dump_key_fails ..
  have x: "?m = Inl er \<longleftrightarrow> ?k = Inl er \<or> (\<exists>txt ind. ?k = Inr (txt, ind)) \<and> encoding_error opt er (\<not> utf8_strings x)" for er
    using 14(1) [OF _ refl 14(3)] unfolding before value_then by auto
  have ok: "(\<exists>txt ind. ?k = Inr (txt, ind)) \<longleftrightarrow> (\<forall>er. ?k \<noteq> Inl er)" using not_failed [of ?k] by simp
  show ?case
    unfolding dump_members.simps before 14(2) [OF 14(3), unfolded before] not_failed after_fails x ok k
    by (cases m) (auto simp: encoding_error_def)
qed (simp_all add: encoding_error_def then_text_fails number_printed)

lemma compact_dump_fails:
  "basic_json_dump (-1) c ascii h j = Inl er \<longleftrightarrow> er = TypeError \<and> h = Strict \<and> \<not> utf8_strings j"
proof -
  let ?opt = "\<lparr>pretty_print = False, ensure_ascii = ascii, indent_step = 0, on_error = h\<rparr>"
  show ?thesis
    using compact_fails(1) [of ?opt 0 j "replicate 512 c" er]
    by (auto simp: basic_json_dump_def Let_def rbind_Inl_iff encoding_error_def)
qed

end
