(* ===== verification/Json_Claims.thy ===== *)
theory Json_Claims
  imports Grisu_Inverse IPC_Client Json_Types Json_Failures
begin

text \<open>The properties of the JSON library and of the client that talks JSON.\<close>

text \<open>C3: \<open>json::parse\<close> accepts every JSON text in UTF-8 whose escapes denote Unicode scalar values (no lone
  surrogates) and whose numbers are 64-bit integers or have a finite double, with or without a byte order
  mark, and returns its value: strings decoded, the last of equal keys kept, integers exact when they fit
  64 bits and the double of \<open>strtod\<close> otherwise; neither exceptions nor comments have to be allowed.\<close>

theorem json_document_accepted:
  assumes "document strtod t j"
  shows "basic_json_parse strtod t allow comments = Inr j"
  by (rule document_parse [OF assms])

definition demo_text :: string where
  "demo_text = [CHR 0xEF, CHR 0xBB, CHR 0xBF] @ '' {'' @ [CHR 0x22] @ ''k'' @ [CHR 0x22] @ '': [ -12 , '' @
     [CHR 0x22, CHR 0x5C] @ ''u00e9'' @ [CHR 0x22] @ '' ], '' @ [CHR 0x22] @ ''a'' @ [CHR 0x22] @ '':null}'' @ [CHR 0x0A]"

lemma demo_document:
  "document (\<lambda>_. 0) demo_text (J_Object [(''a'', J_Null), (''k'', J_Array [J_Integer (- 12), J_String [CHR 0xC3, CHR 0xA9]])])"
proof -
  have b: "blank '' ''" "blank []" "blank [CHR 0x0A]" by (simp_all add: blank_def)
  have k: "string_body [c] [c]" if "of_char c \<in> {0x61 ..< (0x7B :: nat)}" for c
    using string_body.plain [OF _ _ _ _ string_body.empty, where n = "of_char c"] that by (simp add: scalar_def utf8_small)
  have n: "number_text (\<lambda>_. 0) ''-12'' (J_Integer (- 12))"
    using number_text.intros [where ds = "''12''" and fr = "[]" and ex = "[]" and j = "J_Integer (- 12)" and strtod = "\<lambda>_. 0" and neg = True]
    by (simp add: int_part_def digits_def digit_def fraction_part_def exponent_part_def number_value_def)
  have "utf8 0xE9 = [CHR 0xC3, CHR 0xA9]" by (simp add: utf8_def utf8_bytes_def char_of_def bit_iff_odd)
  moreover have "hex_quad ''00e9'' (4096 * 0 + 256 * 0 + 16 * 14 + 9)"
    by (rule hex_quad.intros) (simp_all add: digit_value_def Let_def)
  ultimately have e: "string_body ([CHR 0x5C] @ ''u00e9'') [CHR 0xC3, CHR 0xA9]"
    using string_body.unicode [OF _ _ string_body.empty, where h = "''00e9''" and n = "0xE9"] by (simp add: scalar_def)
  note s = json_text_elements_text_members_text.string [OF e, where strtod = "\<lambda>_. 0"]
  note a = json_text_elements_text_members_text.array [OF element [OF b(1) json_text_elements_text_members_text.number [OF n] b(1)
      last_element [OF b(1) s b(1)]]]
  note m = json_text_elements_text_members_text.object [OF member [OF b(2) k [of "CHR ''k''"] b(2) b(1) a b(2)
      last_member [OF b(1) k [of "CHR ''a''"] b(2) b(2) json_text_elements_text_members_text.null b(2)]]]
  show ?thesis
    using document.intros [OF _ b(1) m b(3), of "[CHR 0xEF, CHR 0xBB, CHR 0xBF]"] by (simp add: demo_text_def)
qed

theorem json_document_accepted_witness:
  "basic_json_parse (\<lambda>_. 0) demo_text True False =
     Inr (J_Object [(''a'', J_Null), (''k'', J_Array [J_Integer (- 12), J_String [CHR 0xC3, CHR 0xA9]])])"
  by (rule json_document_accepted [OF demo_document])

text \<open>C4: what \<open>dump\<close> prints, compact or indented, escaped to ASCII or not, \<open>json::parse\<close> reads back
  as the same value, whatever the error handler and the parsing options: for values of UTF-8
  strings, unsigned and negative integers, finite doubles, Booleans and null in arrays and objects,
  as long as the indentation stays within its buffer of 512 characters and \<open>strtod\<close> gives the
  doubles that occur for the texts whose value is rounded to them.\<close>

theorem json_roundtrip:
  assumes "round_trips strtod j" and "indent < 0 \<or> indent * int (depth j) \<le> 512" and "blank [indent_char]"
  shows "\<exists>t. basic_json_dump indent indent_char ascii h j = Inr t \<and> basic_json_parse strtod t allow comments = Inr j"
proof -
  obtain t where "basic_json_dump indent indent_char ascii h j = Inr t" "document strtod t j"
    by (rule dump_document [OF assms])
  then show ?thesis using document_parse by blast
qed

definition demo_json :: json where
  "demo_json = J_Object [(''a'', J_Array [J_Unsigned 7, J_Integer (- 7), J_Null]), (''b'', J_String [CHR 0x0A, CHR 0x22])]"

lemma demo_json_printable: "printable demo_json"
proof -
  have "printable (J_Array [J_Unsigned 7, J_Integer (- 7), J_Null])"
    by (rule printable.intros(6)) (auto intro: printable.intros(1,3,4))
  moreover have "printable (J_String [CHR 0x0A, CHR 0x22])" by (rule printable.intros) (simp add: ascii_text)
  ultimately show ?thesis unfolding demo_json_def by (intro printable.intros(7)) (auto simp: key_order_def ascii_text)
qed

text \<open>Reads the texts of the doubles 1.5 and -0.5.\<close>

definition demo_strtod :: "string \<Rightarrow> double" where
  "demo_strtod t = (if hd t = CHR ''-'' then 0xBFE0000000000000 else 0x3FF8000000000000)"

lemma demo_strtod_rounds: "rounds_correctly demo_strtod 0xBFE0000000000000" "rounds_correctly demo_strtod 0x3FF8000000000000"
proof -
  have sign: "hd t = CHR ''-'' \<longleftrightarrow> neg" if "decimal_text t neg v" for t neg v
    using that int_part_unsigned by cases auto
  have "bit (0xBFE0000000000000 :: double) 63" "\<not> bit (0x3FF8000000000000 :: double) 63" by simp_all
  then show "rounds_correctly demo_strtod 0xBFE0000000000000" "rounds_correctly demo_strtod 0x3FF8000000000000"
    using sign by (auto simp: rounds_correctly_def demo_strtod_def)
qed

definition demo_floats :: json where
  "demo_floats = J_Array [demo_json, J_Float 0xBFE0000000000000, J_Float 0x3FF8000000000000]"

theorem json_roundtrip_witness:
  "\<exists>t. basic_json_dump 4 (CHR '' '') True Strict demo_floats = Inr t \<and> basic_json_parse demo_strtod t True False = Inr demo_floats"
proof (rule json_roundtrip)
  have "isfinite 0xBFE0000000000000" "isfinite 0x3FF8000000000000" by (simp_all add: isfinite_def double_exponent_def)
  then have "round_trips demo_strtod (J_Float 0xBFE0000000000000)" "round_trips demo_strtod (J_Float 0x3FF8000000000000)"
    using demo_strtod_rounds by (simp_all add: round_trips.intros(8))
  then show "round_trips demo_strtod demo_floats"
    unfolding demo_floats_def using printable_round_trips [OF demo_json_printable] by (intro round_trips.intros(6)) auto
  show "4 < (0 :: int) \<or> 4 * int (depth demo_floats) \<le> 512" by (simp add: demo_floats_def demo_json_def depth.simps)
qed (simp add: blank_def)

text \<open>C33: a remote call is a call of the server's handler: when the server parses the body, applies its
  handler and answers a JSON text with a code and a value, the client sees the handler's value exactly
  when the code is 200, and a failed call otherwise.\<close>

theorem call_refines_handler:
  assumes "printable ctx" and "printable (snd (handler ctx))"
  shows "call strtod (json_server strtod handler) ctx =
    Inr (if sint (ucast (fst (handler ctx)) :: u32) = 200 then (snd (handler ctx), True) else (J_Null, False))"
  using assms by (rule call_json_server)

theorem call_refines_handler_witness:
  "call (\<lambda>_. 0) (json_server (\<lambda>_. 0) (\<lambda>j. (200, J_Array [j]))) demo_json = Inr (J_Array [demo_json], True)"
proof -
  have "printable (J_Array [demo_json])" by (rule printable.intros) (simp add: demo_json_printable)
  then show ?thesis using call_refines_handler [of demo_json "\<lambda>j. (200, J_Array [j])"] demo_json_printable by simp
qed

text \<open>C5: whatever bytes \<open>json::parse\<close> is given, what it returns is well-formed: objects are ordered
  maps, keys and strings are UTF-8, doubles are finite and signed integers are not positive. It
  throws only when exceptions are allowed, and returns the discarded value only when they are not.\<close>

theorem parse_type:
  "case basic_json_parse strtod t allow comments of
      Inl ex \<Rightarrow> allow
    | Inr j \<Rightarrow> if allow then well_formed j else well_formed j \<or> j = J_Discarded"
  by (rule parse_well_formed)

text \<open>C6: \<open>dump()\<close>, which the program calls without arguments and so compactly, fails on exactly the
  values with a string or key that is not UTF-8, and only with the strict error handler: no assertion
  fails and no buffer overflows, in the numbers or in the escaping, whatever the value.\<close>

theorem dump_fails:
  "basic_json_dump (-1) indent_char ascii h j = Inl er \<longleftrightarrow> er = TypeError \<and> h = Strict \<and> \<not> utf8_strings j"
  by (rule compact_dump_fails)

text \<open>C7: \<open>to_chars\<close> prints every finite double with its sign, in at most 24 characters, as a decimal
  number that lies strictly between the midpoints to the neighbouring doubles.\<close>

theorem to_chars_nearest:
  assumes "isfinite d"
  shows "\<exists>t v. to_chars 64 d = Inr t \<and> length t \<le> 24 \<and> decimal_text t (bit d 63) v \<and> nearest (take_bit 63 d) v"
proof -
  obtain t where "to_chars 64 d = Inr t" "double_text d t" "length t \<le> 24"
    by (rule to_chars_result [OF assms, of 64]) simp_all
  then show ?thesis using double_text_decimal by metis
qed

theorem to_chars_nearest_witness:
  "\<exists>t v. to_chars 64 0xBFE0000000000000 = Inr t \<and> length t \<le> 24 \<and> decimal_text t True v \<and> nearest 0x3FE0000000000000 v"
  using to_chars_nearest [of "0xBFE0000000000000"] by (simp add: isfinite_def double_exponent_def)

text \<open>C8: different finite doubles are printed differently, so that no information is lost.\<close>

theorem to_chars_inject:
  assumes "isfinite d" and "isfinite d'"
  shows "to_chars 64 d = to_chars 64 d' \<longleftrightarrow> d = d'"
  using to_chars_injective [OF assms, of 64 64] by auto

theorem to_chars_inject_witness: "to_chars 64 0x3FF8000000000000 \<noteq> to_chars 64 0x3FF8000000000001"
  using to_chars_inject [of "0x3FF8000000000000" "0x3FF8000000000001"] by (simp add: isfinite_def double_exponent_def)

end
