(* ===== verification/Spec2Isabelle.thy ===== *)
theory Spec2Isabelle
  imports Crypto Stream_Roundtrip Flv_Claims Record_Ctrl Video_Ctrl Video_Sender Audio_Pump
    Main_Windows Config_Ctrl Frame_Provider Ffmpeg_Encode Json_Claims
begin

text \<open>
  A verification library for MiniSurveillance: a camera-side program that encodes pictures and sound
  and sends them over RTMP, and a viewer that receives, decodes, shows, records and replays them.

  \<^bold>\<open>The program.\<close> On the camera side \<open>CameraFilter\<close> hands camera frames to
  \<open>VideoChannel\<close> (YUYV to I420, libx264, one RTMP packet per NAL unit) and the audio thread of
  \<open>VideoSender\<close> hands blocks of samples to \<open>AudioChannel\<close> (libfaac, one packet per block).
  Both call back into \<open>VideoSender\<close>, which stamps the packets, puts them into a \<open>SafeQueue\<close>
  and has a sending thread take them out. On the viewer's side \<open>VideoCapture\<close> reads RTMP packets
  in a thread and turns their bodies back into NAL units and audio blocks; \<open>VideoCtrl\<close> decrypts
  I-frames (\<open>Crypto\<close>), puts ADTS headers before the audio, runs both through the decoders and
  hands the results to a \<open>FrameProvider\<close> and a sound device, and can record what it shows
  (\<open>FFmpeg_Encode\<close>). \<open>RecordCtrl\<close> does the same for an FLV file, which \<open>FlvPlayer\<close> reads.
  \<open>MainCtrl\<close> owns the devices and the windows and talks to the server in JSON through
  \<open>IPCClient\<close> and the bundled library nlohmann/json; \<open>ConfigCtrl\<close> keeps the settings.

  \<^bold>\<open>The common ground.\<close> \<open>Prelude\<close>: faults (an access outside an allocation, a null
  pointer, an exception, \<open>std::terminate\<close>, and so on), the result type \<open>fault + 'a\<close> with its
  \<open>rbind\<close>, counted loops, and buffers with a capacity whose reads and writes are checked.
  \<open>option\<close> around a result is a loop that may not return (\<open>partial_function\<close>): \<open>None\<close> is a
  call that never returns, so that returning is part of what is proved. \<open>Media_Types\<close>: the enums of
  \<^verbatim>\<open>src/include/types.h\<close> and the RTMP packet. \<open>String_Map\<close>: \<open>std::map\<close> with string
  keys and the interface its clients rely on. Integers keep their widths (\<open>u8\<close>, \<open>u32\<close>, \<open>u64\<close>
  words; \<open>int\<close> of C++ is \<open>int\<close> where no operation of the source can leave its range). Data that
  no constructor sets is a parameter named \<open>raw\<close>.

  \<^bold>\<open>Sending and receiving.\<close> \<open>Video_Channel\<close>, \<open>Yuyv\<close> and \<open>Audio_Channel\<close>
  (\<^verbatim>\<open>VideoChannel.cpp\<close>, \<^verbatim>\<open>AudioChannel.cpp\<close>) build the packets, \<open>Video_Capture\<close>
  (\<^verbatim>\<open>VideoCapture.cpp\<close>) takes them apart; \<open>Stream_Roundtrip\<close> composes the two: what the
  encoders produced is what the viewer's callbacks get, when every sequence parameter set is followed by
  its picture parameter set and both fit 100 bytes. \<open>Safe_Queue\<close>
  (\<^verbatim>\<open>include/SafeQueue.hpp\<close>) has the operations under the mutex, conservation of the elements,
  and the condition variable as a step relation without lost wake-ups. \<open>Video_Sender\<close>
  (\<^verbatim>\<open>VideoSender.cpp\<close>) is a step relation of the encoders, the user and the sending thread,
  which runs on between any two packets of a frame, its invariant and the liveness of \<open>stop\<close>; \<open>Audio_Pump\<close> is the loop of its audio thread.
  \<open>Worker\<close> is the interface of an object that owns one thread, discharged in \<open>Capture_Thread\<close>
  (the receiving thread of \<open>VideoCapture\<close>) and \<open>Video_Sender\<close>.

  \<^bold>\<open>Watching and recording.\<close> \<open>Crypto\<close> (\<^verbatim>\<open>include/Crypto.hpp\<close>): equal to a
  repeating-key XOR. \<open>Adts\<close>: the ADTS header patching of both windows, bit by bit.
  \<open>Ffmpeg_Decoder\<close> and \<open>Frame_Decoders\<close> (\<^verbatim>\<open>FFmpeg_Decoder.cpp\<close>,
  \<^verbatim>\<open>H264Decoder.cpp\<close>, \<^verbatim>\<open>AACDecoder.cpp\<close>): the two loops over the parser and the codec,
  and what the decoders make of a frame; the parser and the codec may refuse and fail, all that is
  relied on is that they sooner or later have no more. \<open>Viewer\<close> holds what both windows share, \<open>Video_Ctrl\<close>
  (\<^verbatim>\<open>VideoCtrl.cpp\<close>) the live window. \<open>Frame_Provider\<close> (\<^verbatim>\<open>FrameProvider.cpp\<close>,
  \<^verbatim>\<open>CameraFilter.cpp\<close>) and \<open>Ffmpeg_Encode\<close> (\<^verbatim>\<open>FFmpeg_Encode.cpp\<close>) are the ends of the
  two pipelines: every frame is presented once, and a recording skips what its codec refuses.

  \<^bold>\<open>Replaying.\<close> \<open>Flv_Player\<close> (\<^verbatim>\<open>FlvPlayer.cpp\<close>) is the player on an arbitrary
  file. \<open>Flv_Format\<close> says what a well-formed file is and that the read position stays on a tag;
  \<open>Flv_Moves\<close>, \<open>Flv_Step\<close> and \<open>Flv_Feed\<close> are what moving, stepping and feeding do on one,
  \<open>Flv_Claims\<close> states it; \<open>Record_Ctrl\<close> (\<^verbatim>\<open>RecordCtrl.cpp\<close>) runs the player inside its
  window. Positions and the log of sleeps have the widths of the target, where \<open>long\<close> has 32 bits.

  \<^bold>\<open>The viewer's tables and the server.\<close> \<open>Main_Ctrl\<close> (\<^verbatim>\<open>MainCtrl.cpp\<close>) has the
  operations, on windows behind the interface \<open>video_window\<close>, which is discharged for
  \<open>Video_Ctrl\<close>; \<open>Main_Windows\<close> proves the invariant that ties devices and windows together
  and the dialogue with the server. \<open>IPC_Client\<close> (\<^verbatim>\<open>IPCClient.cpp\<close>) relies on the interface
  \<open>json_codec\<close>, discharged for the JSON library. \<open>Config_Ctrl\<close> (\<^verbatim>\<open>ConfigCtrl.cpp\<close>): the
  settings refine a finite map and survive their file, which is written and read in text mode.

  \<^bold>\<open>The JSON library\<close> (\<^verbatim>\<open>src/include/nlohmann\<close>), as the program uses it. \<open>Json\<close>
  has the values and the accessors, \<open>Json_Lexer\<close> and \<open>Json_Parser\<close> the scanner, the parser
  loop and the tree builder with their error positions and texts, \<open>Json_Serializer\<close> the printer with
  its UTF-8 automaton and buffers, \<open>Float_Text\<close> the Grisu2 printing of doubles. \<open>Utf8\<close>,
  \<open>Json_Escape\<close> and \<open>Json_Numbers\<close> say what the automaton, the escaping and the writing of
  integers compute; \<open>Json_Grammar\<close> is the grammar of RFC 8259, less lone surrogates and numbers without
  a finite double, with values, and what the lexer does on its parts, \<open>Json_Complete\<close> proves that the parser accepts it, \<open>Json_Roundtrip\<close> that the printer
  produces it. \<open>Json_Strings\<close> shows that the table-driven automaton accepts exactly UTF-8 and that
  escaping keeps inside its buffer for any bytes, \<open>Json_Types\<close> that whatever the parser returns for any
  bytes is well-formed, \<open>Json_Failures\<close> when printing fails; \<open>Json_Claims\<close> states the properties.

  \<^bold>\<open>Printing doubles\<close> (\<^verbatim>\<open>detail/conversions/to_chars.hpp\<close>). \<open>Grisu_Bounds\<close>
  has the 64-bit arithmetic: the product of two do-it-yourself floats is exact up to rounding, and the
  boundaries are the midpoints to the neighbouring doubles. \<open>Grisu_Powers\<close> checks the table of powers
  of ten, within half a unit in the last place, and the choice of its entry. \<open>Grisu_Digits\<close> follows the two loops
  that generate digits: none of their sums and shifts wraps, no assertion fails, at most 17 digits
  are written. \<open>Grisu\<close> puts these together: the digits denote a number strictly between the
  midpoints. \<open>Grisu_Text\<close> carries this to the formatted text, whose value it defines as a real number,
  and says what a correctly rounding \<open>strtod\<close> is; \<open>Grisu_Inverse\<close> proves that the intervals are
  disjoint and that a text has one value, so that printing is injective and such a \<open>strtod\<close> exists.

  \<^bold>\<open>Loops and bounds.\<close> Loops of the source are structural recursion or \<open>function\<close> with a
  termination proof; the lexer's and parser's loops end because the number of characters not yet
  taken decreases, the escaping loop because a byte is looked at twice at most. Loops that depend on
  what the libraries or the file do are \<open>partial_function\<close>, and the theorems about them show that
  they return; the properties about a divergence show that they do not. The only fuel is the number of
  passes \<open>feed_passes\<close> of the feeding thread, which its theorem quantifies over: every number above
  the number of tags gives the same result.

  \<^bold>\<open>Parameters.\<close> libx264, libfaac, libavcodec, librtmp, gRPC, Qt and \<open>strtod\<close> are arguments
  of the definitions, with their documented behaviour as named hypotheses (\<open>rtmp_alloc_ok\<close>,
  \<open>channel_ready\<close>, the relations \<open>cuts\<close>, \<open>decodes\<close> and \<open>encodes\<close> of what a codec does in
  a run, and the like), which the witnesses instantiate. The locale of the C library is
  "C".

  \<^bold>\<open>Not modelled.\<close> \<^verbatim>\<open>main.cpp\<close>, \<^verbatim>\<open>CursorPosProvider.cpp\<close> and the log macro:
  registration of QML types, the mouse position and output only. The protobuf and gRPC stubs are
  generated. The headers of the bundled C libraries declare code that is not in the repository. Of
  nlohmann/json the binary formats, JSON pointers and patches, callbacks, ordered maps and iterators
  are never used by the program. The wall clock is not part of the models: the player logs how long
  it sleeps between pictures, other sleeps are passed over; where threads meet, every interleaving of their steps is.
\<close>

end
